(* ===== verification/Convex_Prelude.thy ===== *)
theory Convex_Prelude
  imports Main "HOL-Library.Word" "HOL-Library.List_Lexorder" "HOL-Library.Sublist"
begin

text \<open>
  Shared vocabulary of the development: bytes and byte strings, the result type of
  fallible Rust code, and the part of the standard library's ordered map
  (\<^verbatim>\<open>std::collections::BTreeMap\<close>) that the modelled code uses.

  \<^item> A \<^verbatim>\<open>u8\<close> is an \<open>8 word\<close>, a \<^verbatim>\<open>Vec<u8>\<close> or \<^verbatim>\<open>&[u8]\<close> a list of them. Rust orders slices
    lexicographically, which is the order of \<open>HOL-Library.List_Lexorder\<close>.
  \<^item> A value of type \<^verbatim>\<open>anyhow::Result<T>\<close> is \<open>error + 'a\<close>; a panic (\<^verbatim>\<open>assert!\<close>, \<^verbatim>\<open>expect\<close>,
    \<^verbatim>\<open>unreachable!\<close>) is the error \<open>Panic\<close>, so that its absence is a provable statement.
  \<^item> A \<^verbatim>\<open>BTreeMap<K, V>\<close> is the list of its entries in key order.
\<close>

type_synonym byte = "8 word"
type_synonym bytes = "8 word list"

named_theorems result_simps \<open>unfolding rules for the result type\<close>
named_theorems btree_simps \<open>rewrite rules for ordered maps\<close>

subsection \<open>Results\<close>

datatype error =
    Panic string
  | Bail string
  | OutOfRetention
  | PaginationLimit string
  | BadRequest string

definition and_then :: "'e + 'a \<Rightarrow> ('a \<Rightarrow> 'e + 'b) \<Rightarrow> 'e + 'b" where
  "and_then r f = (case r of Inl e \<Rightarrow> Inl e | Inr x \<Rightarrow> f x)"

definition expect :: "string \<Rightarrow> 'a option \<Rightarrow> error + 'a" where
  "expect msg x = (case x of None \<Rightarrow> Inl (Panic msg) | Some v \<Rightarrow> Inr v)"

lemma and_then_simps [simp, result_simps]:
  "and_then (Inl e) f = Inl e"
  "and_then (Inr x) f = f x"
  by (simp_all add: and_then_def)

lemma and_then_Inr_iff [result_simps]:
  "and_then r f = Inr y \<longleftrightarrow> (\<exists>x. r = Inr x \<and> f x = Inr y)"
  by (cases r) simp_all

lemma expect_simps [simp, result_simps]:
  "expect msg None = Inl (Panic msg)"
  "expect msg (Some v) = Inr v"
  by (simp_all add: expect_def)

text \<open>\<^verbatim>\<open>collect::<Result<Vec<_>>>()\<close> and \<^verbatim>\<open>try_collect\<close>: the first error ends the traversal.\<close>

fun try_map :: "('a \<Rightarrow> 'e + 'b) \<Rightarrow> 'a list \<Rightarrow> 'e + 'b list" where
  "try_map f [] = Inr []"
| "try_map f (x # xs) = and_then (f x) (\<lambda>y. and_then (try_map f xs) (\<lambda>ys. Inr (y # ys)))"

lemma try_map_Inr_iff: "try_map f xs = Inr ys \<longleftrightarrow> list_all2 (\<lambda>x y. f x = Inr y) xs ys"
proof (induction xs arbitrary: ys)
  case (Cons x xs)
  then show ?case by (cases ys) (auto simp: and_then_Inr_iff)
qed auto

subsection \<open>Byte strings\<close>

text \<open>A string literal of the source as its UTF-8 bytes.\<close>

definition ascii :: "string \<Rightarrow> bytes" where
  "ascii s = map of_char s"

lemma unat_byte_less: "unat (b :: byte) < 256"
  using unsigned_less [of b, where 'a = nat] by simp

lemma byte_less_add_one: "(a :: byte) < 255 \<Longrightarrow> x < a + 1 \<longleftrightarrow> x \<le> a"
  by (simp add: word_less_nat_alt word_le_nat_alt unat_word_ariths) linarith

lemma byte_not_less_255 [simp]: "\<not> (a :: byte) < 255 \<longleftrightarrow> a = 255"
  using unat_byte_less [of a] by (auto simp: word_less_nat_alt word_unat_eq_iff)

lemma byte_not_greater_255 [simp]: "\<not> 255 < (a :: byte)"
  using unat_byte_less [of a] by (simp add: word_less_nat_alt)

lemma append_less_iff [simp]: "(xs :: 'a::linorder list) @ ys < xs @ zs \<longleftrightarrow> ys < zs"
  by (induction xs) auto

lemma append_le_iff [simp]: "(xs :: 'a::linorder list) @ ys \<le> xs @ zs \<longleftrightarrow> ys \<le> zs"
  by (induction xs) auto

lemma prefix_imp_le: "prefix xs ys \<Longrightarrow> (xs :: 'a::linorder list) \<le> ys"
  by (auto simp: prefix_def list_le_def) (metis append_Nil2 append_less_iff neq_Nil_conv Nil_less_Cons)

text \<open>Nothing lies between a byte string and the string followed by a zero byte.\<close>

lemma less_append_zero_iff: "(p :: bytes) < k @ [0] \<longleftrightarrow> p \<le> k"
proof (induction k arbitrary: p)
  case Nil
  then show ?case by (cases p) (auto simp: word_neq_0_conv)
next
  case (Cons a k)
  then show ?case by (cases p) auto
qed

subsection \<open>Ordered maps\<close>

text \<open>
  The entries of a \<^verbatim>\<open>BTreeMap\<close> in key order, each key once. Insertion replaces the value of an
  existing key; \<^verbatim>\<open>range\<close> selects the entries whose key lies in the range.
\<close>

type_synonym ('k, 'v) btree_map = "('k \<times> 'v) list"

definition bt_wf :: "('k::linorder, 'v) btree_map \<Rightarrow> bool" where
  "bt_wf m \<longleftrightarrow> sorted_wrt (<) (map fst m)"

definition bt_get :: "('k::linorder, 'v) btree_map \<Rightarrow> 'k \<Rightarrow> 'v option" where
  "bt_get m k = map_of m k"

definition bt_insert :: "'k::linorder \<Rightarrow> 'v \<Rightarrow> ('k, 'v) btree_map \<Rightarrow> ('k, 'v) btree_map" where
  "bt_insert k v m = filter (\<lambda>e. fst e < k) m @ (k, v) # filter (\<lambda>e. k < fst e) m"

definition bt_remove :: "'k::linorder \<Rightarrow> ('k, 'v) btree_map \<Rightarrow> ('k, 'v) btree_map" where
  "bt_remove k m = filter (\<lambda>e. fst e \<noteq> k) m"

text \<open>\<^verbatim>\<open>iter().next_back()\<close> and \<^verbatim>\<open>iter().next()\<close>.\<close>

definition bt_last :: "('k, 'v) btree_map \<Rightarrow> ('k \<times> 'v) option" where
  "bt_last m = (if m = [] then None else Some (last m))"

definition bt_first :: "('k, 'v) btree_map \<Rightarrow> ('k \<times> 'v) option" where
  "bt_first m = (case m of [] \<Rightarrow> None | e # _ \<Rightarrow> Some e)"

lemma bt_get_simps [simp]:
  "bt_get [] k = None"
  "bt_get (e # m) k = (if fst e = k then Some (snd e) else bt_get m k)"
  by (simp_all add: bt_get_def)

lemma bt_wf_Nil [simp]: "bt_wf []"
  by (simp add: bt_wf_def)

lemma bt_wf_Cons [btree_simps]:
  "bt_wf (e # m) \<longleftrightarrow> (\<forall>e' \<in> set m. fst e < fst e') \<and> bt_wf m"
  by (auto simp: bt_wf_def)

lemma bt_wf_append [btree_simps]:
  "bt_wf (m @ m') \<longleftrightarrow> bt_wf m \<and> bt_wf m' \<and> (\<forall>e \<in> set m. \<forall>e' \<in> set m'. fst e < fst e')"
  by (auto simp: bt_wf_def sorted_wrt_append)

lemma bt_wf_filter: "bt_wf m \<Longrightarrow> bt_wf (filter P m)"
  by (induction m) (auto simp: bt_wf_Cons)

lemma bt_wf_distinct: "bt_wf m \<Longrightarrow> distinct (map fst m)"
  by (induction m) (auto simp: bt_wf_Cons)

lemma bt_wf_inj: "bt_wf m \<Longrightarrow> (k, v) \<in> set m \<Longrightarrow> (k, v') \<in> set m \<Longrightarrow> v = v'"
  by (meson bt_wf_distinct eq_key_imp_eq_value)

lemma bt_wf_insert [intro]: "bt_wf m \<Longrightarrow> bt_wf (bt_insert k v m)"
  by (auto simp: bt_insert_def bt_wf_append bt_wf_Cons intro: bt_wf_filter)

lemma bt_wf_remove [intro]: "bt_wf m \<Longrightarrow> bt_wf (bt_remove k m)"
  by (auto simp: bt_remove_def intro: bt_wf_filter)

lemma set_bt_insert [btree_simps]:
  "set (bt_insert k v m) = insert (k, v) {e \<in> set m. fst e \<noteq> k}"
  by (auto simp: bt_insert_def)

lemma set_bt_remove [btree_simps]: "set (bt_remove k m) = {e \<in> set m. fst e \<noteq> k}"
  by (auto simp: bt_remove_def)

lemma keys_bt_remove [btree_simps]: "fst ` set (bt_remove k m) = fst ` set m - {k}"
  by (auto simp: bt_remove_def)

lemma keys_bt_insert [btree_simps]: "fst ` set (bt_insert k v m) = insert k (fst ` set m)"
  by (force simp: bt_insert_def image_iff)

lemma bt_get_iff: "bt_wf m \<Longrightarrow> bt_get m k = Some v \<longleftrightarrow> (k, v) \<in> set m"
  by (simp add: bt_get_def bt_wf_distinct map_of_eq_Some_iff)

lemma bt_get_None_iff [btree_simps]: "bt_get m k = None \<longleftrightarrow> k \<notin> fst ` set m"
  by (simp add: bt_get_def map_of_eq_None_iff)

lemma bt_get_filter: "bt_get (filter (\<lambda>e. P (fst e)) m) k = (if P k then bt_get m k else None)"
  by (induction m) auto

lemma bt_get_append: "bt_get (m @ m') k = (case bt_get m k of None \<Rightarrow> bt_get m' k | Some v \<Rightarrow> Some v)"
  by (induction m) auto

lemma bt_get_insert [simp]: "bt_get (bt_insert k v m) k' = (if k' = k then Some v else bt_get m k')"
  using bt_get_filter [of "\<lambda>a. a < k" m k'] bt_get_filter [of "\<lambda>a. k < a" m k']
  by (auto simp: bt_insert_def bt_get_append split: option.splits)

lemma bt_get_remove [simp]: "bt_get (bt_remove k m) k' = (if k' = k then None else bt_get m k')"
  unfolding bt_get_def bt_remove_def by (induction m) auto

text \<open>
  What a client of an ordered map relies on, stated once and discharged for the model of
  \<^verbatim>\<open>BTreeMap\<close>.
\<close>

locale ordered_map =
  fixes invar :: "'m \<Rightarrow> bool"
    and empty :: 'm
    and get :: "'m \<Rightarrow> 'k::linorder \<Rightarrow> 'v option"
    and insert :: "'k \<Rightarrow> 'v \<Rightarrow> 'm \<Rightarrow> 'm"
    and remove :: "'k \<Rightarrow> 'm \<Rightarrow> 'm"
  assumes invar_empty: "invar empty"
    and invar_insert: "invar m \<Longrightarrow> invar (insert k v m)"
    and invar_remove: "invar m \<Longrightarrow> invar (remove k m)"
    and get_empty: "get empty k = None"
    and get_insert: "invar m \<Longrightarrow> get (insert k v m) k' = (if k' = k then Some v else get m k')"
    and get_remove: "invar m \<Longrightarrow> get (remove k m) k' = (if k' = k then None else get m k')"
begin

text \<open>Collecting an iterator of entries into a map: the last entry of a key wins.\<close>

lemma invar_fold_insert: "invar m \<Longrightarrow> invar (fold (\<lambda>(k, v). insert k v) es m)"
  by (induction es arbitrary: m) (auto intro: invar_insert)

lemma get_fold_insert:
  "invar m \<Longrightarrow> get (fold (\<lambda>(k, v). insert k v) es m) k =
     (case map_of (rev es) k of Some v \<Rightarrow> Some v | None \<Rightarrow> get m k)"
proof (induction es arbitrary: m)
  case Nil
  then show ?case by simp
next
  case (Cons e es)
  obtain a b where e: "e = (a, b)" by (cases e)
  have "invar (insert a b m)" using Cons.prems by (rule invar_insert)
  then show ?case
    using Cons by (auto simp: e get_insert map_add_def split: option.splits)
qed

end

interpretation bt: ordered_map bt_wf "[]" bt_get bt_insert bt_remove
  by unfold_locales (auto simp: bt_get_def [of "[]"])

end
