(* ===== verification/Interval_Keys.thy ===== *)
theory Interval_Keys
  imports Convex_Prelude
begin

text \<open>
  Intervals of byte strings (\<^verbatim>\<open>crates/common/src/interval/\<close>, files \<^verbatim>\<open>key.rs\<close>, \<^verbatim>\<open>bounds.rs\<close> and
  \<^verbatim>\<open>mod.rs\<close>): an inclusive lower bound and an exclusive, possibly infinite, upper bound.
  The wrappers \<^verbatim>\<open>BinaryKey\<close>, \<^verbatim>\<open>StartIncluded\<close> and \<^verbatim>\<open>IndexKeyBytes\<close> hold one \<^verbatim>\<open>Vec<u8>\<close> and inherit its
  order, so they are byte strings here; the borrowed views \<^verbatim>\<open>IntervalRef\<close> and \<^verbatim>\<open>EndRef\<close> carry the
  same data as \<^verbatim>\<open>Interval\<close> and \<^verbatim>\<open>End\<close> and share their model.
\<close>

subsection \<open>Keys\<close>

type_synonym binary_key = bytes

text \<open>
  \<^verbatim>\<open>BinaryKey::increment\<close>: the loop looks at the last byte, increments it when it is below 255
  and drops it otherwise. The recursion runs over the reversed key.
\<close>

fun increment_rev :: "bytes \<Rightarrow> bytes option" where
  "increment_rev [] = None"
| "increment_rev (b # bs) = (if b < 255 then Some ((b + 1) # bs) else increment_rev bs)"

definition increment :: "binary_key \<Rightarrow> binary_key option" where
  "increment k = map_option rev (increment_rev (rev k))"

subsection \<open>Upper bounds\<close>

datatype End = Excluded binary_key | Unbounded

text \<open>The derived order: by constructor, then by key.\<close>

instantiation End :: linorder
begin

fun less_eq_End :: "End \<Rightarrow> End \<Rightarrow> bool" where
  "less_eq_End _ Unbounded = True"
| "less_eq_End Unbounded (Excluded _) = False"
| "less_eq_End (Excluded s) (Excluded t) = (s \<le> t)"

definition less_End :: "End \<Rightarrow> End \<Rightarrow> bool" where
  "less_End x y = (x \<le> y \<and> \<not> y \<le> x)"

instance
proof
  fix x y z :: End
  show "x < y \<longleftrightarrow> x \<le> y \<and> \<not> y \<le> x" by (rule less_End_def)
  show "x \<le> x" by (cases x) auto
  show "x \<le> y \<Longrightarrow> y \<le> z \<Longrightarrow> x \<le> z" by (cases x; cases y; cases z) auto
  show "x \<le> y \<Longrightarrow> y \<le> x \<Longrightarrow> x = y" by (cases x; cases y) auto
  show "x \<le> y \<or> y \<le> x" by (cases x; cases y) auto
qed

end

lemma less_End_simps [simp]:
  "\<not> Unbounded < e"
  "Excluded s < Unbounded"
  "Excluded s < Excluded t \<longleftrightarrow> s < t"
  by (auto simp: less_End_def)

definition after_prefix :: "binary_key \<Rightarrow> End" where
  "after_prefix key = (case increment key of None \<Rightarrow> Unbounded | Some k \<Rightarrow> Excluded k)"

definition included :: "binary_key \<Rightarrow> End" where
  "included key = Excluded (key @ [0])"

fun end_is_disjoint :: "End \<Rightarrow> binary_key \<Rightarrow> bool" where
  "end_is_disjoint Unbounded _ = False"
| "end_is_disjoint (Excluded s) t = (s \<le> t)"

fun end_is_adjacent :: "End \<Rightarrow> binary_key \<Rightarrow> bool" where
  "end_is_adjacent Unbounded _ = False"
| "end_is_adjacent (Excluded s) t = (s = t)"

fun greater_than :: "End \<Rightarrow> bytes \<Rightarrow> bool" where
  "greater_than (Excluded e) key = (key < e)"
| "greater_than Unbounded key = True"

subsection \<open>Intervals\<close>

record interval =
  ivl_start :: binary_key
  ivl_end :: End

datatype Order = Asc | Desc

datatype CursorPosition = After bytes | CursorEnd

definition ivl_prefix :: "binary_key \<Rightarrow> interval" where
  "ivl_prefix key = \<lparr>ivl_start = key, ivl_end = after_prefix key\<rparr>"

definition ivl_empty :: interval where
  "ivl_empty = \<lparr>ivl_start = [], ivl_end = Excluded []\<rparr>"

definition ivl_all :: interval where
  "ivl_all = \<lparr>ivl_start = [], ivl_end = Unbounded\<rparr>"

definition ivl_is_empty :: "interval \<Rightarrow> bool" where
  "ivl_is_empty i = (case ivl_end i of Unbounded \<Rightarrow> False | Excluded t \<Rightarrow> t \<le> ivl_start i)"

definition ivl_contains :: "interval \<Rightarrow> bytes \<Rightarrow> bool" where
  "ivl_contains i point =
     (let after_start = (ivl_start i \<le> point);
          before_end = (case ivl_end i of Excluded t \<Rightarrow> point < t | Unbounded \<Rightarrow> True)
      in after_start \<and> before_end)"

definition is_superset :: "interval \<Rightarrow> interval \<Rightarrow> bool" where
  "is_superset self other =
     (ivl_is_empty other \<or> ivl_start self \<le> ivl_start other \<and> ivl_end other \<le> ivl_end self)"

fun contains_cursor :: "interval \<Rightarrow> CursorPosition \<Rightarrow> bool" where
  "contains_cursor self (After last_key) = ivl_contains self last_key"
| "contains_cursor self CursorEnd = True"

definition is_disjoint :: "interval \<Rightarrow> interval \<Rightarrow> bool" where
  "is_disjoint self other =
     (ivl_is_empty self \<or> ivl_is_empty other
      \<or> end_is_disjoint (ivl_end other) (ivl_start self)
      \<or> end_is_disjoint (ivl_end self) (ivl_start other))"

definition is_adjacent :: "interval \<Rightarrow> interval \<Rightarrow> bool" where
  "is_adjacent self other =
     (if ivl_is_empty self \<or> ivl_is_empty other then False
      else end_is_adjacent (ivl_end self) (ivl_start other)
           \<or> end_is_adjacent (ivl_end other) (ivl_start self))"

fun split_after :: "interval \<Rightarrow> bytes \<Rightarrow> Order \<Rightarrow> interval \<times> interval" where
  "split_after self last_key Asc =
     (\<lparr>ivl_start = ivl_start self, ivl_end = after_prefix last_key\<rparr>,
      case increment last_key of
        Some last_key_incr \<Rightarrow> \<lparr>ivl_start = last_key_incr, ivl_end = ivl_end self\<rparr>
      | None \<Rightarrow> ivl_empty)"
| "split_after self last_key Desc =
     (\<lparr>ivl_start = last_key, ivl_end = ivl_end self\<rparr>,
      \<lparr>ivl_start = ivl_start self, ivl_end = Excluded last_key\<rparr>)"

fun ivl_split :: "interval \<Rightarrow> CursorPosition \<Rightarrow> Order \<Rightarrow> interval \<times> interval" where
  "ivl_split self (After last_key) order = split_after self last_key order"
| "ivl_split self CursorEnd order = (self, ivl_empty)"

definition singleton :: "binary_key \<Rightarrow> interval" where
  "singleton value = \<lparr>ivl_start = value, ivl_end = included value\<rparr>"

text \<open>\<^verbatim>\<open>strip_prefix\<close> of the standard library, on slices.\<close>

fun strip_prefix :: "'a list \<Rightarrow> 'a list \<Rightarrow> 'a list option" where
  "strip_prefix xs [] = Some xs"
| "strip_prefix [] (p # ps) = None"
| "strip_prefix (x # xs) (p # ps) = (if x = p then strip_prefix xs ps else None)"

definition is_singleton :: "interval \<Rightarrow> binary_key option" where
  "is_singleton self =
     (case ivl_end self of
        Excluded e \<Rightarrow>
          if strip_prefix e (ivl_start self) = Some [0] then Some (ivl_start self) else None
      | Unbounded \<Rightarrow> None)"

subsection \<open>The successor of all keys with a prefix\<close>

lemma increment_rev_snoc:
  "increment_rev (r @ [a]) =
     (case increment_rev r of
        Some r' \<Rightarrow> Some (r' @ [a])
      | None \<Rightarrow> if a < 255 then Some [a + 1] else None)"
  by (induction r) auto

lemma increment_Nil [simp]: "increment [] = None"
  by (simp add: increment_def)

lemma increment_Cons [simp]:
  "increment (a # k) =
     (case increment k of
        Some k' \<Rightarrow> Some (a # k')
      | None \<Rightarrow> if a < 255 then Some [a + 1] else None)"
  by (auto simp: increment_def increment_rev_snoc split: option.splits)

lemma increment_None_iff: "increment k = None \<longleftrightarrow> (\<forall>b \<in> set k. b = 255)"
  by (induction k) (auto split: option.splits)

lemma increment_None_prefix_iff: "increment k = None \<Longrightarrow> prefix k s \<longleftrightarrow> k \<le> s"
proof (induction k arbitrary: s)
  case Nil
  then show ?case by simp
next
  case (Cons a k)
  then show ?case by (cases s) (auto split: option.splits if_splits)
qed

lemma increment_Some_prefix_iff:
  "increment k = Some k' \<Longrightarrow> prefix k s \<longleftrightarrow> k \<le> s \<and> s < k'"
proof (induction k arbitrary: k' s)
  case Nil
  then show ?case by simp
next
  case (Cons a k)
  then show ?case
    by (cases s; cases "increment k") (auto split: if_splits simp: byte_less_add_one increment_None_prefix_iff)
qed

lemma less_increment: "increment k = Some k' \<Longrightarrow> k < k'"
  using increment_Some_prefix_iff [of k k' k] by simp

lemma prefix_iff_after_prefix: "prefix k s \<longleftrightarrow> k \<le> s \<and> greater_than (after_prefix k) s"
  by (cases "increment k")
    (auto simp: after_prefix_def increment_None_prefix_iff increment_Some_prefix_iff)

subsection \<open>Intervals as sets of keys\<close>

definition ivl_points :: "interval \<Rightarrow> bytes set" where
  "ivl_points i = {k. ivl_contains i k}"

lemma ivl_contains_iff: "ivl_contains i k \<longleftrightarrow> ivl_start i \<le> k \<and> greater_than (ivl_end i) k"
  by (cases "ivl_end i") (auto simp: ivl_contains_def)

lemma ivl_points_iff [simp]: "k \<in> ivl_points i \<longleftrightarrow> ivl_start i \<le> k \<and> greater_than (ivl_end i) k"
  by (simp add: ivl_points_def ivl_contains_iff)

lemma greater_than_mono: "greater_than e k \<Longrightarrow> e \<le> e' \<Longrightarrow> greater_than e' k"
  by (cases e; cases e') auto

lemma greater_than_anti: "greater_than e k \<Longrightarrow> j \<le> k \<Longrightarrow> greater_than e j"
  by (cases e) auto

lemma end_le_not_greater_than: "e \<le> Excluded s \<Longrightarrow> s \<le> k \<Longrightarrow> \<not> greater_than e k"
  by (cases e) auto

lemma not_greater_than_iff: "\<not> greater_than e k \<longleftrightarrow> e \<le> Excluded k"
  by (cases e) auto

lemma end_is_disjoint_iff: "end_is_disjoint e s \<longleftrightarrow> e \<le> Excluded s"
  by (cases e) auto

lemma end_is_adjacent_iff: "end_is_adjacent e s \<longleftrightarrow> e = Excluded s"
  by (cases e) auto

lemma ivl_is_empty_iff: "ivl_is_empty i \<longleftrightarrow> \<not> greater_than (ivl_end i) (ivl_start i)"
  by (cases "ivl_end i") (auto simp: ivl_is_empty_def)

lemma ivl_is_empty_points: "ivl_is_empty i \<longleftrightarrow> ivl_points i = {}"
  using greater_than_anti [of "ivl_end i" _ "ivl_start i"] by (auto simp: ivl_is_empty_iff)

lemma ivl_empty_points [simp]: "ivl_points ivl_empty = {}"
  by (auto simp: ivl_empty_def)

lemma ivl_all_points [simp]: "ivl_points ivl_all = UNIV"
  by (auto simp: ivl_all_def)

lemma is_superset_points: "is_superset i j \<longleftrightarrow> ivl_points j \<subseteq> ivl_points i"
proof
  assume "is_superset i j"
  then show "ivl_points j \<subseteq> ivl_points i"
    by (auto simp: is_superset_def ivl_is_empty_points dest: greater_than_mono)
next
  assume sub: "ivl_points j \<subseteq> ivl_points i"
  show "is_superset i j"
  proof (cases "ivl_is_empty j")
    case True
    then show ?thesis by (simp add: is_superset_def)
  next
    case False
    then have "ivl_start j \<in> ivl_points j" by (simp add: ivl_is_empty_iff)
    with sub have st: "ivl_start i \<le> ivl_start j" "greater_than (ivl_end i) (ivl_start j)" by auto
    have "ivl_end j \<le> ivl_end i"
    proof (rule ccontr)
      assume "\<not> ivl_end j \<le> ivl_end i"
      then obtain t where t: "ivl_end i = Excluded t" "greater_than (ivl_end j) t"
        by (cases "ivl_end i"; cases "ivl_end j") auto
      with st have "t \<in> ivl_points j" by simp
      with sub have "t \<in> ivl_points i" by blast
      with t show False by simp
    qed
    with st show ?thesis by (simp add: is_superset_def)
  qed
qed

lemma is_disjoint_points: "is_disjoint i j \<longleftrightarrow> ivl_points i \<inter> ivl_points j = {}"
proof
  assume "is_disjoint i j"
  then show "ivl_points i \<inter> ivl_points j = {}"
    by (auto simp: is_disjoint_def ivl_is_empty_points end_is_disjoint_iff
        dest: end_le_not_greater_than)
next
  assume disj: "ivl_points i \<inter> ivl_points j = {}"
  then have "max (ivl_start i) (ivl_start j) \<notin> ivl_points i \<inter> ivl_points j" by simp
  then have "\<not> greater_than (ivl_end i) (max (ivl_start i) (ivl_start j))
      \<or> \<not> greater_than (ivl_end j) (max (ivl_start i) (ivl_start j))" by auto
  then show "is_disjoint i j"
    by (auto simp: is_disjoint_def ivl_is_empty_iff end_is_disjoint_iff not_greater_than_iff max_def
        split: if_splits)
qed

lemma is_adjacent_iff:
  "is_adjacent i j \<longleftrightarrow> \<not> ivl_is_empty i \<and> \<not> ivl_is_empty j
     \<and> (ivl_end i = Excluded (ivl_start j) \<or> ivl_end j = Excluded (ivl_start i))"
  by (auto simp: is_adjacent_def end_is_adjacent_iff)

lemma ivl_prefix_points: "ivl_points (ivl_prefix k) = {s. prefix k s}"
  by (simp add: set_eq_iff ivl_prefix_def prefix_iff_after_prefix)

lemma singleton_points: "ivl_points (singleton v) = {v}"
  by (auto simp: singleton_def included_def less_append_zero_iff)

lemma strip_prefix_Some_iff: "strip_prefix xs ps = Some r \<longleftrightarrow> xs = ps @ r"
  by (induction xs ps rule: strip_prefix.induct) auto

lemma is_singleton_points: "is_singleton i = Some v \<longleftrightarrow> ivl_points i = {v}"
proof
  assume "is_singleton i = Some v"
  then have "i = singleton v"
    by (cases i) (auto simp: is_singleton_def singleton_def included_def strip_prefix_Some_iff
        split: End.splits if_splits)
  then show "ivl_points i = {v}" by (simp add: singleton_points)
next
  assume pts: "ivl_points i = {v}"
  then have "\<not> ivl_is_empty i" by (simp add: ivl_is_empty_points)
  then have "ivl_start i \<in> ivl_points i" by (simp add: ivl_is_empty_iff)
  then have st: "ivl_start i = v" unfolding pts by simp
  have "v @ [0] \<notin> ivl_points i" by (simp add: pts)
  moreover have "v \<le> v @ [0]" by (simp add: prefix_imp_le)
  ultimately have "\<not> greater_than (ivl_end i) (v @ [0])" by (simp add: st)
  moreover have "greater_than (ivl_end i) v"
    using ivl_points_iff [of v i] by (simp add: pts)
  moreover have "e = v @ [0]" if "v < e" "e \<le> v @ [0]" for e
    using that less_append_zero_iff [of e v] by (auto simp: le_less)
  ultimately have "ivl_end i = Excluded (v @ [0])"
    by (cases "ivl_end i") (auto simp: not_less)
  then show "is_singleton i = Some v"
    by (simp add: is_singleton_def st strip_prefix_Some_iff)
qed

subsection \<open>Splitting an interval at a key\<close>

lemma split_after_read:
  "ivl_contains (fst (split_after i last_key ord)) k \<longleftrightarrow>
     (case ord of
        Asc \<Rightarrow> ivl_start i \<le> k \<and> greater_than (after_prefix last_key) k
      | Desc \<Rightarrow> last_key \<le> k \<and> greater_than (ivl_end i) k)"
  by (cases ord) (simp_all add: ivl_contains_iff)

lemma split_after_remaining:
  "ivl_contains (snd (split_after i last_key ord)) k \<longleftrightarrow>
     (case ord of
        Asc \<Rightarrow> greater_than (ivl_end i) k \<and> last_key \<le> k \<and> \<not> greater_than (after_prefix last_key) k
      | Desc \<Rightarrow> ivl_start i \<le> k \<and> k < last_key)"
proof (cases ord)
  case Asc
  show ?thesis
  proof (cases "increment last_key")
    case None
    then show ?thesis
      by (simp add: Asc ivl_contains_iff ivl_empty_def after_prefix_def)
  next
    case (Some k')
    then show ?thesis
      using less_increment [OF Some] by (auto simp: Asc ivl_contains_iff after_prefix_def)
  qed
next
  case Desc
  then show ?thesis by (simp add: ivl_contains_iff)
qed

declare split_after.simps [simp del]

lemma greater_than_after_prefix:
  "k \<le> last_key \<Longrightarrow> greater_than (after_prefix last_key) k"
  using prefix_iff_after_prefix [of last_key last_key] by (auto dest: greater_than_anti)

subsection \<open>Properties\<close>

text \<open>
  C33: a prefix interval (\<^verbatim>\<open>Interval::prefix\<close>) contains exactly the keys that start with the prefix,
  also when the prefix ends in bytes 255 or consists of them.
\<close>

theorem ivl_prefix_exact: "ivl_contains (ivl_prefix key) s \<longleftrightarrow> prefix key s"
  using ivl_prefix_points [of key] by (auto simp: ivl_points_def)

text \<open>
  \<^verbatim>\<open>BinaryKey::increment\<close> returns the least key above every key that starts with the given one,
  and it fails exactly for the keys made of bytes 255 (the empty key included), which have no
  upper bound among the keys.
\<close>

theorem increment_least:
  "(case increment key of
      Some incr \<Rightarrow> (\<forall>s. prefix key s \<longrightarrow> s < incr)
        \<and> (\<forall>u. (\<forall>s. prefix key s \<longrightarrow> s < u) \<longrightarrow> incr \<le> u)
    | None \<Rightarrow> (\<forall>b \<in> set key. b = 255) \<and> \<not> (\<exists>u. \<forall>s. prefix key s \<longrightarrow> s < u))"
proof (cases "increment key")
  case None
  have "\<not> (\<exists>u. \<forall>s. prefix key s \<longrightarrow> s < u)"
  proof
    assume "\<exists>u. \<forall>s. prefix key s \<longrightarrow> s < u"
    then obtain u where u: "prefix key s \<Longrightarrow> s < u" for s by blast
    from u [of key] have "prefix key u" using increment_None_prefix_iff [OF None] by simp
    with u show False by blast
  qed
  with None show ?thesis by (simp add: increment_None_iff [symmetric])
next
  case (Some incr)
  have "incr \<le> u" if u: "\<forall>s. prefix key s \<longrightarrow> s < u" for u
  proof (rule ccontr)
    assume "\<not> incr \<le> u"
    moreover have "key < u" using u by simp
    ultimately have "prefix key u" using increment_Some_prefix_iff [OF Some] by (simp add: not_le)
    with u show False by blast
  qed
  with Some show ?thesis using increment_Some_prefix_iff [OF Some] by simp
qed

theorem increment_least_witness:
  "increment [7, 255] = Some [8] \<and> [7, 255, 3] < [8 :: byte]"
  using increment_least [of "[7, 255]"] by (simp add: increment_def)

text \<open>
  C34: the queries on intervals (\<^verbatim>\<open>is_empty\<close>, \<^verbatim>\<open>is_superset\<close>, \<^verbatim>\<open>is_disjoint\<close>, \<^verbatim>\<open>is_singleton\<close>), which only
  compare bounds, answer the corresponding questions about the sets of keys the intervals contain.
\<close>

theorem interval_queries_correct:
  "(ivl_is_empty i \<longleftrightarrow> {k. ivl_contains i k} = {})
   \<and> (is_superset i j \<longleftrightarrow> {k. ivl_contains j k} \<subseteq> {k. ivl_contains i k})
   \<and> (is_disjoint i j \<longleftrightarrow> {k. ivl_contains i k} \<inter> {k. ivl_contains j k} = {})
   \<and> (is_singleton i = Some v \<longleftrightarrow> {k. ivl_contains i k} = {v})
   \<and> {k. ivl_contains (singleton v) k} = {v}"
  unfolding ivl_points_def [symmetric]
  by (intro conjI ivl_is_empty_points is_superset_points is_disjoint_points is_singleton_points
      singleton_points)

text \<open>
  C32: splitting an interval after the last key read (\<^verbatim>\<open>split_after\<close>, in either order) loses no key and
  reads none twice: every key of the interval is in exactly one of the two parts, the last key and
  every key before it in the reading order are in the part already read, and the remaining part is
  inside the interval.
\<close>

theorem split_after_partition:
  assumes "ivl_contains self last_key" and "split_after self last_key ord = (done_part, remaining)"
  shows "(ivl_contains self k \<longrightarrow> ivl_contains done_part k \<noteq> ivl_contains remaining k)
     \<and> ivl_contains done_part last_key
     \<and> (ivl_contains self k \<and> (if ord = Asc then k \<le> last_key else last_key \<le> k)
          \<longrightarrow> ivl_contains done_part k)
     \<and> (ivl_contains remaining k \<longrightarrow> ivl_contains self k)"
proof -
  have parts: "done_part = fst (split_after self last_key ord)"
    "remaining = snd (split_after self last_key ord)"
    using assms(2) by simp_all
  show ?thesis
    unfolding parts split_after_read split_after_remaining
    using assms(1) greater_than_after_prefix [of _ last_key]
      greater_than_anti [of "ivl_end self" last_key k]
    by (cases ord) (auto simp: ivl_contains_iff)
qed

theorem split_after_partition_witness:
  "ivl_contains ivl_all [1, 2]
   \<and> ivl_contains (fst (split_after ivl_all [1, 2] Asc)) [1, 2, 7]
   \<and> \<not> ivl_contains (snd (split_after ivl_all [1, 2] Asc)) [1, 2, 7]"
proof -
  have h: "ivl_contains ivl_all [1, 2]" by (simp add: ivl_all_def ivl_contains_def)
  have c: "ivl_contains ivl_all [1, 2, 7]" by (simp add: ivl_all_def ivl_contains_def)
  have d: "ivl_contains (fst (split_after ivl_all [1, 2] Asc)) [1, 2, 7]"
    by (simp add: ivl_all_def ivl_contains_def after_prefix_def split_after.simps)
  from split_after_partition [OF h prod.collapse [symmetric, of "split_after ivl_all [1, 2] Asc"],
      of "[1, 2, 7]"] h c d
  show ?thesis by blast
qed

end
