(* ===== verification/Interval_Set.thy ===== *)
theory Interval_Set
  imports Interval_Keys
begin

text \<open>
  Sets of intervals (\<^verbatim>\<open>crates/common/src/interval/interval_set.rs\<close>). An \<^verbatim>\<open>IntervalSet\<close> keeps a map from
  interval starts to interval ends whose intervals are non-empty, pairwise disjoint and not
  adjacent, or the marker for the set of all keys. It is what a transaction records of the key
  ranges it has read, so a key that is lost or invented by \<^verbatim>\<open>add\<close> is a missed or a false conflict.
\<close>

subsection \<open>Operations\<close>

datatype IntervalSet = Intervals "(binary_key, End) btree_map" | AllKeys

definition iset_new :: IntervalSet where
  "iset_new = Intervals []"

fun iset_is_empty :: "IntervalSet \<Rightarrow> bool" where
  "iset_is_empty (Intervals intervals) = (intervals = [])"
| "iset_is_empty AllKeys = False"

fun iset_len :: "IntervalSet \<Rightarrow> nat" where
  "iset_len (Intervals intervals) = length intervals"
| "iset_len AllKeys = 1"

abbreviation entry_ivl :: "binary_key \<times> End \<Rightarrow> interval" where
  "entry_ivl a \<equiv> \<lparr>ivl_start = fst a, ivl_end = snd a\<rparr>"

text \<open>
  The preceding interval is yielded if it meets or touches the given one, the following ones up to
  the first that starts beyond its end.
\<close>

definition intersecting_or_adjacent :: "(binary_key, End) btree_map \<Rightarrow> interval \<Rightarrow> interval list" where
  "intersecting_or_adjacent intervals i =
     (case bt_last (filter (\<lambda>a. fst a < ivl_start i) intervals) of
        Some a \<Rightarrow>
          (let other = entry_ivl a
           in if \<not> is_disjoint i other \<or> is_adjacent i other then [other] else [])
      | None \<Rightarrow> [])
     @ map entry_ivl
        (takeWhile (\<lambda>a. \<not> (end_is_disjoint (ivl_end i) (fst a) \<and> \<not> end_is_adjacent (ivl_end i) (fst a)))
          (filter (\<lambda>a. ivl_start i \<le> fst a) intervals))"

text \<open>The loop of \<^verbatim>\<open>add\<close>: widen the merged bounds and remove each overlap from the map.\<close>

fun merge_overlaps ::
  "interval list \<Rightarrow> binary_key \<Rightarrow> End \<Rightarrow> (binary_key, End) btree_map
     \<Rightarrow> error + binary_key \<times> End \<times> (binary_key, End) btree_map" where
  "merge_overlaps [] merged_start merged_end intervals = Inr (merged_start, merged_end, intervals)"
| "merge_overlaps (other # others) merged_start merged_end intervals =
     (let merged_start' = (if ivl_start other < merged_start then ivl_start other else merged_start);
          merged_end' = (if ivl_end other > merged_end then ivl_end other else merged_end)
      in and_then (expect ''tried to remove existing interval'' (bt_get intervals (ivl_start other)))
           (\<lambda>_. merge_overlaps others merged_start' merged_end'
                  (bt_remove (ivl_start other) intervals)))"

definition iset_add :: "IntervalSet \<Rightarrow> interval \<Rightarrow> error + IntervalSet" where
  "iset_add self i =
     (if ivl_is_empty i then Inr self
      else
        let self' = (if i = ivl_all then AllKeys else self)
        in case self' of
             AllKeys \<Rightarrow> Inr AllKeys
           | Intervals intervals \<Rightarrow>
               and_then
                 (merge_overlaps (intersecting_or_adjacent intervals i) (ivl_start i) (ivl_end i) intervals)
                 (\<lambda>(merged_start, merged_end, rest).
                    Inr (Intervals (bt_insert merged_start merged_end rest))))"

fun interval_preceding :: "IntervalSet \<Rightarrow> bytes \<Rightarrow> interval option" where
  "interval_preceding AllKeys k = Some ivl_all"
| "interval_preceding (Intervals intervals) k =
     map_option entry_ivl (bt_last (filter (\<lambda>a. fst a \<le> k) intervals))"

definition iset_contains :: "IntervalSet \<Rightarrow> bytes \<Rightarrow> bool" where
  "iset_contains self k =
     (case interval_preceding self k of None \<Rightarrow> False | Some i \<Rightarrow> ivl_contains i k)"

fun iset_iter :: "IntervalSet \<Rightarrow> interval list" where
  "iset_iter AllKeys = [ivl_all]"
| "iset_iter (Intervals intervals) = map entry_ivl intervals"

text \<open>
  \<^verbatim>\<open>BTreeMap::range\<close> over an interval: it panics when the start lies beyond the end.
\<close>

fun iset_range :: "(binary_key, End) btree_map \<Rightarrow> binary_key \<Rightarrow> End \<Rightarrow> error + (binary_key \<times> End) list" where
  "iset_range intervals s Unbounded = Inr (filter (\<lambda>a. s \<le> fst a) intervals)"
| "iset_range intervals s (Excluded t) =
     (if t < s then Inl (Panic ''range start is greater than range end in BTreeMap'')
      else Inr (filter (\<lambda>a. s \<le> fst a \<and> fst a < t) intervals))"

text \<open>
  \<^verbatim>\<open>split_interval_components\<close>: the loop over the intervals that start inside the target, and the
  function itself. The yielded components are the elements of the result, in order.
\<close>

fun split_components_loop ::
  "(binary_key \<times> End) list \<Rightarrow> binary_key \<Rightarrow> End \<Rightarrow> error + (bool \<times> interval) list" where
  "split_components_loop [] component_start target_end =
     Inr [(False, \<lparr>ivl_start = component_start, ivl_end = target_end\<rparr>)]"
| "split_components_loop ((interval_start, interval_end) # rest) component_start target_end =
     (let gap = (False, \<lparr>ivl_start = component_start, ivl_end = Excluded interval_start\<rparr>)
      in if target_end \<le> interval_end
         then Inr [gap, (True, \<lparr>ivl_start = interval_start, ivl_end = target_end\<rparr>)]
         else case interval_end of
                Unbounded \<Rightarrow> Inl (Panic ''unreachable'')
              | Excluded e \<Rightarrow>
                  and_then (split_components_loop rest e target_end)
                    (\<lambda>cs. Inr (gap # (True, \<lparr>ivl_start = interval_start, ivl_end = interval_end\<rparr>) # cs)))"

fun split_interval_components :: "IntervalSet \<Rightarrow> interval \<Rightarrow> error + (bool \<times> interval) list" where
  "split_interval_components AllKeys target = Inr [(True, target)]"
| "split_interval_components (Intervals intervals) target =
     (if ivl_is_empty target then Inr []
      else
        let from = (\<lambda>component_start yielded.
              and_then (iset_range intervals component_start (ivl_end target))
                (\<lambda>intersecting.
                   and_then (split_components_loop intersecting component_start (ivl_end target))
                     (\<lambda>cs. Inr (yielded @ cs))))
        in case interval_preceding (Intervals intervals) (ivl_start target) of
             None \<Rightarrow> from (ivl_start target) []
           | Some before \<Rightarrow>
               if ivl_end target \<le> ivl_end before then Inr [(True, target)]
               else case ivl_end before of
                      Unbounded \<Rightarrow> Inl (Panic ''unreachable'')
                    | Excluded before_end \<Rightarrow>
                        if before_end > ivl_start target
                        then from before_end
                               [(True, \<lparr>ivl_start = ivl_start target, ivl_end = ivl_end before\<rparr>)]
                        else from (ivl_start target) [])"

definition contains_interval :: "IntervalSet \<Rightarrow> interval \<Rightarrow> error + bool" where
  "contains_interval self target =
     and_then (split_interval_components self target) (\<lambda>cs. Inr (list_all fst cs))"

definition subtract_from_interval :: "IntervalSet \<Rightarrow> interval \<Rightarrow> error + IntervalSet" where
  "subtract_from_interval self target =
     and_then (split_interval_components self target)
       (\<lambda>cs. Inr (Intervals
          (fold (\<lambda>(in_set, i) difference.
                   if \<not> in_set then bt_insert (ivl_start i) (ivl_end i) difference else difference)
             cs [])))"

subsection \<open>Serialisation\<close>

datatype EndProto = AfterAll | Exclusive bytes

record IntervalProto =
  start_inclusive :: bytes
  proto_end :: "EndProto option"

definition all_interval_proto :: "IntervalProto list" where
  "all_interval_proto = [\<lparr>start_inclusive = [], proto_end = Some AfterAll\<rparr>]"

fun iset_to_proto :: "IntervalSet \<Rightarrow> IntervalProto list" where
  "iset_to_proto AllKeys = all_interval_proto"
| "iset_to_proto (Intervals intervals) =
     map (\<lambda>(s, e). \<lparr>start_inclusive = s,
            proto_end = Some (case e of Unbounded \<Rightarrow> AfterAll | Excluded b \<Rightarrow> Exclusive b)\<rparr>) intervals"

fun add_protos :: "IntervalSet \<Rightarrow> IntervalProto list \<Rightarrow> error + IntervalSet" where
  "add_protos acc [] = Inr acc"
| "add_protos acc (p # ps) =
     (case proto_end p of
        None \<Rightarrow> Inl (Bail ''Interval missing end'')
      | Some e \<Rightarrow>
          and_then
            (iset_add acc \<lparr>ivl_start = start_inclusive p,
               ivl_end = (case e of AfterAll \<Rightarrow> Unbounded | Exclusive b \<Rightarrow> Excluded b)\<rparr>)
            (\<lambda>acc'. add_protos acc' ps))"

definition iset_try_from_proto :: "IntervalProto list \<Rightarrow> error + IntervalSet" where
  "iset_try_from_proto intervals =
     (if intervals = all_interval_proto then Inr AllKeys else add_protos iset_new intervals)"

subsection \<open>The invariant and the keys of a set\<close>

text \<open>
  The invariant stated in the source: every interval is non-empty, and each ends strictly before
  the next one starts (so they are disjoint, not adjacent, and sorted by start).
\<close>

abbreviation separated :: "binary_key \<times> End \<Rightarrow> binary_key \<times> End \<Rightarrow> bool" where
  "separated a b \<equiv> snd a < Excluded (fst b)"

definition wf_intervals :: "(binary_key, End) btree_map \<Rightarrow> bool" where
  "wf_intervals m \<longleftrightarrow> sorted_wrt separated m \<and> (\<forall>a \<in> set m. Excluded (fst a) < snd a)"

fun wf_iset :: "IntervalSet \<Rightarrow> bool" where
  "wf_iset (Intervals m) = wf_intervals m"
| "wf_iset AllKeys = True"

definition entry_points :: "binary_key \<times> End \<Rightarrow> bytes set" where
  "entry_points a = {k. fst a \<le> k \<and> Excluded k < snd a}"

fun iset_points :: "IntervalSet \<Rightarrow> bytes set" where
  "iset_points (Intervals m) = (\<Union>a \<in> set m. entry_points a)"
| "iset_points AllKeys = UNIV"

lemma greater_than_iff: "greater_than e k \<longleftrightarrow> Excluded k < e"
  by (cases e) auto

lemmas end_order = greater_than_iff end_is_disjoint_iff end_is_adjacent_iff

lemma ivl_points_entry: "ivl_points i = entry_points (ivl_start i, ivl_end i)"
  by (auto simp: entry_points_def greater_than_iff)

lemma ivl_is_empty_order: "ivl_is_empty i \<longleftrightarrow> \<not> Excluded (ivl_start i) < ivl_end i"
  by (simp add: ivl_is_empty_iff greater_than_iff)

lemma wf_intervals_Nil [simp]: "wf_intervals []"
  by (simp add: wf_intervals_def)

lemma wf_intervals_Cons:
  "wf_intervals (a # m) \<longleftrightarrow>
     Excluded (fst a) < snd a \<and> (\<forall>b \<in> set m. separated a b) \<and> wf_intervals m"
  by (auto simp: wf_intervals_def)

lemma wf_intervals_append:
  "wf_intervals (m @ m') \<longleftrightarrow>
     wf_intervals m \<and> wf_intervals m' \<and> (\<forall>a \<in> set m. \<forall>b \<in> set m'. separated a b)"
  by (auto simp: wf_intervals_def sorted_wrt_append)

lemma wf_intervals_filter: "wf_intervals m \<Longrightarrow> wf_intervals (filter P m)"
  by (auto simp: wf_intervals_def sorted_wrt_filter)

lemma wf_intervals_nonempty: "wf_intervals m \<Longrightarrow> a \<in> set m \<Longrightarrow> Excluded (fst a) < snd a"
  by (simp add: wf_intervals_def)

lemma Excluded_less_trans: "Excluded k < e \<Longrightarrow> e < Excluded s \<Longrightarrow> k < s"
  using less_trans [of "Excluded k" e "Excluded s"] by simp

lemma separated_start_less:
  "separated a b \<Longrightarrow> Excluded (fst a) < snd a \<Longrightarrow> fst a < fst b"
  by (rule Excluded_less_trans)

lemma wf_intervals_bt_wf: "wf_intervals m \<Longrightarrow> bt_wf m"
  by (induction m) (auto simp: wf_intervals_Cons bt_wf_Cons intro: separated_start_less)

lemma wf_intervals_total:
  assumes "wf_intervals m" "a \<in> set m" "b \<in> set m"
  shows "a = b \<or> separated a b \<or> separated b a"
  using assms by (induction m) (auto simp: wf_intervals_Cons)

lemma bt_wf_partition: "bt_wf m \<Longrightarrow> filter (\<lambda>a. fst a < k) m @ filter (\<lambda>a. k \<le> fst a) m = m"
proof (induction m)
  case (Cons a m)
  then have IH: "filter (\<lambda>a. fst a < k) m @ filter (\<lambda>a. k \<le> fst a) m = m"
    and gt: "\<forall>b \<in> set m. fst a < fst b"
    by (auto simp: bt_wf_Cons)
  show ?case
  proof (cases "fst a < k")
    case False
    with gt have "filter (\<lambda>a. fst a < k) m = []" "filter (\<lambda>a. k \<le> fst a) m = m"
      by (auto simp: filter_empty_conv filter_id_conv)
    with False show ?thesis by simp
  qed (use IH in simp)
qed simp

subsection \<open>Membership\<close>

lemma bt_last_filter_le:
  assumes "wf_intervals m" "a \<in> set m" "k \<in> entry_points a"
  shows "bt_last (filter (\<lambda>b. fst b \<le> k) m) = Some a"
proof -
  obtain xs ys where m: "m = xs @ a # ys" using assms(2) by (meson split_list)
  have "\<forall>b \<in> set ys. \<not> fst b \<le> k"
    using assms Excluded_less_trans [of k "snd a"]
    by (simp add: m wf_intervals_append wf_intervals_Cons entry_points_def not_le)
  then have "filter (\<lambda>b. fst b \<le> k) ys = []" by (simp add: filter_empty_conv)
  moreover have "fst a \<le> k" using assms(3) by (simp add: entry_points_def)
  ultimately show ?thesis by (simp add: m bt_last_def)
qed

lemma bt_last_in: "bt_last m = Some a \<Longrightarrow> a \<in> set m"
  by (auto simp: bt_last_def split: if_splits)

lemma iset_contains_points: "wf_iset s \<Longrightarrow> iset_contains s k \<longleftrightarrow> k \<in> iset_points s"
proof (cases s)
  case AllKeys
  then show ?thesis by (simp add: iset_contains_def ivl_contains_def ivl_all_def)
next
  case (Intervals m)
  assume "wf_iset s"
  then have wf: "wf_intervals m" by (simp add: Intervals)
  show ?thesis
  proof
    assume "iset_contains s k"
    then obtain a where "bt_last (filter (\<lambda>b. fst b \<le> k) m) = Some a" "ivl_contains (entry_ivl a) k"
      by (auto simp: iset_contains_def Intervals split: option.splits)
    then show "k \<in> iset_points s"
      by (auto simp: Intervals entry_points_def ivl_contains_iff greater_than_iff dest!: bt_last_in)
  next
    assume "k \<in> iset_points s"
    then obtain a where a: "a \<in> set m" "k \<in> entry_points a" by (auto simp: Intervals)
    then have "bt_last (filter (\<lambda>b. fst b \<le> k) m) = Some a" using wf by (simp add: bt_last_filter_le)
    with a show "iset_contains s k"
      by (simp add: iset_contains_def Intervals ivl_contains_iff entry_points_def greater_than_iff)
  qed
qed

subsection \<open>Insertion\<close>

text \<open>An entry touches an interval unless one of them ends strictly before the other starts.\<close>

definition touches :: "interval \<Rightarrow> binary_key \<times> End \<Rightarrow> bool" where
  "touches i a \<longleftrightarrow> \<not> snd a < Excluded (ivl_start i) \<and> \<not> ivl_end i < Excluded (fst a)"

lemma touches_preceding:
  assumes "\<not> ivl_is_empty i" "Excluded (fst a) < snd a" "fst a < ivl_start i"
  shows "(\<not> is_disjoint i (entry_ivl a) \<or> is_adjacent i (entry_ivl a)) \<longleftrightarrow> touches i a"
proof -
  have "Excluded (fst a) < ivl_end i"
    using assms less_trans [of "Excluded (fst a)" "Excluded (ivl_start i)" "ivl_end i"]
    by (simp add: ivl_is_empty_order)
  then show ?thesis
    using assms
    by (auto simp: is_disjoint_def is_adjacent_def touches_def ivl_is_empty_order end_order not_less)
qed

lemma touches_last:
  assumes "wf_intervals A" "\<forall>a \<in> set A. fst a < ivl_start i"
  shows "filter (touches i) A =
     (case bt_last A of Some a \<Rightarrow> if touches i a then [a] else [] | None \<Rightarrow> [])"
proof (cases A rule: rev_cases)
  case Nil
  then show ?thesis by (simp add: bt_last_def)
next
  case (snoc A' l)
  have "\<not> touches i a" if "a \<in> set A'" for a
  proof -
    have "snd a < Excluded (fst l)" "Excluded (fst l) < Excluded (ivl_start i)"
      using that assms by (auto simp: snoc wf_intervals_append)
    then show ?thesis by (metis less_trans touches_def)
  qed
  then have "filter (touches i) A' = []" by (simp add: filter_empty_conv)
  then show ?thesis by (simp add: snoc bt_last_def)
qed

lemma touches_following:
  assumes "wf_intervals B" "\<forall>a \<in> set B. ivl_start i \<le> fst a"
  shows "takeWhile (\<lambda>a. \<not> (end_is_disjoint (ivl_end i) (fst a) \<and> \<not> end_is_adjacent (ivl_end i) (fst a))) B
     = filter (touches i) B"
  using assms
proof (induction B)
  case Nil
  then show ?case by simp
next
  case (Cons b B)
  let ?P = "\<lambda>a. \<not> (end_is_disjoint (ivl_end i) (fst a) \<and> \<not> end_is_adjacent (ivl_end i) (fst a))"
  have "Excluded (ivl_start i) \<le> Excluded (fst b)" "Excluded (fst b) < snd b"
    using Cons.prems by (auto simp: wf_intervals_Cons)
  then have nb: "\<not> snd b < Excluded (ivl_start i)" by (metis leD le_less_trans less_imp_le)
  have P: "?P b \<longleftrightarrow> touches i b"
    using nb by (auto simp: touches_def end_order)
  show ?case
  proof (cases "touches i b")
    case True
    with P Cons show ?thesis by (simp add: wf_intervals_Cons)
  next
    case False
    with nb have lt: "ivl_end i < Excluded (fst b)" by (simp add: touches_def)
    have "\<not> touches i a" if "a \<in> set B" for a
    proof -
      have "fst b < fst a" using that Cons.prems by (auto simp: wf_intervals_Cons intro: separated_start_less)
      then have "Excluded (fst b) < Excluded (fst a)" by simp
      with lt have "ivl_end i < Excluded (fst a)" by (rule less_trans)
      then show ?thesis by (simp add: touches_def)
    qed
    then have "filter (touches i) B = []" by (simp add: filter_empty_conv)
    with False P show ?thesis by simp
  qed
qed

lemma intersecting_or_adjacent_eq:
  assumes "wf_intervals m" "\<not> ivl_is_empty i"
  shows "intersecting_or_adjacent m i = map entry_ivl (filter (touches i) m)"
proof -
  define A where "A = filter (\<lambda>a. fst a < ivl_start i) m"
  define B where "B = filter (\<lambda>a. ivl_start i \<le> fst a) m"
  have m: "m = A @ B" using assms(1) by (simp add: A_def B_def wf_intervals_bt_wf bt_wf_partition)
  have wf: "wf_intervals A" "wf_intervals B"
    using assms(1) by (auto simp: A_def B_def intro: wf_intervals_filter)
  have A: "filter (touches i) A =
      (case bt_last A of Some a \<Rightarrow> if touches i a then [a] else [] | None \<Rightarrow> [])"
    using wf(1) by (rule touches_last) (simp add: A_def)
  have B: "takeWhile (\<lambda>a. \<not> (end_is_disjoint (ivl_end i) (fst a) \<and> \<not> end_is_adjacent (ivl_end i) (fst a))) B
      = filter (touches i) B"
    using wf(2) by (rule touches_following) (simp add: B_def)
  have "(case bt_last A of
         Some a \<Rightarrow> (let other = entry_ivl a
           in if \<not> is_disjoint i other \<or> is_adjacent i other then [other] else [])
       | None \<Rightarrow> []) = map entry_ivl (filter (touches i) A)"
  proof (cases "bt_last A")
    case None
    with A show ?thesis by simp
  next
    case (Some a)
    then have "a \<in> set A" by (rule bt_last_in)
    then have "Excluded (fst a) < snd a" "fst a < ivl_start i"
      using wf(1) by (auto simp: A_def intro: wf_intervals_nonempty)
    with assms(2) have "(\<not> is_disjoint i (entry_ivl a) \<or> is_adjacent i (entry_ivl a)) \<longleftrightarrow> touches i a"
      by (rule touches_preceding)
    with A Some show ?thesis by (auto simp: Let_def)
  qed
  then have "intersecting_or_adjacent m i = map entry_ivl (filter (touches i) (A @ B))"
    unfolding intersecting_or_adjacent_def A_def [symmetric] B_def [symmetric] B by simp
  then show ?thesis by (simp add: m)
qed

lemma merge_overlaps_eq:
  assumes "distinct (map fst es)" "\<forall>a \<in> set es. fst a \<in> fst ` set m"
  shows "merge_overlaps (map entry_ivl es) s e m =
     Inr (Min (insert s (fst ` set es)), Max (insert e (snd ` set es)),
          filter (\<lambda>a. fst a \<notin> fst ` set es) m)"
  using assms
proof (induction es arbitrary: s e m)
  case Nil
  then show ?case by simp
next
  case (Cons a es)
  obtain v where v: "bt_get m (fst a) = Some v"
    using Cons.prems(2) bt_get_None_iff [of m "fst a"] by (cases "bt_get m (fst a)") auto
  let ?s = "if fst a < s then fst a else s" and ?e = "if e < snd a then snd a else e"
  have "merge_overlaps (map entry_ivl (a # es)) s e m =
      merge_overlaps (map entry_ivl es) ?s ?e (bt_remove (fst a) m)"
    by (simp add: v Let_def)
  also have "\<dots> = Inr (Min (insert ?s (fst ` set es)), Max (insert ?e (snd ` set es)),
      filter (\<lambda>a. fst a \<notin> fst ` set es) (bt_remove (fst a) m))"
    using Cons.prems by (intro Cons.IH) (force simp: keys_bt_remove image_iff)+
  also have "Min (insert ?s (fst ` set es)) = Min (insert s (fst ` set (a # es)))"
    by (cases "es = []") (auto simp: min_def)
  also have "Max (insert ?e (snd ` set es)) = Max (insert e (snd ` set (a # es)))"
    by (cases "es = []") (auto simp: max_def)
  also have "filter (\<lambda>a. fst a \<notin> fst ` set es) (bt_remove (fst a) m) =
      filter (\<lambda>b. fst b \<notin> fst ` set (a # es)) m"
    by (auto simp: bt_remove_def intro!: filter_cong)
  finally show ?case .
qed

text \<open>
  The entries that do not touch the new interval are separated from the merged one, and the merged
  one covers exactly the new interval and the entries that touch it.
\<close>

lemma untouched_separated:
  assumes wf: "wf_intervals m" and a: "a \<in> set m" "\<not> touches i a"
    and t: "t \<in> set m" "touches i t"
  shows "snd a < Excluded (ivl_start i) \<and> snd a < Excluded (fst t)
       \<or> ivl_end i < Excluded (fst a) \<and> snd t < Excluded (fst a)"
proof -
  have ne: "Excluded (fst a) < snd a" using wf a(1) by (rule wf_intervals_nonempty)
  have "separated a t \<or> separated t a" using wf_intervals_total [OF wf a(1) t(1)] a(2) t(2) by auto
  then show ?thesis
  proof
    assume sep: "separated a t"
    have "\<not> ivl_end i < Excluded (fst a)"
      using t(2) ne sep by (metis less_trans touches_def)
    with a(2) sep show ?thesis by (simp add: touches_def)
  next
    assume sep: "separated t a"
    have "\<not> snd a < Excluded (ivl_start i)"
      using t(2) ne sep by (metis less_trans touches_def)
    with a(2) sep show ?thesis by (simp add: touches_def)
  qed
qed

lemma merged_separated:
  assumes wf: "wf_intervals m" and a: "a \<in> set m" "\<not> touches i a"
    and T: "T = {t \<in> set m. touches i t}"
  shows "snd a < Excluded (Min (insert (ivl_start i) (fst ` T)))
       \<or> Max (insert (ivl_end i) (snd ` T)) < Excluded (fst a)"
proof (cases "snd a < Excluded (ivl_start i)")
  case True
  have "snd a < Excluded (fst t)" if "t \<in> T" for t
  proof -
    have "Excluded (fst a) < snd a" using wf a(1) by (rule wf_intervals_nonempty)
    then have "fst a < ivl_start i" using True by (rule Excluded_less_trans)
    have "\<not> snd t < Excluded (fst a)"
    proof
      assume "snd t < Excluded (fst a)"
      also have "Excluded (fst a) < Excluded (ivl_start i)" using \<open>fst a < ivl_start i\<close> by simp
      finally show False using that by (simp add: T touches_def)
    qed
    with untouched_separated [OF wf a, of t] that show ?thesis by (auto simp: T)
  qed
  moreover have "Min (insert (ivl_start i) (fst ` T)) \<in> insert (ivl_start i) (fst ` T)"
    by (rule Min_in) (simp_all add: T)
  ultimately show ?thesis using True by auto
next
  case False
  have "snd t < Excluded (fst a)" if "t \<in> T" for t
    using untouched_separated [OF wf a, of t] False that by (auto simp: T)
  moreover have "Max (insert (ivl_end i) (snd ` T)) \<in> insert (ivl_end i) (snd ` T)"
    by (rule Max_in) (simp_all add: T)
  moreover have "ivl_end i < Excluded (fst a)" using a(2) False by (simp add: touches_def)
  ultimately show ?thesis by auto
qed

lemma merged_points:
  assumes "finite T" "\<forall>t \<in> T. touches i t"
  shows "entry_points (Min (insert (ivl_start i) (fst ` T)), Max (insert (ivl_end i) (snd ` T)))
     = ivl_points i \<union> (\<Union>t \<in> T. entry_points t)" (is "entry_points (?S, ?E) = ?rhs")
proof (intro set_eqI iffI)
  fix k assume "k \<in> entry_points (?S, ?E)"
  then have k: "?S \<le> k" "Excluded k < ?E" by (auto simp: entry_points_def)
  have S: "?S \<in> insert (ivl_start i) (fst ` T)" by (rule Min_in) (simp_all add: assms(1))
  have E: "?E \<in> insert (ivl_end i) (snd ` T)" by (rule Max_in) (simp_all add: assms(1))
  consider (inside) "ivl_start i \<le> k" "Excluded k < ivl_end i" | (before) "k < ivl_start i"
    | (after) "ivl_start i \<le> k" "ivl_end i \<le> Excluded k" by fastforce
  then show "k \<in> ?rhs"
  proof cases
    case inside
    then show ?thesis by (simp add: greater_than_iff)
  next
    case before
    with k(1) have "?S \<noteq> ivl_start i" by auto
    with S obtain t where t: "t \<in> T" "fst t = ?S" by auto
    have "Excluded k < Excluded (ivl_start i)" "Excluded (ivl_start i) \<le> snd t"
      using before t(1) assms(2) by (auto simp: touches_def not_less)
    then have "Excluded k < snd t" by (rule less_le_trans)
    with t k(1) show ?thesis by (auto simp: entry_points_def)
  next
    case after
    with k(2) have "?E \<noteq> ivl_end i" by auto
    with E obtain t where t: "t \<in> T" "snd t = ?E" by auto
    have "Excluded (fst t) \<le> ivl_end i" using t(1) assms(2) by (simp add: touches_def not_less)
    with after(2) have "Excluded (fst t) \<le> Excluded k" by (rule order_trans [rotated])
    with t k(2) show ?thesis by (auto simp: entry_points_def)
  qed
next
  fix k assume "k \<in> ?rhs"
  then obtain s e where se: "s \<le> k" "Excluded k < e"
    "s \<in> insert (ivl_start i) (fst ` T)" "e \<in> insert (ivl_end i) (snd ` T)"
    by (auto simp: entry_points_def greater_than_iff)
  have "?S \<le> s" "e \<le> ?E" using se(3,4) assms(1) by (auto intro: Min_le Max_ge)
  with se(1,2) show "k \<in> entry_points (?S, ?E)" by (auto simp: entry_points_def)
qed

lemma wf_intervals_bt_insert:
  assumes R: "wf_intervals R" and SE: "Excluded S < E"
    and sep: "\<forall>a \<in> set R. snd a < Excluded S \<or> E < Excluded (fst a)"
  shows "wf_intervals (bt_insert S E R)" and "set (bt_insert S E R) = insert (S, E) (set R)"
proof -
  have less: "snd a < Excluded S" if "a \<in> set R" "fst a < S" for a
  proof -
    have "\<not> E < Excluded (fst a)"
      using that(2) SE Excluded_less_trans [of S E "fst a"] by auto
    with that(1) sep show ?thesis by blast
  qed
  have greater: "E < Excluded (fst a)" if "a \<in> set R" "\<not> fst a < S" for a
  proof -
    have "\<not> snd a < Excluded S"
      using that wf_intervals_nonempty [OF R that(1)] Excluded_less_trans [of "fst a" "snd a" S] by auto
    with that(1) sep show ?thesis by blast
  qed
  have "fst a \<noteq> S" if "a \<in> set R" for a
    using greater [OF that] SE Excluded_less_trans [of S E "fst a"] by auto
  then show "set (bt_insert S E R) = insert (S, E) (set R)" by (auto simp: set_bt_insert)
  have "snd a < Excluded (fst b)" if "a \<in> set R" "fst a < S" "b \<in> set R" "S < fst b" for a b
    using less_trans [OF less [OF that(1,2)], of "Excluded (fst b)"] that(4) by simp
  then show "wf_intervals (bt_insert S E R)"
    using R SE less greater
    by (auto simp: bt_insert_def wf_intervals_append wf_intervals_Cons wf_intervals_filter)
qed

lemma iset_add_correct:
  assumes "wf_iset s"
  shows "\<exists>s'. iset_add s i = Inr s' \<and> wf_iset s' \<and> iset_points s' = iset_points s \<union> ivl_points i"
proof (cases "ivl_is_empty i \<or> i = ivl_all \<or> s = AllKeys")
  case True
  then show ?thesis
    using assms by (cases s) (auto simp: iset_add_def ivl_is_empty_points)
next
  case False
  then obtain m where s: "s = Intervals m" by (cases s) auto
  have wf: "wf_intervals m" using assms by (simp add: s)
  define T where "T = {t \<in> set m. touches i t}"
  define R where "R = filter (\<lambda>a. \<not> touches i a) m"
  define S where "S = Min (insert (ivl_start i) (fst ` T))"
  define E where "E = Max (insert (ivl_end i) (snd ` T))"
  have T: "set (filter (touches i) m) = T" by (auto simp: T_def)
  have "filter (\<lambda>a. fst a \<notin> fst ` T) m = R"
    using bt_wf_inj [OF wf_intervals_bt_wf [OF wf]]
    by (force simp: R_def T_def image_iff intro!: filter_cong)
  moreover have "merge_overlaps (intersecting_or_adjacent m i) (ivl_start i) (ivl_end i) m
      = Inr (S, E, filter (\<lambda>a. fst a \<notin> fst ` T) m)"
    using False wf bt_wf_distinct [OF bt_wf_filter [OF wf_intervals_bt_wf [OF wf]]]
    by (simp add: intersecting_or_adjacent_eq merge_overlaps_eq T S_def E_def T_def)
  ultimately have add: "iset_add s i = Inr (Intervals (bt_insert S E R))"
    using False by (simp add: iset_add_def s)
  have "S \<le> ivl_start i" "ivl_end i \<le> E" by (simp_all add: S_def E_def T_def)
  then have "Excluded S \<le> Excluded (ivl_start i)" "Excluded (ivl_start i) < ivl_end i" "ivl_end i \<le> E"
    using False by (simp_all add: ivl_is_empty_order)
  then have SE: "Excluded S < E" by (metis le_less_trans less_le_trans)
  have R: "wf_intervals R" using wf by (simp add: R_def wf_intervals_filter)
  have "\<forall>a \<in> set R. snd a < Excluded S \<or> E < Excluded (fst a)"
    using merged_separated [OF wf _ _ T_def] by (simp add: R_def S_def E_def)
  note ins = wf_intervals_bt_insert [OF R SE this]
  have "iset_points (Intervals (bt_insert S E R)) = entry_points (S, E) \<union> (\<Union>a \<in> set R. entry_points a)"
    by (simp add: ins(2))
  also have "entry_points (S, E) = ivl_points i \<union> (\<Union>t \<in> T. entry_points t)"
    unfolding S_def E_def by (rule merged_points) (simp_all add: T_def)
  also have "\<dots> \<union> (\<Union>a \<in> set R. entry_points a) = iset_points s \<union> ivl_points i"
    by (auto simp: s R_def T_def)
  finally show ?thesis using add ins(1) by simp
qed

subsection \<open>The interface of a set of keys\<close>

text \<open>
  What the read sets rely on: the set starts empty, and adding an interval succeeds, keeps the
  invariant and adds exactly the keys of the interval.
\<close>

locale key_set =
  fixes invar :: "'s \<Rightarrow> bool"
    and new :: 's
    and member :: "'s \<Rightarrow> bytes \<Rightarrow> bool"
    and add :: "'s \<Rightarrow> interval \<Rightarrow> error + 's"
  assumes invar_new: "invar new"
    and member_new: "\<not> member new k"
    and add_ok: "invar s \<Longrightarrow> \<exists>s'. add s i = Inr s'"
    and invar_add: "invar s \<Longrightarrow> add s i = Inr s' \<Longrightarrow> invar s'"
    and member_add: "invar s \<Longrightarrow> add s i = Inr s' \<Longrightarrow> member s' k \<longleftrightarrow> member s k \<or> ivl_contains i k"
begin

fun add_all :: "'s \<Rightarrow> interval list \<Rightarrow> error + 's" where
  "add_all s [] = Inr s"
| "add_all s (i # is) = and_then (add s i) (\<lambda>s'. add_all s' is)"

lemma add_all_correct:
  assumes "invar s"
  shows "\<exists>s'. add_all s is = Inr s' \<and> invar s'
     \<and> (\<forall>k. member s' k \<longleftrightarrow> member s k \<or> (\<exists>i \<in> set is. ivl_contains i k))"
  using assms
proof (induction "is" arbitrary: s)
  case Nil
  then show ?case by simp
next
  case (Cons i "is")
  obtain s1 where s1: "add s i = Inr s1" using add_ok [OF Cons.prems] by blast
  from Cons.IH [OF invar_add [OF Cons.prems s1]] show ?case
    using member_add [OF Cons.prems s1] by (auto simp: s1)
qed

end

interpretation iset: key_set wf_iset iset_new iset_contains iset_add
proof
  show "wf_iset iset_new" "\<not> iset_contains iset_new k" for k
    by (simp_all add: iset_new_def iset_contains_points)
  fix s i assume wf: "wf_iset s"
  from iset_add_correct [OF wf] show "\<exists>s'. iset_add s i = Inr s'" by blast
  fix s' assume add: "iset_add s i = Inr s'"
  from iset_add_correct [OF wf, of i] add have s': "wf_iset s'" "iset_points s' = iset_points s \<union> ivl_points i"
    by auto
  from s'(1) show "wf_iset s'" .
  fix k
  from s' wf show "iset_contains s' k \<longleftrightarrow> iset_contains s k \<or> ivl_contains i k"
    by (simp add: iset_contains_points ivl_points_def)
qed

subsection \<open>Splitting and subtraction\<close>

text \<open>
  The components of a target: consecutive non-empty pieces, flagged alternately, that run from a
  start to an end.
\<close>

fun components :: "bool \<Rightarrow> binary_key \<Rightarrow> End \<Rightarrow> (bool \<times> interval) list \<Rightarrow> bool" where
  "components b s e [] = False"
| "components b s e [(f, i)] \<longleftrightarrow> f = b \<and> i = \<lparr>ivl_start = s, ivl_end = e\<rparr> \<and> Excluded s < e"
| "components b s e ((f, i) # c # cs) \<longleftrightarrow>
     f = b \<and> (\<exists>t. i = \<lparr>ivl_start = s, ivl_end = Excluded t\<rparr> \<and> s < t \<and> components (\<not> b) t e (c # cs))"

lemma components_Cons:
  "cs \<noteq> [] \<Longrightarrow> components b s e ((f, i) # cs) \<longleftrightarrow>
     f = b \<and> (\<exists>t. i = \<lparr>ivl_start = s, ivl_end = Excluded t\<rparr> \<and> s < t \<and> components (\<not> b) t e cs)"
  by (cases cs) auto

lemma components_nonempty: "components b s e cs \<Longrightarrow> cs \<noteq> []"
  by auto

lemma components_less: "components b s e cs \<Longrightarrow> Excluded s < e"
proof (induction b s e cs rule: components.induct)
  case (3 b s e f i c cs)
  then obtain t where "s < t" "Excluded t < e" by auto
  then show ?case using less_trans [of "Excluded s" "Excluded t" e] by simp
qed auto

text \<open>The keys of the flagged components are those a set has in the target.\<close>

definition flags_match :: "bytes set \<Rightarrow> (bool \<times> interval) list \<Rightarrow> bool" where
  "flags_match P cs \<longleftrightarrow> (\<forall>(f, i) \<in> set cs. \<forall>k \<in> ivl_points i. k \<in> P \<longleftrightarrow> f)"

lemma flags_match_simps [simp]:
  "flags_match P []"
  "flags_match P ((f, i) # cs) \<longleftrightarrow> (\<forall>k \<in> ivl_points i. k \<in> P \<longleftrightarrow> f) \<and> flags_match P cs"
  by (auto simp: flags_match_def)

lemma components_points:
  "components b s e cs \<Longrightarrow> (\<Union>c \<in> set cs. ivl_points (snd c)) = entry_points (s, e)"
proof (induction b s e cs rule: components.induct)
  case (3 b s e f i c cs)
  then obtain t where t: "i = \<lparr>ivl_start = s, ivl_end = Excluded t\<rparr>" "s < t"
    and IH: "(\<Union>c \<in> set (c # cs). ivl_points (snd c)) = entry_points (t, e)"
    and cs: "components (\<not> b) t e (c # cs)"
    by auto
  have "entry_points (s, e) = entry_points (s, Excluded t) \<union> entry_points (t, e)"
    using t(2) components_less [OF cs] less_trans [of _ "Excluded t" e]
    by (auto simp: entry_points_def)
  then show ?case using IH by (simp add: ivl_points_entry t(1))
qed (auto simp: ivl_points_entry)

lemma split_components_loop_correct:
  assumes "wf_intervals m" "\<forall>a \<in> set m. c < fst a \<and> Excluded (fst a) < te" "Excluded c < te"
    and "\<forall>k. c \<le> k \<and> Excluded k < te \<longrightarrow> (k \<in> P \<longleftrightarrow> (\<exists>a \<in> set m. k \<in> entry_points a))"
  shows "\<exists>cs. split_components_loop m c te = Inr cs \<and> components False c te cs \<and> flags_match P cs"
  using assms
proof (induction m arbitrary: c)
  case Nil
  then show ?case by (simp add: greater_than_iff)
next
  case (Cons a m)
  obtain s e where a: "a = (s, e)" by (cases a)
  have sm: "\<forall>b \<in> set m. e < Excluded (fst b)" "wf_intervals m" "Excluded s < e" "c < s" "Excluded s < te"
    using Cons.prems(1,2) by (auto simp: wf_intervals_Cons a)
  have later: "s < fst b" if "b \<in> set m" for b
    using sm(1,3) that Excluded_less_trans by blast
  have gap: "k \<notin> P" if "c \<le> k" "k < s" for k
  proof -
    have "Excluded k < te" using that(2) sm(5) less_trans [of "Excluded k" "Excluded s" te] by simp
    moreover have "\<not> (\<exists>b \<in> set (a # m). k \<in> entry_points b)"
      using that(2) later by (fastforce simp: entry_points_def a)
    ultimately show ?thesis using Cons.prems(4) that(1) by blast
  qed
  have inside: "k \<in> P" if "s \<le> k" "Excluded k < e" "Excluded k < te" for k
    using Cons.prems(4) that sm(4) by (auto simp: entry_points_def a)
  show ?case
  proof (cases "te \<le> e")
    case True
    then have "\<forall>k. s \<le> k \<and> Excluded k < te \<longrightarrow> k \<in> P" using inside by (auto intro: less_le_trans)
    with True gap sm show ?thesis by (auto simp: a Let_def greater_than_iff)
  next
    case False
    then obtain e' where e': "e = Excluded e'" by (cases e) auto
    have IH: "\<exists>cs. split_components_loop m e' te = Inr cs \<and> components False e' te cs \<and> flags_match P cs"
    proof (rule Cons.IH)
      show "\<forall>k. e' \<le> k \<and> Excluded k < te \<longrightarrow> (k \<in> P \<longleftrightarrow> (\<exists>a \<in> set m. k \<in> entry_points a))"
      proof (intro allI impI)
        fix k assume k: "e' \<le> k \<and> Excluded k < te"
        then have "c \<le> k" using sm(3,4) by (auto simp: e')
        with Cons.prems(4) k have "k \<in> P \<longleftrightarrow> (\<exists>b \<in> set (a # m). k \<in> entry_points b)" by blast
        moreover have "k \<notin> entry_points a" using k by (auto simp: entry_points_def a e')
        ultimately show "k \<in> P \<longleftrightarrow> (\<exists>b \<in> set m. k \<in> entry_points b)" by simp
      qed
    qed (use sm Cons.prems(2) False in \<open>auto simp: e'\<close>)
    then obtain cs where cs: "split_components_loop m e' te = Inr cs" "components False e' te cs"
      "flags_match P cs" by blast
    have "\<forall>k. s \<le> k \<and> k < e' \<longrightarrow> k \<in> P" using inside False e' less_trans [of _ e te]
      by (auto simp: not_le)
    with cs False gap sm(3,4) show ?thesis
      by (auto simp: a e' Let_def components_Cons components_nonempty)
  qed
qed

lemma iset_range_eq:
  "Excluded c \<le> te \<Longrightarrow>
     iset_range m c te = Inr (filter (\<lambda>a. c \<le> fst a \<and> Excluded (fst a) < te) m)"
  by (cases te) auto

lemma split_from_correct:
  assumes "wf_intervals m" "Excluded c < te"
    and closed: "\<forall>a \<in> set m. fst a \<le> c \<longrightarrow> snd a \<le> Excluded c"
  shows "\<exists>cs. and_then (iset_range m c te)
            (\<lambda>xs. and_then (split_components_loop xs c te) (\<lambda>cs. Inr (yielded @ cs))) = Inr (yielded @ cs)
     \<and> components False c te cs \<and> flags_match (iset_points (Intervals m)) cs"
proof -
  let ?xs = "filter (\<lambda>a. c \<le> fst a \<and> Excluded (fst a) < te) m"
  have beyond: "c < fst a" if "a \<in> set m" "c \<le> fst a" for a
    using that closed wf_intervals_nonempty [OF assms(1) that(1)] by (force simp: le_less)
  have "\<exists>cs. split_components_loop ?xs c te = Inr cs \<and> components False c te cs
      \<and> flags_match (iset_points (Intervals m)) cs"
  proof (rule split_components_loop_correct)
    show "\<forall>k. c \<le> k \<and> Excluded k < te \<longrightarrow>
        (k \<in> iset_points (Intervals m) \<longleftrightarrow> (\<exists>a \<in> set ?xs. k \<in> entry_points a))"
    proof (intro allI impI iffI)
      fix k assume k: "c \<le> k \<and> Excluded k < te" and "k \<in> iset_points (Intervals m)"
      then obtain a where a: "a \<in> set m" "fst a \<le> k" "Excluded k < snd a" by (auto simp: entry_points_def)
      have "\<not> snd a \<le> Excluded c"
      proof
        assume "snd a \<le> Excluded c"
        then have "Excluded k < Excluded c" using a(3) by (rule less_le_trans [rotated])
        with k show False by auto
      qed
      with a(1) closed have "c \<le> fst a" by force
      moreover have "Excluded (fst a) < te"
        using a(2) k le_less_trans [of "Excluded (fst a)" "Excluded k" te] by simp
      ultimately show "\<exists>a \<in> set ?xs. k \<in> entry_points a"
        using a by (intro bexI [of _ a]) (simp_all add: entry_points_def)
    qed auto
  qed (use assms(1,2) beyond in \<open>auto simp: wf_intervals_filter\<close>)
  then show ?thesis using assms(2) by (auto simp: iset_range_eq)
qed

lemma bt_last_greatest: "bt_wf m \<Longrightarrow> bt_last m = Some b \<Longrightarrow> a \<in> set m \<Longrightarrow> fst a \<le> fst b"
  by (cases m rule: rev_cases) (auto simp: bt_last_def bt_wf_append less_imp_le)

lemma split_interval_components_correct:
  assumes "wf_iset s" "\<not> ivl_is_empty target"
  shows "\<exists>b cs. split_interval_components s target = Inr cs
     \<and> components b (ivl_start target) (ivl_end target) cs \<and> flags_match (iset_points s) cs"
proof (cases s)
  case AllKeys
  then show ?thesis using assms(2)
    by (cases target) (auto simp: ivl_is_empty_order intro!: exI [of _ True])
next
  case (Intervals m)
  let ?t = "ivl_start target" and ?te = "ivl_end target"
  have wf: "wf_intervals m" and te: "Excluded ?t < ?te"
    using assms by (simp_all add: Intervals ivl_is_empty_order)
  note [simp] = Intervals assms(2) Let_def
  show ?thesis
  proof (cases "bt_last (filter (\<lambda>a. fst a \<le> ?t) m)")
    case None
    then have "\<forall>a \<in> set m. fst a \<le> ?t \<longrightarrow> snd a \<le> Excluded ?t"
      by (auto simp: bt_last_def filter_empty_conv split: if_splits)
    from split_from_correct [OF wf te this, of "[]"] None show ?thesis by auto
  next
    case (Some b)
    have b: "b \<in> set m" "fst b \<le> ?t" using bt_last_in [OF Some] by auto
    have max: "fst a \<le> fst b" if "a \<in> set m" "fst a \<le> ?t" for a
      using bt_last_greatest [OF bt_wf_filter [OF wf_intervals_bt_wf [OF wf]] Some, of a] that by simp
    have others: "snd a < Excluded (fst b)" if "a \<in> set m" "fst a \<le> fst b" "a \<noteq> b" for a
      using wf_intervals_total [OF wf that(1) b(1)] that(2,3)
        separated_start_less [OF _ wf_intervals_nonempty [OF wf b(1)], of a] by auto
    consider (covered) "?te \<le> snd b"
      | (partly) e where "snd b = Excluded e" "?t < e" "\<not> ?te \<le> snd b"
      | (outside) e where "snd b = Excluded e" "e \<le> ?t" "\<not> ?te \<le> snd b"
      by (cases "snd b") fastforce+
    then show ?thesis
    proof cases
      case covered
      then have "\<forall>k \<in> ivl_points target. k \<in> iset_points s"
        using b by (auto simp: entry_points_def greater_than_iff
            intro!: bexI [of _ b] intro: less_le_trans)
      with covered Some te show ?thesis
        by (intro exI [of _ True] exI [of _ "[(True, target)]"]) simp
    next
      case partly
      have "snd a \<le> Excluded e" if "a \<in> set m" "fst a \<le> e" for a
      proof (cases "a = b")
        case False
        have "\<not> separated b a" using that(2) by (simp add: partly(1))
        with False have "separated a b" using wf_intervals_total [OF wf that(1) b(1)] by blast
        moreover have "Excluded (fst b) \<le> Excluded e" using b(2) partly(2) by simp
        ultimately show ?thesis by (meson less_imp_le less_le_trans)
      qed (simp add: partly(1))
      then have closed: "\<forall>a \<in> set m. fst a \<le> e \<longrightarrow> snd a \<le> Excluded e" by blast
      have "Excluded e < ?te" using partly(1,3) by simp
      from split_from_correct [OF wf this closed, of "[(True, \<lparr>ivl_start = ?t, ivl_end = snd b\<rparr>)]"]
      obtain cs where cs: "split_interval_components s target
            = Inr ((True, \<lparr>ivl_start = ?t, ivl_end = snd b\<rparr>) # cs)"
        "components False e ?te cs" "flags_match (iset_points s) cs"
        using Some partly by auto
      have "\<forall>k. ?t \<le> k \<and> k < e \<longrightarrow> k \<in> iset_points s"
        using b by (auto simp: entry_points_def partly(1) intro!: bexI [of _ b])
      with cs partly(1,2) show ?thesis
        by (auto simp: components_Cons components_nonempty
            intro!: exI [of _ True] exI [of _ "(True, \<lparr>ivl_start = ?t, ivl_end = snd b\<rparr>) # cs"])
    next
      case outside
      have "snd a \<le> Excluded ?t" if "a \<in> set m" "fst a \<le> ?t" for a
      proof (cases "a = b")
        case False
        have "snd a < Excluded (fst b)" using that max False by (simp add: others)
        also have "Excluded (fst b) \<le> Excluded ?t" using b(2) by simp
        finally show ?thesis by simp
      qed (use outside in simp)
      then have closed: "\<forall>a \<in> set m. fst a \<le> ?t \<longrightarrow> snd a \<le> Excluded ?t" by blast
      from split_from_correct [OF wf te closed, of "[]"] Some outside show ?thesis by auto
    qed
  qed
qed

lemma flags_match_all: "flags_match P cs \<Longrightarrow> components b s e cs
    \<Longrightarrow> list_all fst cs \<longleftrightarrow> entry_points (s, e) \<subseteq> P"
proof -
  assume fm: "flags_match P cs" and cs: "components b s e cs"
  have ne: "\<exists>k. k \<in> ivl_points i" if "(f, i) \<in> set cs" for f i
    using cs that
  proof (induction b s e cs rule: components.induct)
    case (2 b s e f i)
    then show ?case by (auto simp: greater_than_iff)
  next
    case (3 b s e f i c cs)
    then show ?case by auto
  qed simp
  show "list_all fst cs \<longleftrightarrow> entry_points (s, e) \<subseteq> P"
    unfolding components_points [OF cs, symmetric]
    using fm ne by (fastforce simp: flags_match_def list_all_iff)
qed

abbreviation keep_outside :: "bool \<times> interval \<Rightarrow> (binary_key, End) btree_map \<Rightarrow> (binary_key, End) btree_map" where
  "keep_outside \<equiv> \<lambda>(in_set, i) difference.
     if \<not> in_set then bt_insert (ivl_start i) (ivl_end i) difference else difference"

lemma fold_keep_outside:
  assumes "components b s e cs" "wf_intervals acc"
    and "\<forall>a \<in> set acc. if b then snd a \<le> Excluded s else snd a < Excluded s"
  shows "wf_intervals (fold keep_outside cs acc)
     \<and> set (fold keep_outside cs acc) = set acc \<union> (\<lambda>i. (ivl_start i, ivl_end i)) ` {i. (False, i) \<in> set cs}"
  using assms
proof (induction b s e cs arbitrary: acc rule: components.induct)
  case (2 b s e f i)
  then show ?case
    using wf_intervals_bt_insert [of acc s e] by (cases b) auto
next
  case (3 b s e f i c cs)
  then obtain t where i: "f = b" "i = \<lparr>ivl_start = s, ivl_end = Excluded t\<rparr>" "s < t"
    and cs: "components (\<not> b) t e (c # cs)" by auto
  show ?case
  proof (cases b)
    case True
    have "\<forall>a \<in> set acc. snd a < Excluded t"
      using "3.prems"(3) True i(3) by (auto intro: le_less_trans)
    with "3.IH" [OF cs "3.prems"(2)] True i show ?thesis by auto
  next
    case False
    have sep: "\<forall>a \<in> set acc. snd a < Excluded s" using "3.prems"(3) False by simp
    note ins = wf_intervals_bt_insert [OF "3.prems"(2), of s "Excluded t"]
    have wf: "wf_intervals (bt_insert s (Excluded t) acc)"
      and st: "set (bt_insert s (Excluded t) acc) = insert (s, Excluded t) (set acc)"
      using ins sep i(3) by auto
    have "Excluded s < Excluded t" using i(3) by simp
    then have "\<forall>a \<in> set acc. snd a \<le> Excluded t"
      using sep less_trans less_imp_le by blast
    with "3.IH" [OF cs wf] False st
    have "wf_intervals (fold keep_outside (c # cs) (bt_insert s (Excluded t) acc))"
      "set (fold keep_outside (c # cs) (bt_insert s (Excluded t) acc))
         = insert (s, Excluded t) (set acc) \<union> (\<lambda>i. (ivl_start i, ivl_end i)) ` {i. (False, i) \<in> set (c # cs)}"
      by simp_all
    moreover have "{j. (False, j) \<in> set ((f, i) # c # cs)} = insert i {j. (False, j) \<in> set (c # cs)}"
      using False i(1) by auto
    ultimately show ?thesis using False i by simp
  qed
qed simp

lemma contains_interval_points:
  assumes "wf_iset s"
  shows "contains_interval s target = Inr (ivl_points target \<subseteq> iset_points s)"
proof (cases "ivl_is_empty target")
  case True
  then have "ivl_points target = {}" by (simp add: ivl_is_empty_points)
  with True show ?thesis by (cases s) (simp_all add: contains_interval_def)
next
  case False
  from split_interval_components_correct [OF assms False] obtain b cs where
    cs: "split_interval_components s target = Inr cs"
      "components b (ivl_start target) (ivl_end target) cs" "flags_match (iset_points s) cs"
    by blast
  then show ?thesis
    using flags_match_all [OF cs(3,2)] by (simp add: contains_interval_def ivl_points_entry)
qed

lemma subtract_from_interval_points:
  assumes "wf_iset s"
  shows "\<exists>d. subtract_from_interval s target = Inr d \<and> wf_iset d
     \<and> iset_points d = ivl_points target - iset_points s"
proof (cases "ivl_is_empty target")
  case True
  then have "ivl_points target = {}" by (simp add: ivl_is_empty_points)
  with True show ?thesis by (cases s) (simp_all add: subtract_from_interval_def)
next
  case False
  from split_interval_components_correct [OF assms False] obtain b cs where
    cs: "split_interval_components s target = Inr cs"
      "components b (ivl_start target) (ivl_end target) cs" "flags_match (iset_points s) cs"
    by blast
  from fold_keep_outside [OF cs(2), of "[]"]
  have d: "wf_intervals (fold keep_outside cs [])"
    "set (fold keep_outside cs []) = (\<lambda>i. (ivl_start i, ivl_end i)) ` {i. (False, i) \<in> set cs}"
    by auto
  have fm: "k \<in> iset_points s \<longleftrightarrow> f" if "(f, i) \<in> set cs" "k \<in> ivl_points i" for f i k
    using cs(3) that by (simp add: flags_match_def Ball_def del: ivl_points_iff)
  have "iset_points (Intervals (fold keep_outside cs [])) = (\<Union>i \<in> {i. (False, i) \<in> set cs}. ivl_points i)"
    unfolding iset_points.simps d(2) ivl_points_entry by simp
  also have "\<dots> = (\<Union>c \<in> set cs. ivl_points (snd c)) - iset_points s"
  proof (intro set_eqI iffI)
    fix k assume "k \<in> (\<Union>i \<in> {i. (False, i) \<in> set cs}. ivl_points i)"
    then obtain i where "(False, i) \<in> set cs" "k \<in> ivl_points i" by blast
    with fm show "k \<in> (\<Union>c \<in> set cs. ivl_points (snd c)) - iset_points s"
      by (simp del: ivl_points_iff) (metis snd_conv)
  next
    fix k assume k: "k \<in> (\<Union>c \<in> set cs. ivl_points (snd c)) - iset_points s"
    then obtain f i where i: "(f, i) \<in> set cs" "k \<in> ivl_points i" by (auto simp del: ivl_points_iff)
    with k fm [OF i] have "(False, i) \<in> set cs" by simp
    with i(2) show "k \<in> (\<Union>i \<in> {i. (False, i) \<in> set cs}. ivl_points i)" by blast
  qed
  also have "(\<Union>c \<in> set cs. ivl_points (snd c)) = ivl_points target"
    using components_points [OF cs(2)] by (simp add: ivl_points_entry)
  finally show ?thesis using cs(1) d(1) by (simp add: subtract_from_interval_def)
qed

lemma iset_add_last:
  assumes "wf_intervals (m @ [a])" "entry_ivl a \<noteq> ivl_all"
  shows "iset_add (Intervals m) (entry_ivl a) = Inr (Intervals (m @ [a]))"
proof -
  have wf: "wf_intervals m" "Excluded (fst a) < snd a" "\<forall>b \<in> set m. separated b a"
    using assms(1) by (auto simp: wf_intervals_append wf_intervals_Cons)
  have "\<forall>b \<in> set m. \<not> touches (entry_ivl a) b" using wf(3) by (simp add: touches_def)
  then have "filter (touches (entry_ivl a)) m = []" by (simp add: filter_empty_conv)
  then have "intersecting_or_adjacent m (entry_ivl a) = []"
    using wf by (simp add: intersecting_or_adjacent_eq ivl_is_empty_order)
  moreover have "fst b < fst a" if "b \<in> set m" for b
    using wf that by (auto intro: separated_start_less wf_intervals_nonempty)
  then have "filter (\<lambda>b. fst b < fst a) m = m" "filter (\<lambda>b. fst a < fst b) m = []"
    by (force simp: filter_id_conv filter_empty_conv)+
  then have "bt_insert (fst a) (snd a) m = m @ [a]" by (simp add: bt_insert_def)
  ultimately show ?thesis using assms(2) wf(2) by (simp add: iset_add_def ivl_is_empty_order)
qed

lemma wf_intervals_all_only:
  assumes "wf_intervals m" "a \<in> set m" "a = ([], Unbounded)"
  shows "m = [([], Unbounded)]"
proof -
  obtain xs ys where m: "m = xs @ a # ys" using assms(2) by (meson split_list)
  then have wf: "wf_intervals xs" "\<forall>b \<in> set xs. separated b a" "\<forall>b \<in> set ys. separated a b"
    using assms(1) by (simp_all add: wf_intervals_append wf_intervals_Cons)
  have "b \<notin> set xs" for b
    using wf(1,2) assms(3) Excluded_less_trans [OF wf_intervals_nonempty [OF wf(1)], of b "[]"] by auto
  moreover have "b \<notin> set ys" for b using wf(3) assms(3) by (cases b) auto
  ultimately have "xs = []" "ys = []" by (metis list.set_intros(1) neq_Nil_conv)+
  with m assms(3) show ?thesis by simp
qed

lemma add_protos_rebuilds:
  "wf_intervals (m @ m') \<Longrightarrow> \<forall>a \<in> set m'. entry_ivl a \<noteq> ivl_all
    \<Longrightarrow> add_protos (Intervals m) (iset_to_proto (Intervals m')) = Inr (Intervals (m @ m'))"
proof (induction m' arbitrary: m)
  case Nil
  then show ?case by simp
next
  case (Cons a m')
  have wf: "wf_intervals (m @ [a])" "wf_intervals ((m @ [a]) @ m')"
    using Cons.prems(1) by (auto simp: wf_intervals_append wf_intervals_Cons)
  have e: "(case (case snd a of Unbounded \<Rightarrow> AfterAll | Excluded b \<Rightarrow> Exclusive b) of
      AfterAll \<Rightarrow> Unbounded | Exclusive b \<Rightarrow> Excluded b) = snd a"
    by (cases "snd a") auto
  have "add_protos (Intervals (m @ [a])) (iset_to_proto (Intervals m')) = Inr (Intervals ((m @ [a]) @ m'))"
    using wf(2) Cons.prems(2) by (intro Cons.IH) auto
  with wf(1) Cons.prems(2) show ?case
    using iset_add_last [of m a] by (cases a) (use e in simp)
qed

subsection \<open>Properties\<close>

text \<open>
  C15: adding an interval to a well-formed set (\<^verbatim>\<open>IntervalSet::add\<close>) never panics, keeps the intervals
  non-empty, disjoint, not adjacent and sorted, and the new set contains exactly the keys of the old
  set and those of the interval.
\<close>

theorem iset_add_exact:
  assumes "wf_iset s"
  shows "\<exists>s'. iset_add s i = Inr s' \<and> wf_iset s'
     \<and> (\<forall>k. iset_contains s' k \<longleftrightarrow> iset_contains s k \<or> ivl_contains i k)"
proof -
  from iset.add_ok [OF assms] obtain s' where "iset_add s i = Inr s'" by blast
  with assms show ?thesis using iset.invar_add iset.member_add by blast
qed

theorem iset_add_exact_witness:
  "wf_iset (Intervals [([1], Excluded [3]), ([5], Excluded [9])])
   \<and> iset_add (Intervals [([1], Excluded [3]), ([5], Excluded [9])]) \<lparr>ivl_start = [3], ivl_end = Excluded [5]\<rparr>
       = Inr (Intervals [([1], Excluded [9])])
   \<and> iset_contains (Intervals [([1], Excluded [9])]) [4]"
proof -
  have w: "wf_iset (Intervals [([1], Excluded [3]), ([5], Excluded [9])])"
    by (simp add: wf_intervals_Cons)
  have r: "iset_add (Intervals [([1], Excluded [3]), ([5], Excluded [9])]) \<lparr>ivl_start = [3], ivl_end = Excluded [5]\<rparr>
       = Inr (Intervals [([1], Excluded [9])])"
    by code_simp
  have c: "ivl_contains \<lparr>ivl_start = [3], ivl_end = Excluded [5]\<rparr> [4]" by code_simp
  from iset_add_exact [OF w, of "\<lparr>ivl_start = [3], ivl_end = Excluded [5]\<rparr>"] r c w
  show ?thesis by auto
qed

text \<open>
  C14: splitting a non-empty target interval into the components inside and outside a set
  (\<^verbatim>\<open>split_interval_components\<close>) never panics; the components cut the target into non-empty
  consecutive intervals, alternately inside and outside, and the flag of each says whether its keys
  are in the set.
\<close>

theorem split_interval_components_exact:
  assumes "wf_iset s" and "\<not> ivl_is_empty target"
  shows "\<exists>b cs. split_interval_components s target = Inr cs
     \<and> components b (ivl_start target) (ivl_end target) cs
     \<and> (\<forall>(in_set, i) \<in> set cs. \<forall>k. ivl_contains i k \<longrightarrow> iset_contains s k = in_set)"
proof -
  have "(\<forall>(f, i) \<in> set cs. \<forall>k. ivl_contains i k \<longrightarrow> iset_contains s k = f)"
    if "flags_match (iset_points s) cs" for cs
    using that iset_contains_points [OF assms(1)]
    unfolding flags_match_def ivl_points_def by (simp add: case_prod_beta)
  with split_interval_components_correct [OF assms] show ?thesis by blast
qed

theorem split_interval_components_exact_witness:
  "split_interval_components (Intervals [([1], Excluded [3]), ([5], Unbounded)]) \<lparr>ivl_start = [2], ivl_end = Excluded [6]\<rparr>
     = Inr [(True, \<lparr>ivl_start = [2], ivl_end = Excluded [3]\<rparr>), (False, \<lparr>ivl_start = [3], ivl_end = Excluded [5]\<rparr>),
            (True, \<lparr>ivl_start = [5], ivl_end = Excluded [6]\<rparr>)]
   \<and> \<not> iset_contains (Intervals [([1], Excluded [3]), ([5], Unbounded)]) [4]"
proof -
  have w: "wf_iset (Intervals [([1], Excluded [3]), ([5], Unbounded)])"
    by (simp add: wf_intervals_Cons)
  have n: "\<not> ivl_is_empty \<lparr>ivl_start = [2], ivl_end = Excluded [6]\<rparr>" by code_simp
  have r: "split_interval_components (Intervals [([1], Excluded [3]), ([5], Unbounded)]) \<lparr>ivl_start = [2], ivl_end = Excluded [6]\<rparr>
     = Inr [(True, \<lparr>ivl_start = [2], ivl_end = Excluded [3]\<rparr>), (False, \<lparr>ivl_start = [3], ivl_end = Excluded [5]\<rparr>),
            (True, \<lparr>ivl_start = [5], ivl_end = Excluded [6]\<rparr>)]"
    by code_simp
  have c: "ivl_contains \<lparr>ivl_start = [3], ivl_end = Excluded [5]\<rparr> [4]" by code_simp
  from split_interval_components_exact [OF w n] r c show ?thesis by auto
qed

text \<open>
  C16: \<^verbatim>\<open>contains_interval\<close> decides whether every key of an interval is in the set, and
  \<^verbatim>\<open>subtract_from_interval\<close> returns a well-formed set of exactly the keys of the interval that are
  not in it; neither panics.
\<close>

theorem contains_and_subtract_exact:
  assumes "wf_iset s"
  shows "contains_interval s target = Inr (\<forall>k. ivl_contains target k \<longrightarrow> iset_contains s k)
     \<and> (\<exists>d. subtract_from_interval s target = Inr d \<and> wf_iset d
          \<and> (\<forall>k. iset_contains d k \<longleftrightarrow> ivl_contains target k \<and> \<not> iset_contains s k))"
proof -
  obtain d where d: "subtract_from_interval s target = Inr d" "wf_iset d"
    "iset_points d = ivl_points target - iset_points s"
    using subtract_from_interval_points [OF assms] by blast
  have "iset_contains d k \<longleftrightarrow> ivl_contains target k \<and> \<not> iset_contains s k" for k
    using d(2,3) assms by (simp add: iset_contains_points ivl_points_def)
  moreover have "contains_interval s target = Inr (\<forall>k. ivl_contains target k \<longrightarrow> iset_contains s k)"
    unfolding contains_interval_points [OF assms]
    by (simp add: iset_contains_points [OF assms] ivl_points_def subset_iff)
  ultimately show ?thesis using d(1,2) by blast
qed

theorem contains_and_subtract_exact_witness:
  "contains_interval (Intervals [([2], Excluded [4])]) \<lparr>ivl_start = [1], ivl_end = Excluded [5]\<rparr> = Inr False
   \<and> (\<exists>k. ivl_contains \<lparr>ivl_start = [1], ivl_end = Excluded [5]\<rparr> k \<and> \<not> iset_contains (Intervals [([2], Excluded [4])]) k)"
proof -
  have w: "wf_iset (Intervals [([2], Excluded [4])])" by (simp add: wf_intervals_Cons)
  have r: "contains_interval (Intervals [([2], Excluded [4])]) \<lparr>ivl_start = [1], ivl_end = Excluded [5]\<rparr> = Inr False"
    by code_simp
  from contains_and_subtract_exact [OF w, of "\<lparr>ivl_start = [1], ivl_end = Excluded [5]\<rparr>"] r
  show ?thesis by simp
qed

text \<open>
  C35: writing a well-formed set of intervals to its protobuf form and reading it back gives the same
  set; the set whose only interval is the whole key space comes back as the marker for all keys,
  and so does the marker itself.
\<close>

theorem iset_proto_roundtrip:
  assumes "wf_iset s"
  shows "iset_try_from_proto (iset_to_proto s)
    = Inr (if s = Intervals [([], Unbounded)] then AllKeys else s)"
proof (cases s)
  case AllKeys
  then show ?thesis by (simp add: iset_try_from_proto_def)
next
  case (Intervals m)
  then have wf: "wf_intervals m" using assms by simp
  show ?thesis
  proof (cases "m = [([], Unbounded)]")
    case True
    then show ?thesis
      using Intervals by (simp add: iset_try_from_proto_def all_interval_proto_def)
  next
    case False
    have "iset_to_proto s \<noteq> all_interval_proto"
      using False Intervals
      by (auto simp: all_interval_proto_def map_eq_Cons_conv split: End.splits)
    moreover have "entry_ivl a \<noteq> ivl_all" if "a \<in> set m" for a
      using wf_intervals_all_only [OF wf that] False by (cases a) (auto simp: ivl_all_def)
    ultimately show ?thesis
      using add_protos_rebuilds [of "[]" m] wf False Intervals
      by (simp add: iset_try_from_proto_def iset_new_def)
  qed
qed

theorem iset_proto_roundtrip_witness:
  "wf_iset (Intervals [([1], Excluded [3]), ([5], Unbounded)])
   \<and> iset_try_from_proto (iset_to_proto (Intervals [([1], Excluded [3]), ([5], Unbounded)]))
       = Inr (Intervals [([1], Excluded [3]), ([5], Unbounded)])"
proof -
  have w: "wf_iset (Intervals [([1], Excluded [3]), ([5], Unbounded)])"
    by (simp add: wf_intervals_Cons)
  from iset_proto_roundtrip [OF w] w show ?thesis by simp
qed

end
