(* ===== verification/Base32.thy ===== *)
theory Base32
  imports Convex_Prelude
begin

text \<open>
  Crockford's base 32 (\<^verbatim>\<open>crates/value/src/base32.rs\<close>), the outer encoding of document ids. A block of
  five bytes becomes eight five-bit indexes into the alphabet; the last block is padded with zeros
  and the surplus characters are cut off.
\<close>

unbundle bit_operations_syntax

subsection \<open>Encoding\<close>

definition ALPHABET :: bytes where
  "ALPHABET = ascii ''0123456789abcdefghjkmnpqrstvwxyz''"

definition DECODE_TABLE :: bytes where
  "DECODE_TABLE = fold (\<lambda>i table. table[unat (ALPHABET ! i) := of_nat i]) [0..<32] (replicate 256 0xFF)"

definition b32_encoded_len :: "nat \<Rightarrow> nat" where
  "b32_encoded_len len =
     (let last_chunk = (if len mod 5 = 0 then 0 else if len mod 5 = 1 then 2 else if len mod 5 = 2 then 4
                        else if len mod 5 = 3 then 5 else 7)
      in len div 5 * 8 + last_chunk)"

definition b32_encoded_buffer_len :: "nat \<Rightarrow> nat" where
  "b32_encoded_buffer_len len = (len + 4) div 5 * 8"

text \<open>The eight five-bit groups of a block of five bytes, and a block of the alphabet's characters.\<close>

definition block_indexes :: "bytes \<Rightarrow> bytes" where
  "block_indexes block =
     [drop_bit 3 (block ! 0 AND 0b11111000),
      push_bit 2 (block ! 0 AND 0b00000111) OR drop_bit 6 (block ! 1 AND 0b11000000),
      drop_bit 1 (block ! 1 AND 0b00111110),
      push_bit 4 (block ! 1 AND 0b00000001) OR drop_bit 4 (block ! 2 AND 0b11110000),
      push_bit 1 (block ! 2 AND 0b00001111) OR drop_bit 7 (block ! 3),
      drop_bit 2 (block ! 3 AND 0b01111100),
      push_bit 3 (block ! 3 AND 0b00000011) OR drop_bit 5 (block ! 4 AND 0b11100000),
      block ! 4 AND 0b00011111]"

definition encode_block :: "bytes \<Rightarrow> bytes" where
  "encode_block chunk =
     map (\<lambda>index. ALPHABET ! unat index) (block_indexes (chunk @ replicate (5 - length chunk) 0))"

text \<open>
  The loop pairs the chunks of the data with chunks of eight bytes of the output buffer; writing the
  eighth byte of a shorter chunk panics.
\<close>

function b32_encode_into :: "bytes \<Rightarrow> bytes \<Rightarrow> error + bytes" where
  "b32_encode_into out data =
     (if data = [] \<or> out = [] then Inr out
      else if length out < 8 then Inl (Panic ''index out of bounds'')
      else and_then (b32_encode_into (drop 8 out) (drop 5 data))
             (\<lambda>rest. Inr (encode_block (take 5 data) @ rest)))"
  by auto
termination
  by (relation "measure (\<lambda>(out, data). length data)") auto

declare b32_encode_into.simps [simp del]

definition b32_encode :: "bytes \<Rightarrow> error + bytes" where
  "b32_encode data =
     and_then (b32_encode_into (replicate (b32_encoded_buffer_len (length data)) 0) data)
       (\<lambda>out. Inr (take (b32_encoded_len (length data)) out))"

subsection \<open>Decoding\<close>

text \<open>
  A character of the input is kept as its UTF-8 bytes. The decoder only slices the input in front of
  the first invalid byte; all bytes before it are characters of the alphabet, so that this is never
  inside of a character (lemma \<open>decode_error_boundary\<close> of \<^verbatim>\<open>Document_Id\<close>).
\<close>

record InvalidBase32Error =
  character :: bytes
  position :: nat
  error_string :: bytes

definition first_char :: "bytes \<Rightarrow> bytes" where
  "first_char s = (case s of [] \<Rightarrow> []
     | c # _ \<Rightarrow> take (if c < 0x80 then 1 else if c < 0xE0 then 2 else if c < 0xF0 then 3 else 4) s)"

fun decode_chunk :: "nat \<Rightarrow> bytes \<Rightarrow> nat + bytes" where
  "decode_chunk pos [] = Inr []"
| "decode_chunk pos (c # chunk) =
     (let index = DECODE_TABLE ! unat c
      in if index = 0xFF then Inl pos
         else and_then (decode_chunk (Suc pos) chunk) (\<lambda>indexes. Inr (index # indexes)))"

definition regroup :: "bytes \<Rightarrow> bytes" where
  "regroup indexes =
     [push_bit 3 (indexes ! 0) OR drop_bit 2 (indexes ! 1),
      push_bit 6 (indexes ! 1) OR push_bit 1 (indexes ! 2) OR drop_bit 4 (indexes ! 3),
      push_bit 4 (indexes ! 3) OR drop_bit 1 (indexes ! 4),
      push_bit 7 (indexes ! 4) OR push_bit 2 (indexes ! 5) OR drop_bit 3 (indexes ! 6),
      push_bit 5 (indexes ! 6) OR indexes ! 7]"

function decode_chunks :: "nat \<Rightarrow> bytes \<Rightarrow> nat + bytes" where
  "decode_chunks pos data =
     (if data = [] then Inr []
      else and_then (decode_chunk pos (take 8 data))
        (\<lambda>indexes. and_then (decode_chunks (pos + 8) (drop 8 data))
          (\<lambda>out. Inr (regroup (indexes @ replicate (8 - length indexes) 0) @ out))))"
  by auto
termination
  by (relation "measure (\<lambda>(pos, data). length data)") auto

declare decode_chunks.simps [simp del]

definition b32_decode :: "bytes \<Rightarrow> InvalidBase32Error + bytes" where
  "b32_decode data = (case decode_chunks 0 data of
       Inl pos \<Rightarrow> Inl \<lparr>character = first_char (drop pos data), position = pos, error_string = data\<rparr>
     | Inr out \<Rightarrow> Inr (take (length data * 5 div 8) out))"

subsection \<open>Lemmas\<close>

lemma length_ALPHABET [simp]: "length ALPHABET = 32"
  by (simp add: ALPHABET_def ascii_def)

lemma alphabet_decoded: "i < 32 \<Longrightarrow> DECODE_TABLE ! unat (ALPHABET ! i) = of_nat i"
proof -
  have "list_all (\<lambda>i. DECODE_TABLE ! unat (ALPHABET ! i) = of_nat i) [0..<32]" by code_simp
  then show "i < 32 \<Longrightarrow> DECODE_TABLE ! unat (ALPHABET ! i) = of_nat i" by (simp add: list_all_iff)
qed

lemma byte_bit_cases: "n < 8 \<Longrightarrow> n = 0 \<or> n = 1 \<or> n = 2 \<or> n = 3 \<or> n = 4 \<or> n = 5 \<or> n = 6 \<or> (n :: nat) = 7"
  by linarith

lemma byte_eqI:
  fixes a b :: byte
  assumes "bit a 0 = bit b 0" "bit a 1 = bit b 1" "bit a 2 = bit b 2" "bit a 3 = bit b 3"
    "bit a 4 = bit b 4" "bit a 5 = bit b 5" "bit a 6 = bit b 6" "bit a 7 = bit b 7"
  shows "a = b"
proof (rule bit_word_eqI)
  fix n assume "n < LENGTH(8)"
  then have "n < 8" by simp
  from byte_bit_cases [OF this] assms show "bit a n = bit b n" by auto
qed

lemma byte_less_32: "\<not> bit b 5 \<Longrightarrow> \<not> bit b 6 \<Longrightarrow> \<not> bit b 7 \<Longrightarrow> (b :: byte) < 32"
proof -
  assume b: "\<not> bit b 5" "\<not> bit b 6" "\<not> bit b 7"
  have "b = take_bit 5 b" by (rule byte_eqI) (use b in \<open>simp_all add: bit_take_bit_iff\<close>)
  moreover have "take_bit 5 b < 32"
    by (simp add: word_less_nat_alt unsigned_take_bit_eq take_bit_nat_def)
  ultimately show ?thesis by simp
qed

lemma length_5_cases:
  assumes "length block = 5"
  obtains a b c d e where "block = [a, b, c, d, e]"
  using assms by (auto simp: length_Suc_conv numeral_eq_Suc)

lemma bit_times_two: "bit (x * 2 :: byte) n \<longleftrightarrow> 0 < n \<and> n < 8 \<and> bit x (n - 1)"
  using bit_double_iff [of x n] by (auto simp: mult.commute)

lemma bit_Suc_numerals:
  "bit (x :: byte) (Suc (Suc 0)) = bit x 2" "bit (x :: byte) (Suc (Suc (Suc 0))) = bit x 3"
  by (simp_all add: numeral_2_eq_2 numeral_3_eq_3)

lemma byte_no_bit: "\<not> bit (d :: byte) 12" "\<not> bit (d :: byte) 13" "\<not> bit (d :: byte) 14"
  by (auto dest!: bit_imp_le_length)

lemma block_index_bound: "length block = 5 \<Longrightarrow> b \<in> set (block_indexes block) \<Longrightarrow> b < 32"
  by (erule length_5_cases)
    (auto simp: block_indexes_def bit_simps byte_no_bit intro!: byte_less_32)

lemma regroup_indexes: "length block = 5 \<Longrightarrow> regroup (block_indexes block) = block"
  by (erule length_5_cases)
    (auto simp: block_indexes_def regroup_def bit_simps bit_times_two bit_Suc_numerals
      intro!: byte_eqI)

lemma length_block_indexes [simp]: "length (block_indexes b) = 8"
  by (simp add: block_indexes_def)

lemma length_encode_block [simp]: "length (encode_block chunk) = 8"
  by (simp add: encode_block_def)

lemma length_regroup [simp]: "length (regroup indexes) = 5"
  by (simp add: regroup_def)

lemma decode_chunk_alphabet:
  "\<forall>b \<in> set bs. b < 32 \<Longrightarrow> decode_chunk pos (map (\<lambda>i. ALPHABET ! unat i) bs) = Inr bs"
proof (induction bs arbitrary: pos)
  case (Cons b bs)
  have "unat b < 32" using Cons.prems by (simp add: word_less_nat_alt)
  from alphabet_decoded [OF this] have "DECODE_TABLE ! unat (ALPHABET ! unat b) = b" by simp
  moreover have "b \<noteq> 255" using Cons.prems by auto
  ultimately show ?case using Cons by simp
qed simp

lemma b32_buffer_step: "data \<noteq> [] \<Longrightarrow> b32_encoded_buffer_len (length data) = 8 + b32_encoded_buffer_len (length data - 5)"
proof -
  assume "data \<noteq> []"
  then have "0 < length data" by simp
  then have "(length data + 4) div 5 = (length data - 1 + 5) div 5" by (cases data) simp_all
  also have "\<dots> = Suc ((length data - 1) div 5)" by simp
  also have "(length data - 1) div 5 = (length data - 5 + 4) div 5" by (cases "length data < 5") simp_all
  finally have "(length data + 4) div 5 = Suc ((length data - 5 + 4) div 5)" .
  then show ?thesis by (simp add: b32_encoded_buffer_len_def)
qed

text \<open>The encoding of the whole data, padded to full blocks.\<close>

function padded_encoding :: "bytes \<Rightarrow> bytes" where
  "padded_encoding data = (if data = [] then [] else encode_block (take 5 data) @ padded_encoding (drop 5 data))"
  by auto
termination
  by (relation "measure length") auto

declare padded_encoding.simps [simp del]

lemma b32_encode_into_buffer:
  "b32_encoded_buffer_len (length data) \<le> length out
    \<Longrightarrow> b32_encode_into out data
       = Inr (padded_encoding data @ drop (b32_encoded_buffer_len (length data)) out)"
proof (induction out data rule: b32_encode_into.induct)
  case (1 out data)
  show ?case
  proof (cases "data = []")
    case True
    then show ?thesis by (simp add: b32_encode_into.simps padded_encoding.simps b32_encoded_buffer_len_def)
  next
    case False
    note step = b32_buffer_step [OF False]
    then have "8 \<le> length out" "out \<noteq> []" using "1.prems" by auto
    with 1 False step show ?thesis
      by (simp add: b32_encode_into.simps [of out] padded_encoding.simps [of data] add.commute)
  qed
qed

lemma length_padded_encoding: "length (padded_encoding data) = b32_encoded_buffer_len (length data)"
proof (induction data rule: padded_encoding.induct)
  case (1 data)
  then show ?case
    using b32_buffer_step [of data]
    by (cases "data = []") (auto simp: padded_encoding.simps [of data] padded_encoding.simps [of "[]"]
        b32_encoded_buffer_len_def)
qed

lemma b32_encode_eq: "b32_encode data = Inr (take (b32_encoded_len (length data)) (padded_encoding data))"
  by (simp add: b32_encode_def b32_encode_into_buffer length_padded_encoding [symmetric])

lemma b32_encoded_len_step: "5 \<le> n \<Longrightarrow> b32_encoded_len n = 8 + b32_encoded_len (n - 5)"
  by (simp add: b32_encoded_len_def Let_def le_mod_geq [symmetric] le_div_geq)

lemma mod5_cases: "n mod 5 = 0 \<or> n mod 5 = 1 \<or> n mod 5 = 2 \<or> n mod 5 = 3 \<or> n mod 5 = (4 :: nat)"
  by linarith

lemma b32_encoded_len_decodes: "b32_encoded_len n * 5 div 8 = n"
proof -
  define q r where "q = n div 5" and "r = n mod 5"
  have "n = 5 * q + r" by (simp add: q_def r_def)
  then have n: "n * 8 = 40 * q + 8 * r" by linarith
  have l: "b32_encoded_len n * 5
      = 40 * q + 5 * (if r = 0 then 0 else if r = 1 then 2 else if r = 2 then 4 else if r = 3 then 5 else 7)"
    by (simp add: b32_encoded_len_def Let_def q_def r_def)
  have "r = 0 \<or> r = 1 \<or> r = 2 \<or> r = 3 \<or> r = 4" unfolding r_def by (rule mod5_cases)
  then have "\<exists>c < 8. b32_encoded_len n * 5 = n * 8 + c" unfolding l n by (elim disjE) simp_all
  then show ?thesis by auto
qed

lemma replicate_numerals:
  "replicate 2 x = [x, x]" "replicate 3 x = [x, x, x]" "replicate 4 x = [x, x, x, x]"
  "replicate 6 x = [x, x, x, x, x, x]"
  by (simp_all add: numeral_eq_Suc)

lemma last_block_indexes:
  assumes "chunk \<noteq> []" "length chunk < 5"
  shows "take (b32_encoded_len (length chunk)) (block_indexes (chunk @ replicate (5 - length chunk) 0))
      @ replicate (8 - b32_encoded_len (length chunk)) 0 = block_indexes (chunk @ replicate (5 - length chunk) 0)"
proof -
  have "length chunk = 1 \<or> length chunk = 2 \<or> length chunk = 3 \<or> length chunk = 4"
    using assms by (cases "length chunk") auto
  then consider a where "chunk = [a]" | a b where "chunk = [a, b]" | a b c where "chunk = [a, b, c]"
    | a b c d where "chunk = [a, b, c, d]"
    by (elim disjE) (auto simp: length_Suc_conv numeral_eq_Suc)
  then show ?thesis
    by cases (simp_all add: block_indexes_def b32_encoded_len_def Let_def replicate_numerals)
qed

lemma decode_chunks_step:
  assumes "length b = 8" "decode_chunk pos b = Inr ix" "length ix = 8" "decode_chunks (pos + 8) t = Inr out"
  shows "decode_chunks pos (b @ t) = Inr (regroup ix @ out)"
  using assms by (subst decode_chunks.simps) auto

lemma decode_padded:
  "decode_chunks pos (take (b32_encoded_len (length data)) (padded_encoding data))
    = Inr (data @ replicate ((5 - length data mod 5) mod 5) 0)"
proof (induction data arbitrary: pos rule: padded_encoding.induct)
  case (1 data)
  consider "data = []" | "data \<noteq> []" "length data < 5" | "5 \<le> length data" by linarith
  then show ?case
  proof cases
    case 1
    then show ?thesis by (simp add: b32_encoded_len_def decode_chunks.simps)
  next
    case 2
    define k where "k = b32_encoded_len (length data)"
    have k: "k \<le> 8" "k \<noteq> 0" using 2 by (auto simp: k_def b32_encoded_len_def Let_def)
    define b where "b = data @ replicate (5 - length data) 0"
    have b: "length b = 5" using 2 by (simp add: b_def)
    have e: "padded_encoding data = map (\<lambda>i. ALPHABET ! unat i) (block_indexes b)"
      using 2 by (simp add: padded_encoding.simps [of data] padded_encoding.simps [of "[]"] encode_block_def b_def)
    have "decode_chunk pos (take k (padded_encoding data)) = Inr (take k (block_indexes b))"
      unfolding e take_map using block_index_bound [OF b] by (intro decode_chunk_alphabet) (blast dest: in_set_takeD)
    moreover have "take k (padded_encoding data) \<noteq> []" "drop 8 (take k (padded_encoding data)) = []"
      using k by (simp_all add: e flip: length_greater_0_conv)
    moreover have "take k (block_indexes b) @ replicate (8 - k) 0 = block_indexes b"
      using last_block_indexes [OF 2] by (simp add: k_def b_def)
    ultimately have "decode_chunks pos (take k (padded_encoding data)) = Inr b"
      using k regroup_indexes [OF b]
      by (simp add: decode_chunks.simps [of pos] decode_chunks.simps [of _ "[]"] min_absorb2)
    with 2 show ?thesis by (simp add: k_def b_def)
  next
    case 3
    then have ne: "data \<noteq> []" by auto
    have b: "length (take 5 data) = 5" using 3 by simp
    let ?t = "take (b32_encoded_len (length data - 5)) (padded_encoding (drop 5 data))"
    have e: "take (b32_encoded_len (length data)) (padded_encoding data)
        = map (\<lambda>i. ALPHABET ! unat i) (block_indexes (take 5 data)) @ ?t"
      using 3 ne by (simp add: padded_encoding.simps [of data] b32_encoded_len_step encode_block_def)
    have "decode_chunk pos (map (\<lambda>i. ALPHABET ! unat i) (block_indexes (take 5 data))) = Inr (block_indexes (take 5 data))"
      using block_index_bound [OF b] by (intro decode_chunk_alphabet) blast
    moreover have "decode_chunks (pos + 8) ?t = Inr (drop 5 data @ replicate ((5 - length data mod 5) mod 5) 0)"
      using "1.IH" [OF ne, of "pos + 8"] 3 by (simp add: le_mod_geq)
    ultimately have "decode_chunks pos (map (\<lambda>i. ALPHABET ! unat i) (block_indexes (take 5 data)) @ ?t)
        = Inr (regroup (block_indexes (take 5 data)) @ drop 5 data @ replicate ((5 - length data mod 5) mod 5) 0)"
      by (intro decode_chunks_step) simp_all
    then show ?thesis unfolding e regroup_indexes [OF b] by (simp flip: append_assoc)
  qed
qed

lemma base32_inverse:
  "\<exists>s. b32_encode data = Inr s \<and> length s = b32_encoded_len (length data) \<and> b32_decode s = Inr data"
proof -
  let ?s = "take (b32_encoded_len (length data)) (padded_encoding data)"
  have "length data = 5 * (length data div 5) + length data mod 5" by simp
  then have "b32_encoded_len (length data) \<le> b32_encoded_buffer_len (length data)"
    using mod5_cases [of "length data"] unfolding b32_encoded_buffer_len_def
    by (elim disjE) (simp_all add: b32_encoded_len_def Let_def)
  then have l: "length ?s = b32_encoded_len (length data)" by (simp add: length_padded_encoding)
  then have "b32_decode ?s = Inr data"
    unfolding b32_decode_def decode_padded l b32_encoded_len_decodes by simp
  with l show ?thesis by (simp add: b32_encode_eq)
qed

subsection \<open>Properties\<close>

text \<open>
  C40: decoding inverts encoding for data of every length, and neither panics: the output buffer that
  \<^verbatim>\<open>encode\<close> allocates always has room for full blocks, and the zeros of the last block are cut off
  again.
\<close>

theorem base32_roundtrip:
  "\<exists>s. b32_encode data = Inr s \<and> length s = b32_encoded_len (length data) \<and> b32_decode s = Inr data"
  by (rule base32_inverse)

end
