(* ===== verification/Field_Names.thy ===== *)
theory Field_Names
  imports Convex_Prelude
begin

text \<open>
  Identifiers, field names and field paths (\<^verbatim>\<open>crates/convex/sync_types/src/identifier.rs\<close>,
  \<^verbatim>\<open>crates/value/src/field_name.rs\<close>, \<^verbatim>\<open>crates/value/src/field_path.rs\<close>). A Rust string is the list of
  its UTF-8 bytes. The checks below only accept ASCII characters, so walking over bytes gives the
  same answer as the source's walk over characters.
\<close>

subsection \<open>Identifiers\<close>

definition is_ascii_alphabetic :: "byte \<Rightarrow> bool" where
  "is_ascii_alphabetic c \<longleftrightarrow> 65 \<le> c \<and> c \<le> 90 \<or> 97 \<le> c \<and> c \<le> 122"

definition is_ascii_alphanumeric :: "byte \<Rightarrow> bool" where
  "is_ascii_alphanumeric c \<longleftrightarrow> is_ascii_alphabetic c \<or> 48 \<le> c \<and> c \<le> 57"

definition is_ascii_control :: "byte \<Rightarrow> bool" where
  "is_ascii_control c \<longleftrightarrow> c < 32 \<or> c = 127"

definition MAX_IDENTIFIER_LEN :: nat where
  "MAX_IDENTIFIER_LEN = 64"

definition underscore :: byte where
  "underscore = 95"

fun check_identifier_chars :: "bytes \<Rightarrow> error + unit" where
  "check_identifier_chars [] = Inr ()"
| "check_identifier_chars (c # chars) =
     (if \<not> is_ascii_alphanumeric c \<and> c \<noteq> underscore
      then Inl (Bail ''Identifiers can only contain alphanumeric characters or underscores'')
      else check_identifier_chars chars)"

definition check_valid_identifier :: "bytes \<Rightarrow> error + unit" where
  "check_valid_identifier s =
     (case s of
        [] \<Rightarrow> Inl (Bail ''Identifier cannot be empty'')
      | c # chars \<Rightarrow>
          if \<not> is_ascii_alphabetic c \<and> c \<noteq> underscore
          then Inl (Bail ''Identifiers must start with an alphabetic character or underscore'')
          else and_then (check_identifier_chars chars)
            (\<lambda>_. if length s > MAX_IDENTIFIER_LEN then Inl (Bail ''Identifier is too long'')
                 else if list_all (\<lambda>c. c = underscore) s
                 then Inl (Bail ''Identifier cannot have exclusively underscores'')
                 else Inr ()))"

subsection \<open>Field names\<close>

definition MAX_FIELD_NAME_LENGTH :: nat where
  "MAX_FIELD_NAME_LENGTH = 1024"

fun check_field_name_chars :: "bytes \<Rightarrow> error + unit" where
  "check_field_name_chars [] = Inr ()"
| "check_field_name_chars (c # chars) =
     (if \<not> c < 128 \<or> is_ascii_control c
      then Inl (Bail ''Field names can only contain non-control ASCII characters'')
      else check_field_name_chars chars)"

definition check_valid_field_name :: "bytes \<Rightarrow> error + unit" where
  "check_valid_field_name s =
     (if prefix (ascii ''$'') s then Inl (Bail ''Field name starts with dollar, which is reserved'')
      else and_then (check_field_name_chars s)
        (\<lambda>_. if length s > MAX_FIELD_NAME_LENGTH then Inl (Bail ''Field name is too long'')
             else Inr ()))"

text \<open>\<^verbatim>\<open>FieldName\<close> and \<^verbatim>\<open>IdentifierFieldName\<close> are checked strings.\<close>

type_synonym field_name = bytes

definition field_name_from_str :: "bytes \<Rightarrow> error + field_name" where
  "field_name_from_str s = and_then (check_valid_field_name s) (\<lambda>_. Inr s)"

definition field_name_is_system :: "field_name \<Rightarrow> bool" where
  "field_name_is_system f \<longleftrightarrow> prefix [underscore] f"

definition identifier_field_name_from_str :: "bytes \<Rightarrow> error + field_name" where
  "identifier_field_name_from_str s =
     and_then (check_valid_field_name s) (\<lambda>_. and_then (check_valid_identifier s) (\<lambda>_. Inr s))"

definition identifier_field_name_try_from :: "field_name \<Rightarrow> error + field_name" where
  "identifier_field_name_try_from f = and_then (check_valid_identifier f) (\<lambda>_. Inr f)"

subsection \<open>Field paths\<close>

type_synonym field_path = "field_name list"

definition field_path_new :: "field_name list \<Rightarrow> error + field_path" where
  "field_path_new fields =
     (if fields = [] then Inl (Bail ''Condition failed: fields is not empty'') else Inr fields)"

definition for_root_field :: "field_name \<Rightarrow> field_path" where
  "for_root_field field = [field]"

definition field_path_last :: "field_path \<Rightarrow> error + field_name" where
  "field_path_last fields =
     expect ''Empty FieldPath?'' (if fields = [] then None else Some (last fields))"

definition dot :: byte where
  "dot = 46"

text \<open>\<^verbatim>\<open>trim_matches('.')\<close>, \<^verbatim>\<open>split('.')\<close> and \<^verbatim>\<open>join(".")\<close> of the standard library.\<close>

definition trim_dots :: "bytes \<Rightarrow> bytes" where
  "trim_dots s = rev (dropWhile (\<lambda>c. c = dot) (rev (dropWhile (\<lambda>c. c = dot) s)))"

fun split_dots :: "bytes \<Rightarrow> bytes list" where
  "split_dots [] = [[]]"
| "split_dots (c # cs) =
     (if c = dot then [] # split_dots cs
      else case split_dots cs of [] \<Rightarrow> [[c]] | x # xs \<Rightarrow> (c # x) # xs)"

fun join_dots :: "bytes list \<Rightarrow> bytes" where
  "join_dots [] = []"
| "join_dots [x] = x"
| "join_dots (x # y # ys) = x @ dot # join_dots (y # ys)"

definition field_path_from_str :: "bytes \<Rightarrow> error + field_path" where
  "field_path_from_str path =
     (let trimmed_path = trim_dots path
      in if trimmed_path = [] then Inl (Bail ''Empty path'')
         else and_then (try_map identifier_field_name_from_str (split_dots trimmed_path))
           field_path_new)"

definition field_path_to_string :: "field_path \<Rightarrow> bytes" where
  "field_path_to_string fields = join_dots fields"

subsection \<open>Lemmas\<close>

lemma check_identifier_chars_iff:
  "check_identifier_chars s = Inr () \<longleftrightarrow> (\<forall>c \<in> set s. is_ascii_alphanumeric c \<or> c = underscore)"
  by (induction s) auto

lemma check_valid_identifier_iff:
  "check_valid_identifier s = Inr () \<longleftrightarrow>
     s \<noteq> [] \<and> (is_ascii_alphabetic (hd s) \<or> hd s = underscore)
     \<and> (\<forall>c \<in> set s. is_ascii_alphanumeric c \<or> c = underscore)
     \<and> length s \<le> MAX_IDENTIFIER_LEN \<and> (\<exists>c \<in> set s. c \<noteq> underscore)"
  by (cases s)
    (auto simp: check_valid_identifier_def and_then_Inr_iff check_identifier_chars_iff
      list_all_iff is_ascii_alphanumeric_def)

lemma field_char_iff: "(c < 128 \<and> \<not> is_ascii_control c) \<longleftrightarrow> 32 \<le> c \<and> c < 127"
  using unat_byte_less [of c]
  by (auto simp: is_ascii_control_def word_less_nat_alt word_le_nat_alt word_unat_eq_iff)

lemma check_field_name_chars_iff:
  "check_field_name_chars s = Inr () \<longleftrightarrow> (\<forall>c \<in> set s. 32 \<le> c \<and> c < 127)"
proof (induction s)
  case (Cons c s)
  then show ?case using field_char_iff [of c] by auto
qed simp

lemma check_valid_field_name_iff:
  "check_valid_field_name s = Inr () \<longleftrightarrow>
     (s = [] \<or> hd s \<noteq> 36) \<and> (\<forall>c \<in> set s. 32 \<le> c \<and> c < 127) \<and> length s \<le> MAX_FIELD_NAME_LENGTH"
proof -
  have "prefix (ascii ''$'') s \<longleftrightarrow> s \<noteq> [] \<and> hd s = 36" by (cases s) (auto simp: ascii_def)
  then show ?thesis
    by (auto simp: check_valid_field_name_def and_then_Inr_iff check_field_name_chars_iff not_less)
qed

lemma alphanumeric_range:
  "is_ascii_alphanumeric c \<or> c = underscore \<Longrightarrow> 48 \<le> c \<and> c \<le> 122"
  by (auto simp: is_ascii_alphanumeric_def is_ascii_alphabetic_def underscore_def
      word_le_nat_alt)

lemma identifier_is_field_name:
  assumes "check_valid_identifier s = Inr ()"
  shows "check_valid_field_name s = Inr ()"
proof -
  have r: "48 \<le> c \<and> c \<le> 122" if "c \<in> set s" for c
    using assms that alphanumeric_range by (simp add: check_valid_identifier_iff)
  then have "32 \<le> c \<and> c < 127" if "c \<in> set s" for c
    using that [THEN r] by (simp add: word_le_nat_alt word_less_nat_alt)
  moreover have "hd s \<noteq> 36"
    using r [of "hd s"] assms by (auto simp: check_valid_identifier_iff word_le_nat_alt)
  ultimately show ?thesis
    using assms
    by (simp add: check_valid_field_name_iff check_valid_identifier_iff MAX_IDENTIFIER_LEN_def
        MAX_FIELD_NAME_LENGTH_def)
qed

lemma identifier_field_name_from_str_iff:
  "identifier_field_name_from_str s = Inr f \<longleftrightarrow> check_valid_identifier s = Inr () \<and> f = s"
  using identifier_is_field_name [of s]
  by (auto simp: identifier_field_name_from_str_def and_then_Inr_iff)

lemma identifier_no_dot:
  assumes "check_valid_identifier s = Inr ()"
  shows "s \<noteq> [] \<and> dot \<notin> set s"
proof -
  have "48 \<le> c" if "c \<in> set s" for c
    using assms that alphanumeric_range by (simp add: check_valid_identifier_iff)
  moreover have "\<not> 48 \<le> dot" by (simp add: dot_def)
  ultimately show ?thesis using assms by (auto simp: check_valid_identifier_iff)
qed

lemma split_dots_nonempty [simp]: "split_dots s \<noteq> []"
  by (induction s) (auto split: list.splits)

lemma join_split_dots: "join_dots (split_dots s) = s"
proof (induction s)
  case (Cons c s)
  obtain x xs where "split_dots s = x # xs" using split_dots_nonempty [of s] by (cases "split_dots s") auto
  with Cons show ?case by (cases xs) auto
qed simp

lemma split_dots_no_dot: "dot \<notin> set x \<Longrightarrow> split_dots x = [x]"
  by (induction x) auto

lemma split_dots_append: "dot \<notin> set x \<Longrightarrow> split_dots (x @ dot # s) = x # split_dots s"
  by (induction x) auto

lemma split_join_dots:
  "xs \<noteq> [] \<Longrightarrow> \<forall>x \<in> set xs. dot \<notin> set x \<Longrightarrow> split_dots (join_dots xs) = xs"
  by (induction xs rule: join_dots.induct) (auto simp: split_dots_no_dot split_dots_append)

lemma join_dots_ends:
  assumes "xs \<noteq> []" "\<forall>x \<in> set xs. x \<noteq> [] \<and> dot \<notin> set x"
  shows "join_dots xs \<noteq> [] \<and> hd (join_dots xs) \<noteq> dot \<and> last (join_dots xs) \<noteq> dot"
  using assms
proof (induction xs rule: join_dots.induct)
  case (2 x)
  then show ?case by (auto dest: list.set_sel(1) last_in_set)
next
  case (3 x y ys)
  then show ?case by (auto dest: list.set_sel(1) simp: last_append)
qed simp

lemma trim_dots_id: "s \<noteq> [] \<Longrightarrow> hd s \<noteq> dot \<Longrightarrow> last s \<noteq> dot \<Longrightarrow> trim_dots s = s"
  by (simp add: trim_dots_def dropWhile_eq_self_iff [THEN iffD2] hd_rev)

lemma field_path_from_str_iff:
  "field_path_from_str s = Inr fields \<longleftrightarrow>
     fields \<noteq> [] \<and> (\<forall>f \<in> set fields. check_valid_identifier f = Inr ())
     \<and> trim_dots s = field_path_to_string fields"
  (is "?parsed \<longleftrightarrow> ?printed")
proof
  assume ?parsed
  then have "list_all2 (\<lambda>x y. identifier_field_name_from_str x = Inr y) (split_dots (trim_dots s)) fields"
    and ne: "fields \<noteq> []"
    by (auto simp: field_path_from_str_def field_path_new_def and_then_Inr_iff try_map_Inr_iff Let_def
        split: if_splits)
  then have "fields = split_dots (trim_dots s)" "\<forall>f \<in> set fields. check_valid_identifier f = Inr ()"
    unfolding identifier_field_name_from_str_iff list_all2_conv_all_nth
    by (auto intro: nth_equalityI simp: in_set_conv_nth)
  with ne show ?printed by (simp add: field_path_to_string_def join_split_dots)
next
  assume p: ?printed
  then have segs: "\<forall>f \<in> set fields. f \<noteq> [] \<and> dot \<notin> set f" using identifier_no_dot by blast
  with p have "split_dots (trim_dots s) = fields" "trim_dots s \<noteq> []"
    using join_dots_ends [of fields] by (auto simp: field_path_to_string_def split_join_dots)
  moreover have "try_map identifier_field_name_from_str fields = Inr fields"
    using p by (simp add: try_map_Inr_iff identifier_field_name_from_str_iff list.rel_refl_strong)
  ultimately show ?parsed using p by (simp add: field_path_from_str_def field_path_new_def)
qed

lemma trim_dots_printed:
  assumes "fields \<noteq> []" "\<forall>f \<in> set fields. check_valid_identifier f = Inr ()"
  shows "trim_dots (field_path_to_string fields) = field_path_to_string fields"
proof -
  have "\<forall>f \<in> set fields. f \<noteq> [] \<and> dot \<notin> set f" using assms(2) identifier_no_dot by blast
  from join_dots_ends [OF assms(1) this] show ?thesis
    by (simp add: field_path_to_string_def trim_dots_id)
qed

subsection \<open>Properties\<close>

text \<open>
  C39: parsing a field path and printing it are inverse. A string is accepted exactly when, leading
  and trailing dots removed, it is the printed form of a non-empty path of valid identifiers, which
  is then the result; and printing such a path and parsing it gives the path back.
\<close>

theorem field_path_roundtrip:
  "(field_path_from_str s = Inr fields \<longleftrightarrow>
      fields \<noteq> [] \<and> (\<forall>f \<in> set fields. check_valid_identifier f = Inr ())
      \<and> trim_dots s = field_path_to_string fields)
   \<and> (fields \<noteq> [] \<and> (\<forall>f \<in> set fields. check_valid_identifier f = Inr ())
      \<longrightarrow> field_path_from_str (field_path_to_string fields) = Inr fields)"
  using trim_dots_printed [of fields] by (simp add: field_path_from_str_iff)

theorem field_path_roundtrip_witness:
  "field_path_from_str (ascii ''.user.name.'') = Inr [ascii ''user'', ascii ''name'']
   \<and> trim_dots (ascii ''.user.name.'') = field_path_to_string [ascii ''user'', ascii ''name'']"
proof -
  have "field_path_from_str (ascii ''.user.name.'') = Inr [ascii ''user'', ascii ''name'']"
    by code_simp
  with field_path_roundtrip [of "ascii ''.user.name.''" "[ascii ''user'', ascii ''name'']"]
  show ?thesis by blast
qed

end
