(* ===== verification/Convex_Value.thy ===== *)
theory Convex_Value
  imports Field_Names
begin

text \<open>
  Convex values and their limits (\<^verbatim>\<open>crates/value/src\<close>: \<^verbatim>\<open>lib.rs\<close>, \<^verbatim>\<open>size.rs\<close>, \<^verbatim>\<open>string.rs\<close>, \<^verbatim>\<open>bytes.rs\<close>,
  \<^verbatim>\<open>array.rs\<close>, \<^verbatim>\<open>object.rs\<close>). Arrays and objects carry their size and nesting precomputed, as the
  source's structs do; the invariant \<open>wf_value\<close> says that every compound value is what its checked
  constructor returned. An \<^verbatim>\<open>i64\<close> and the bits of an \<^verbatim>\<open>f64\<close> are \<open>64 word\<close>s, and a string is the list of
  its UTF-8 bytes.
\<close>

subsection \<open>Values\<close>

datatype ConvexValue =
    Null
  | Int64 "64 word"
  | Float64 "64 word"
  | Boolean bool
  | String bytes
  | Bytes bytes
  | Array ConvexArray
  | Object ConvexObject
and ConvexArray = ConvexArray (arr_size: nat) (arr_nesting: nat) (arr_items: "ConvexValue list")
and ConvexObject =
  ConvexObject (obj_size: nat) (obj_nesting: nat) (obj_fields: "(field_name \<times> ConvexValue) list")

definition MAX_SIZE :: nat where
  "MAX_SIZE = 2 ^ 25"

definition MAX_NESTING :: nat where
  "MAX_NESTING = 64"

definition MAX_ARRAY_LEN :: nat where
  "MAX_ARRAY_LEN = 8192"

definition MAX_OBJECT_FIELDS :: nat where
  "MAX_OBJECT_FIELDS = 1024"

definition string_size :: "bytes \<Rightarrow> nat" where
  "string_size s = 1 + length s + 1"

fun cv_size :: "ConvexValue \<Rightarrow> nat" where
  "cv_size Null = 1"
| "cv_size (Int64 _) = 1 + 8"
| "cv_size (Float64 _) = 1 + 8"
| "cv_size (Boolean _) = 1"
| "cv_size (String s) = string_size s"
| "cv_size (Bytes b) = string_size b"
| "cv_size (Array arr) = arr_size arr"
| "cv_size (Object m) = obj_size m"

fun cv_nesting :: "ConvexValue \<Rightarrow> nat" where
  "cv_nesting (Array arr) = arr_nesting arr"
| "cv_nesting (Object m) = obj_nesting m"
| "cv_nesting _ = 0"

fun type_name :: "ConvexValue \<Rightarrow> string" where
  "type_name Null = ''Null''"
| "type_name (Int64 _) = ''Int64''"
| "type_name (Float64 _) = ''Float64''"
| "type_name (Boolean _) = ''Boolean''"
| "type_name (String _) = ''String''"
| "type_name (Bytes _) = ''Bytes''"
| "type_name (Array _) = ''Array''"
| "type_name (Object _) = ''Object''"

subsection \<open>Checked constructors\<close>

definition check_system_size :: "nat \<Rightarrow> error + unit" where
  "check_system_size sz = (if sz > MAX_SIZE then Inl (BadRequest ''ValueTooLargeError'') else Inr ())"

definition check_nesting :: "nat \<Rightarrow> error + unit" where
  "check_nesting nesting = (if nesting > MAX_NESTING then Inl (BadRequest ''TooNestedError'') else Inr ())"

definition string_try_from :: "bytes \<Rightarrow> error + bytes" where
  "string_try_from s = and_then (check_system_size (1 + length s + 1)) (\<lambda>_. Inr s)"

definition bytes_try_from :: "bytes \<Rightarrow> error + bytes" where
  "bytes_try_from v = and_then (check_system_size (1 + length v + 1)) (\<lambda>_. Inr v)"

text \<open>\<^verbatim>\<open>iter().map(|v| v.nesting()).max().unwrap_or(0)\<close>\<close>

definition max_nesting :: "ConvexValue list \<Rightarrow> nat" where
  "max_nesting vs = fold (\<lambda>v m. max m (cv_nesting v)) vs 0"

definition array_empty :: ConvexArray where
  "array_empty = ConvexArray 2 1 []"

definition array_try_from :: "ConvexValue list \<Rightarrow> error + ConvexArray" where
  "array_try_from items =
     (if length items > MAX_ARRAY_LEN then Inl (BadRequest ''ArrayTooLong'')
      else let sz = 1 + sum_list (map cv_size items) + 1
           in and_then (check_system_size sz)
                (\<lambda>_. let nesting = 1 + max_nesting items
                     in and_then (check_nesting nesting) (\<lambda>_. Inr (ConvexArray sz nesting items))))"

definition object_try_from :: "(field_name, ConvexValue) btree_map \<Rightarrow> error + ConvexObject" where
  "object_try_from fields =
     (if length fields > MAX_OBJECT_FIELDS then Inl (BadRequest ''TooManyFieldsError'')
      else let sz = 1 + sum_list (map (\<lambda>(k, v). length k + 1 + cv_size v) fields) + 1
           in and_then (check_system_size sz)
                (\<lambda>_. let nesting = 1 + max_nesting (map snd fields)
                     in and_then (check_nesting nesting) (\<lambda>_. Inr (ConvexObject sz nesting fields))))"

subsection \<open>Objects\<close>

definition object_empty :: ConvexObject where
  "object_empty = ConvexObject (1 + 1) 1 []"

definition object_for_value :: "field_name \<Rightarrow> ConvexValue \<Rightarrow> error + ConvexObject" where
  "object_for_value key v = object_try_from (bt_insert key v [])"

definition object_get :: "ConvexObject \<Rightarrow> field_name \<Rightarrow> ConvexValue option" where
  "object_get self f = bt_get (obj_fields self) f"

definition contains_field :: "ConvexObject \<Rightarrow> field_name \<Rightarrow> bool" where
  "contains_field self f \<longleftrightarrow> object_get self f \<noteq> None"

definition object_keys :: "ConvexObject \<Rightarrow> field_name list" where
  "object_keys self = map fst (obj_fields self)"

fun get_path_loop :: "ConvexValue \<Rightarrow> field_name list \<Rightarrow> ConvexValue option" where
  "get_path_loop v [] = Some v"
| "get_path_loop (Object o') (f # fs) =
     (case bt_get (obj_fields o') f of None \<Rightarrow> None | Some v \<Rightarrow> get_path_loop v fs)"
| "get_path_loop _ (f # fs) = None"

fun get_path :: "ConvexObject \<Rightarrow> field_path \<Rightarrow> ConvexValue option" where
  "get_path self [] = None"
| "get_path self (first # rest) =
     (case bt_get (obj_fields self) first of None \<Rightarrow> None | Some v \<Rightarrow> get_path_loop v rest)"

definition shallow_merge :: "ConvexObject \<Rightarrow> ConvexObject \<Rightarrow> error + ConvexObject" where
  "shallow_merge self other =
     object_try_from (fold (\<lambda>(f, v) self_fields. bt_insert f v self_fields) (obj_fields other)
       (obj_fields self))"

definition filter_fields :: "(field_name \<Rightarrow> bool) \<Rightarrow> ConvexObject \<Rightarrow> error + ConvexObject" where
  "filter_fields keep self =
     (case object_try_from (filter (\<lambda>(k, _). keep k) (obj_fields self)) of
        Inl _ \<Rightarrow> Inl (Panic ''Filtering an object should always produce a smaller, thus valid object'')
      | Inr o' \<Rightarrow> Inr o')"

definition filter_system_fields :: "ConvexObject \<Rightarrow> error + ConvexObject" where
  "filter_system_fields = filter_fields (\<lambda>k. \<not> field_name_is_system k)"

text \<open>
  The helpers that parse an object field by field: each removes the field from the map, whatever it
  holds, and checks the type of what was removed. A conversion \<^verbatim>\<open>T: TryFrom<ConvexObject>\<close> is an
  argument.
\<close>

type_synonym fields = "(field_name, ConvexValue) btree_map"

definition remove_string :: "fields \<Rightarrow> field_name \<Rightarrow> (error + bytes) \<times> fields" where
  "remove_string fields field =
     (case bt_get fields field of
        Some (String s) \<Rightarrow> Inr s
      | v \<Rightarrow> Inl (Bail ''expected string''), bt_remove field fields)"

definition remove_nullable_string :: "fields \<Rightarrow> field_name \<Rightarrow> (error + bytes option) \<times> fields" where
  "remove_nullable_string fields field =
     (case bt_get fields field of
        Some (String s) \<Rightarrow> Inr (Some s)
      | Some Null \<Rightarrow> Inr None
      | None \<Rightarrow> Inr None
      | v \<Rightarrow> Inl (Bail ''expected string''), bt_remove field fields)"

definition remove_boolean :: "fields \<Rightarrow> field_name \<Rightarrow> (error + bool) \<times> fields" where
  "remove_boolean fields field =
     (case bt_get fields field of
        Some (Boolean s) \<Rightarrow> Inr s
      | v \<Rightarrow> Inl (Bail ''expected boolean''), bt_remove field fields)"

definition remove_int64 :: "fields \<Rightarrow> field_name \<Rightarrow> (error + 64 word) \<times> fields" where
  "remove_int64 fields field =
     (case bt_get fields field of
        Some (Int64 i) \<Rightarrow> Inr i
      | v \<Rightarrow> Inl (Bail ''expected int''), bt_remove field fields)"

definition remove_nullable_int64 :: "fields \<Rightarrow> field_name \<Rightarrow> (error + 64 word option) \<times> fields" where
  "remove_nullable_int64 fields field =
     (case bt_get fields field of
        Some (Int64 i) \<Rightarrow> Inr (Some i)
      | None \<Rightarrow> Inr None
      | v \<Rightarrow> Inl (Bail ''expected int''), bt_remove field fields)"

definition remove_object ::
  "(ConvexObject \<Rightarrow> error + 'a) \<Rightarrow> fields \<Rightarrow> field_name \<Rightarrow> (error + 'a) \<times> fields" where
  "remove_object try_into fields field =
     (case bt_get fields field of
        Some (Object o') \<Rightarrow> try_into o'
      | v \<Rightarrow> Inl (Bail ''expected object''), bt_remove field fields)"

definition remove_nullable_object ::
  "(ConvexObject \<Rightarrow> error + 'a) \<Rightarrow> fields \<Rightarrow> field_name \<Rightarrow> (error + 'a option) \<times> fields" where
  "remove_nullable_object try_into fields field =
     (case bt_get fields field of
        Some (Object o') \<Rightarrow> and_then (try_into o') (\<lambda>x. Inr (Some x))
      | Some Null \<Rightarrow> Inr None
      | None \<Rightarrow> Inr None
      | v \<Rightarrow> Inl (Bail ''expected object or null''), bt_remove field fields)"

definition remove_vec :: "fields \<Rightarrow> field_name \<Rightarrow> (error + ConvexValue list) \<times> fields" where
  "remove_vec fields field =
     (case bt_get fields field of
        Some (Array a) \<Rightarrow> Inr (arr_items a)
      | v \<Rightarrow> Inl (Bail ''expected array''), bt_remove field fields)"

fun string_element :: "ConvexValue \<Rightarrow> error + bytes" where
  "string_element (String s) = Inr s"
| "string_element _ = Inl (Bail ''expected string in array'')"

definition remove_vec_of_strings :: "fields \<Rightarrow> field_name \<Rightarrow> (error + bytes list) \<times> fields" where
  "remove_vec_of_strings fields field =
     (let (values, fields') = remove_vec fields field
      in (and_then values (try_map string_element), fields'))"

definition remove_nullable_vec :: "fields \<Rightarrow> field_name \<Rightarrow> (error + ConvexValue list option) \<times> fields" where
  "remove_nullable_vec fields field =
     (case bt_get fields field of
        Some (Array a) \<Rightarrow> Inr (Some (arr_items a))
      | None \<Rightarrow> Inr None
      | v \<Rightarrow> Inl (Bail ''expected array''), bt_remove field fields)"

definition remove_nullable_vec_of_strings ::
  "fields \<Rightarrow> field_name \<Rightarrow> (error + bytes list option) \<times> fields" where
  "remove_nullable_vec_of_strings fields field =
     (let (values, fields') = remove_nullable_vec fields field
      in (and_then values (\<lambda>vs. case vs of
            None \<Rightarrow> Inr None
          | Some vs \<Rightarrow> and_then (try_map string_element vs) (\<lambda>ss. Inr (Some ss))), fields'))"

subsection \<open>Field paths as values\<close>

definition field_path_to_value :: "field_path \<Rightarrow> error + ConvexValue" where
  "field_path_to_value f = and_then (string_try_from (field_path_to_string f)) (\<lambda>s. Inr (String s))"

fun field_path_from_value :: "ConvexValue \<Rightarrow> error + field_path" where
  "field_path_from_value (String s) = field_path_from_str s"
| "field_path_from_value _ = Inl (Bail ''Invalid field name'')"

definition field_paths_to_value :: "field_path list \<Rightarrow> error + ConvexValue" where
  "field_paths_to_value v =
     and_then (try_map field_path_to_value v) (\<lambda>vs. and_then (array_try_from vs) (\<lambda>a. Inr (Array a)))"

fun field_paths_from_value :: "ConvexValue \<Rightarrow> error + field_path list" where
  "field_paths_from_value (Array a) = try_map field_path_from_value (arr_items a)"
| "field_paths_from_value _ = Inl (Bail ''Invalid field list'')"

subsection \<open>The invariant\<close>

text \<open>\<^verbatim>\<open>String::from_utf8\<close> accepts the well-formed byte sequences of the Unicode standard.\<close>

abbreviation continuation :: "byte \<Rightarrow> bool" where
  "continuation c \<equiv> 0x80 \<le> c \<and> c \<le> 0xBF"

fun utf8_valid :: "bytes \<Rightarrow> bool" where
  "utf8_valid [] = True"
| "utf8_valid (a # s) =
     (if a < 0x80 then utf8_valid s
      else case s of
        [] \<Rightarrow> False
      | b # s1 \<Rightarrow>
          if 0xC2 \<le> a \<and> a \<le> 0xDF then continuation b \<and> utf8_valid s1
          else case s1 of
            [] \<Rightarrow> False
          | c # s2 \<Rightarrow>
              if 0xE0 \<le> a \<and> a \<le> 0xEF
              then (if a = 0xE0 then 0xA0 \<le> b \<and> b \<le> 0xBF
                    else if a = 0xED then 0x80 \<le> b \<and> b \<le> 0x9F else continuation b)
                   \<and> continuation c \<and> utf8_valid s2
              else case s2 of
                [] \<Rightarrow> False
              | d # s3 \<Rightarrow>
                  0xF0 \<le> a \<and> a \<le> 0xF4
                  \<and> (if a = 0xF0 then 0x90 \<le> b \<and> b \<le> 0xBF
                     else if a = 0xF4 then 0x80 \<le> b \<and> b \<le> 0x8F else continuation b)
                  \<and> continuation c \<and> continuation d \<and> utf8_valid s3)"

fun wf_value :: "ConvexValue \<Rightarrow> bool" where
  "wf_value (String s) \<longleftrightarrow> utf8_valid s \<and> string_try_from s = Inr s"
| "wf_value (Bytes b) \<longleftrightarrow> bytes_try_from b = Inr b"
| "wf_value (Array (ConvexArray sz n items)) \<longleftrightarrow>
     array_try_from items = Inr (ConvexArray sz n items) \<and> (\<forall>v \<in> set items. wf_value v)"
| "wf_value (Object (ConvexObject sz n fs)) \<longleftrightarrow>
     object_try_from fs = Inr (ConvexObject sz n fs) \<and> bt_wf fs
     \<and> (\<forall>f \<in> set fs. check_valid_field_name (fst f) = Inr () \<and> wf_value (snd f))"
| "wf_value _ \<longleftrightarrow> True"

text \<open>The size and the nesting of a value computed from its whole structure.\<close>

fun full_size :: "ConvexValue \<Rightarrow> nat" where
  "full_size (Array (ConvexArray _ _ items)) = 2 + sum_list (map full_size items)"
| "full_size (Object (ConvexObject _ _ fs)) =
     2 + sum_list (map (\<lambda>f. length (fst f) + 1 + full_size (snd f)) fs)"
| "full_size v = cv_size v"

fun depth :: "ConvexValue \<Rightarrow> nat" where
  "depth (Array (ConvexArray _ _ items)) = Suc (Max (insert 0 (set (map depth items))))"
| "depth (Object (ConvexObject _ _ fs)) = Suc (Max (insert 0 (set (map (\<lambda>f. depth (snd f)) fs))))"
| "depth _ = 0"

subsection \<open>Lemmas\<close>

lemma value_induct [case_names Null Int64 Float64 Boolean String Bytes Array Object]:
  assumes "P Null" "\<And>i. P (Int64 i)" "\<And>f. P (Float64 f)" "\<And>b. P (Boolean b)"
    and "\<And>s. P (String s)" "\<And>b. P (Bytes b)"
    and "\<And>sz n items. (\<And>v. v \<in> set items \<Longrightarrow> P v) \<Longrightarrow> P (Array (ConvexArray sz n items))"
    and "\<And>sz n fs. (\<And>f. f \<in> set fs \<Longrightarrow> P (snd f)) \<Longrightarrow> P (Object (ConvexObject sz n fs))"
  shows "P v"
proof (induction v rule: wf_value.induct)
  case (4 sz n fs)
  then show ?case using assms(8) by blast
qed (use assms in blast)+

lemma check_system_size_iff [simp]: "check_system_size sz = Inr u \<longleftrightarrow> sz \<le> MAX_SIZE"
  by (simp add: check_system_size_def not_less)

lemma check_nesting_iff [simp]: "check_nesting n = Inr u \<longleftrightarrow> n \<le> MAX_NESTING"
  by (simp add: check_nesting_def not_less)

lemma string_try_from_iff [simp]: "string_try_from s = Inr s' \<longleftrightarrow> s' = s \<and> length s + 2 \<le> MAX_SIZE"
  by (auto simp: string_try_from_def and_then_Inr_iff)

lemma bytes_try_from_iff [simp]: "bytes_try_from s = Inr s' \<longleftrightarrow> s' = s \<and> length s + 2 \<le> MAX_SIZE"
  by (auto simp: bytes_try_from_def and_then_Inr_iff)

lemma array_try_from_iff:
  "array_try_from items = Inr a \<longleftrightarrow>
     length items \<le> MAX_ARRAY_LEN \<and> 2 + sum_list (map cv_size items) \<le> MAX_SIZE
     \<and> Suc (max_nesting items) \<le> MAX_NESTING
     \<and> a = ConvexArray (2 + sum_list (map cv_size items)) (Suc (max_nesting items)) items"
  by (auto simp: array_try_from_def and_then_Inr_iff Let_def)

lemma object_try_from_iff:
  "object_try_from fs = Inr m \<longleftrightarrow>
     length fs \<le> MAX_OBJECT_FIELDS
     \<and> 2 + sum_list (map (\<lambda>(k, v). length k + 1 + cv_size v) fs) \<le> MAX_SIZE
     \<and> Suc (max_nesting (map snd fs)) \<le> MAX_NESTING
     \<and> m = ConvexObject (2 + sum_list (map (\<lambda>(k, v). length k + 1 + cv_size v) fs))
             (Suc (max_nesting (map snd fs))) fs"
  by (auto simp: object_try_from_def and_then_Inr_iff Let_def)

lemma fold_max_nesting: "fold (\<lambda>v m. max m (cv_nesting v)) vs a = Max (insert a (cv_nesting ` set vs))"
proof (induction vs arbitrary: a)
  case (Cons v vs)
  have "Max (insert (max a n) S) = Max (insert a (insert n S))" if "finite S" for n and S :: "nat set"
    using that by (cases "S = {}") (simp_all add: max.assoc)
  with Cons show ?case by simp
qed simp

lemma max_nesting_Max: "max_nesting vs = Max (insert 0 (cv_nesting ` set vs))"
  by (simp add: max_nesting_def fold_max_nesting)

lemma max_nesting_mono: "set vs \<subseteq> set ws \<Longrightarrow> max_nesting vs \<le> max_nesting ws"
  unfolding max_nesting_Max by (rule Max_mono) auto

lemma sum_list_filter_le: "sum_list (map f (filter P xs)) \<le> sum_list (map f (xs :: 'a list) :: nat list)"
  by (induction xs) auto

lemma wf_value_object_iff:
  "wf_value (Object m) \<longleftrightarrow>
     object_try_from (obj_fields m) = Inr m \<and> bt_wf (obj_fields m)
     \<and> (\<forall>f \<in> set (obj_fields m). check_valid_field_name (fst f) = Inr () \<and> wf_value (snd f))"
  by (cases m) simp

lemma wf_value_size_depth: "wf_value v \<Longrightarrow> cv_size v = full_size v \<and> cv_nesting v = depth v"
proof (induction v rule: value_induct)
  case (Array sz n items)
  then have "map cv_size items = map full_size items" "cv_nesting ` set items = depth ` set items" by auto
  with Array.prems show ?case by (simp add: array_try_from_iff max_nesting_Max)
next
  case (Object sz n fs)
  then have wf: "wf_value (snd f)" if "f \<in> set fs" for f using that by simp
  have "map (\<lambda>(k, v). Suc (length k + cv_size v)) fs = map (\<lambda>f. Suc (length (fst f) + full_size (snd f))) fs"
    using Object.IH wf by auto
  then have "(\<Sum>(k, v)\<leftarrow>fs. Suc (length k + cv_size v)) = (\<Sum>f\<leftarrow>fs. Suc (length (fst f) + full_size (snd f)))"
    by (rule arg_cong)
  moreover have "cv_nesting ` set (map snd fs) = (\<lambda>f. depth (snd f)) ` set fs"
    using Object.IH wf by (simp add: image_image)
  ultimately show ?case using Object.prems by (simp add: object_try_from_iff max_nesting_Max)
qed simp_all

lemma wf_value_limits: "wf_value v \<Longrightarrow> cv_size v \<le> MAX_SIZE \<and> cv_nesting v \<le> MAX_NESTING"
  by (cases v rule: wf_value.cases)
    (auto simp: array_try_from_iff object_try_from_iff string_size_def MAX_SIZE_def MAX_NESTING_def)

lemma bt_get_fold_insert:
  assumes "bt_wf ys" "bt_wf xs"
  shows "bt_get (fold (\<lambda>(f, v) m. bt_insert f v m) ys xs) k
    = (case bt_get ys k of Some v \<Rightarrow> Some v | None \<Rightarrow> bt_get xs k)"
  using assms
proof (induction ys arbitrary: xs)
  case (Cons e ys)
  have "bt_get ys (fst e) = None" using Cons.prems by (auto simp: bt_get_None_iff bt_wf_Cons)
  with Cons show ?case
    by (cases e) (auto simp: bt_wf_Cons bt_wf_insert split: option.splits)
qed simp

lemma fold_insert_content:
  "set (fold (\<lambda>(f, v) m. bt_insert f v m) ys xs) \<subseteq> set xs \<union> set ys"
  "bt_wf xs \<Longrightarrow> bt_wf (fold (\<lambda>(f, v) m. bt_insert f v m) ys xs)"
proof (induction ys arbitrary: xs)
  case (Cons e ys)
  { case 1
    have "set (bt_insert (fst e) (snd e) xs) \<subseteq> insert e (set xs)" by (auto simp: bt_insert_def)
    with Cons.IH(1) [of "bt_insert (fst e) (snd e) xs"] show ?case by (cases e) auto }
  { case 2
    with Cons.IH(2) [of "bt_insert (fst e) (snd e) xs"] show ?case by (cases e) auto }
qed auto

lemma bt_get_filter_keys:
  "bt_get (filter (\<lambda>(k, _). keep k) xs) f = (if keep f then bt_get xs f else None)"
  by (induction xs) (auto simp: bt_get_def)

subsection \<open>Properties\<close>

text \<open>
  C25: the precomputed size and nesting that a well-formed value carries (and that all limit checks
  and equality assertions read) are those of its whole structure, and they respect the limits of 32
  MiB and 64 levels.
\<close>

theorem value_precomputed_sizes:
  assumes "wf_value v"
  shows "cv_size v = full_size v \<and> cv_nesting v = depth v
    \<and> full_size v \<le> MAX_SIZE \<and> depth v \<le> MAX_NESTING"
  using wf_value_size_depth [OF assms] wf_value_limits [OF assms] by simp

theorem value_precomputed_sizes_witness:
  "wf_value (Array (ConvexArray 4 2 [Null, Array (ConvexArray 2 1 [])])) = False
   \<and> wf_value (Array (ConvexArray 5 2 [Null, Array (ConvexArray 2 1 [])]))
   \<and> depth (Array (ConvexArray 5 2 [Null, Array (ConvexArray 2 1 [])])) = 2"
proof -
  have w: "wf_value (Array (ConvexArray 5 2 [Null, Array (ConvexArray 2 1 [])]))"
    by (simp add: array_try_from_iff max_nesting_def MAX_ARRAY_LEN_def MAX_SIZE_def MAX_NESTING_def)
  have n: "\<not> wf_value (Array (ConvexArray 4 2 [Null, Array (ConvexArray 2 1 [])]))"
    by (simp add: array_try_from_iff)
  from value_precomputed_sizes [OF w] w n show ?thesis by simp
qed

text \<open>
  Filtering the fields of a well-formed object never fails, although the source relies on an
  \<^verbatim>\<open>expect\<close>: the result is a well-formed object that has exactly the fields the predicate keeps, with
  their values.
\<close>

theorem filter_fields_total:
  assumes "wf_value (Object self)"
  shows "\<exists>o'. filter_fields keep self = Inr o' \<and> wf_value (Object o')
    \<and> (\<forall>f. object_get o' f = (if keep f then object_get self f else None))"
proof -
  let ?fs = "filter (\<lambda>(k, _). keep k) (obj_fields self)"
  have wf: "object_try_from (obj_fields self) = Inr self" "bt_wf (obj_fields self)"
    using assms by (simp_all add: wf_value_object_iff)
  have "length ?fs \<le> MAX_OBJECT_FIELDS"
    using wf(1) le_trans [OF length_filter_le [of _ "obj_fields self"]]
    by (auto simp: object_try_from_iff)
  moreover have "max_nesting (map snd ?fs) \<le> max_nesting (map snd (obj_fields self))"
    by (rule max_nesting_mono) auto
  ultimately obtain o' where o': "object_try_from ?fs = Inr o'" "obj_fields o' = ?fs"
    using wf(1) sum_list_filter_le [of "\<lambda>(k, v). length k + 1 + cv_size v" "\<lambda>(k, _). keep k" "obj_fields self"]
    by (auto simp: object_try_from_iff)
  with assms have "wf_value (Object o')" by (auto simp: wf_value_object_iff bt_wf_filter)
  with o' show ?thesis by (auto simp: filter_fields_def object_get_def bt_get_filter_keys)
qed

theorem filter_fields_total_witness:
  "\<exists>o'. filter_system_fields (ConvexObject 10 1 [(ascii ''_id'', Null), (ascii ''a'', Null)]) = Inr o'
     \<and> object_get o' (ascii ''_id'') = None \<and> object_get o' (ascii ''a'') = Some Null"
proof -
  have w: "wf_value (Object (ConvexObject 10 1 [(ascii ''_id'', Null), (ascii ''a'', Null)])) "
    by (simp add: object_try_from_iff max_nesting_def MAX_OBJECT_FIELDS_def MAX_SIZE_def MAX_NESTING_def
        ascii_def bt_wf_Cons check_valid_field_name_iff MAX_FIELD_NAME_LENGTH_def)
  from filter_fields_total [OF w, of "\<lambda>k. \<not> field_name_is_system k"] show ?thesis
    by (auto simp: filter_system_fields_def field_name_is_system_def underscore_def ascii_def
        object_get_def bt_get_def)
qed

text \<open>
  The shallow merge of two well-formed objects, when it is within the limits, is a well-formed
  object in which every field has the value of the second object if it has the field there, and that
  of the first otherwise; it can only fail with a limit error reported to the client.
\<close>

theorem shallow_merge_lookup:
  assumes "wf_value (Object self)" and "wf_value (Object other)"
  shows "case shallow_merge self other of
      Inr m \<Rightarrow> wf_value (Object m)
        \<and> (\<forall>f. object_get m f = (case object_get other f of Some v \<Rightarrow> Some v | None \<Rightarrow> object_get self f))
    | Inl e \<Rightarrow> e \<in> BadRequest ` {''TooManyFieldsError'', ''ValueTooLargeError'', ''TooNestedError''}"
proof (cases "shallow_merge self other")
  case (Inl e)
  then have "e \<in> BadRequest ` {''TooManyFieldsError'', ''ValueTooLargeError'', ''TooNestedError''}"
    by (auto simp: shallow_merge_def object_try_from_def check_system_size_def check_nesting_def Let_def
        split: if_splits)
  with Inl show ?thesis by simp
next
  case (Inr m)
  let ?fs = "fold (\<lambda>(f, v) self_fields. bt_insert f v self_fields) (obj_fields other) (obj_fields self)"
  have m: "object_try_from ?fs = Inr m" using Inr by (simp add: shallow_merge_def)
  then have fs: "obj_fields m = ?fs" by (simp add: object_try_from_iff)
  have "bt_wf (obj_fields other)" "bt_wf (obj_fields self)"
    using assms by (simp_all add: wf_value_object_iff)
  then have "bt_wf ?fs"
    "\<And>f. bt_get ?fs f = (case bt_get (obj_fields other) f of Some v \<Rightarrow> Some v | None \<Rightarrow> bt_get (obj_fields self) f)"
    by (simp_all add: fold_insert_content(2) bt_get_fold_insert)
  moreover have "\<forall>f \<in> set ?fs. check_valid_field_name (fst f) = Inr () \<and> wf_value (snd f)"
    using fold_insert_content(1) [of "obj_fields other" "obj_fields self"] assms
    unfolding wf_value_object_iff by blast
  ultimately show ?thesis
    unfolding object_get_def using Inr m fs by (simp add: wf_value_object_iff)
qed

theorem shallow_merge_lookup_witness:
  "\<exists>m. shallow_merge (ConvexObject 5 1 [(ascii ''a'', Null)]) (ConvexObject 5 1 [(ascii ''a'', Boolean True)]) = Inr m
     \<and> object_get m (ascii ''a'') = Some (Boolean True)"
proof -
  have w: "wf_value (Object (ConvexObject 5 1 [(ascii ''a'', v)]))" if "v = Null \<or> v = Boolean True" for v
    using that by (auto simp: object_try_from_iff max_nesting_def MAX_OBJECT_FIELDS_def MAX_SIZE_def
        MAX_NESTING_def ascii_def bt_wf_Cons check_valid_field_name_iff MAX_FIELD_NAME_LENGTH_def)
  have r: "shallow_merge (ConvexObject 5 1 [(ascii ''a'', Null)]) (ConvexObject 5 1 [(ascii ''a'', Boolean True)])
    = Inr (ConvexObject 5 1 [(ascii ''a'', Boolean True)])"
    by (simp add: shallow_merge_def bt_insert_def object_try_from_iff max_nesting_def MAX_OBJECT_FIELDS_def
        MAX_SIZE_def MAX_NESTING_def ascii_def)
  from shallow_merge_lookup [OF w w, of Null "Boolean True"] r show ?thesis
    by (simp add: object_get_def bt_get_def)
qed

end
