(* ===== verification/Document_Id.thy ===== *)
theory Document_Id
  imports Base32 Convex_Value
begin

text \<open>
  Document ids (\<^verbatim>\<open>crates/value/src/id_v6.rs\<close>, and the id types of \<^verbatim>\<open>document_id.rs\<close> and \<^verbatim>\<open>table_name.rs\<close>).
  The string form is base 32 of the table number as a variable-length integer, the sixteen bytes of
  the internal id and a checksum.
\<close>

subsection \<open>Ids\<close>

type_synonym internal_id = bytes
type_synonym table_number = "32 word"
type_synonym tablet_id = internal_id

record DeveloperDocumentId =
  dev_table :: table_number
  dev_internal_id :: internal_id

record InternalDocumentId =
  int_table :: tablet_id
  int_internal_id :: internal_id

record ResolvedDocumentId =
  tablet_id :: tablet_id
  developer_id :: DeveloperDocumentId

definition table_number_try_from :: "32 word \<Rightarrow> error + table_number" where
  "table_number_try_from n = (if n > 0 then Inr n else Inl (Bail ''Condition failed: value > 0''))"

definition table_number_increment :: "table_number \<Rightarrow> error + table_number" where
  "table_number_increment n =
     (if unat n + 1 < 2 ^ 32 then Inr (n + 1) else Inl (Bail ''Table number overflow''))"

definition table_name_is_system :: "bytes \<Rightarrow> bool" where
  "table_name_is_system s \<longleftrightarrow> prefix (ascii ''_'') s"

definition table_name_from_str :: "bytes \<Rightarrow> error + bytes" where
  "table_name_from_str s = and_then (check_valid_identifier s) (\<lambda>_. Inr s)"

definition resolved_to_internal :: "ResolvedDocumentId \<Rightarrow> InternalDocumentId" where
  "resolved_to_internal r = \<lparr>int_table = tablet_id r, int_internal_id = dev_internal_id (developer_id r)\<rparr>"

definition internal_to_resolved :: "InternalDocumentId \<Rightarrow> table_number \<Rightarrow> ResolvedDocumentId" where
  "internal_to_resolved i n =
     \<lparr>tablet_id = int_table i, developer_id = \<lparr>dev_table = n, dev_internal_id = int_internal_id i\<rparr>\<rparr>"

subsection \<open>Variable-length integers and the checksum\<close>

function vint_encode :: "32 word \<Rightarrow> bytes" where
  "vint_encode n =
     (if n < 0b10000000 then [ucast n]
      else ucast ((n AND 0b01111111) OR 0b10000000) # vint_encode (drop_bit 7 n))"
  by auto
termination
proof (relation "measure unat")
  fix n :: "32 word"
  assume "\<not> n < 0b10000000"
  then have "128 \<le> unat n" by (simp add: word_less_nat_alt)
  then show "(drop_bit 7 n, n) \<in> measure unat" by (simp add: drop_bit_eq_div unat_div)
qed simp

declare vint_encode.simps [simp del]

definition vint_len :: "32 word \<Rightarrow> nat" where
  "vint_len n =
     (if n < push_bit 7 1 then 1 else if n < push_bit 14 1 then 2 else if n < push_bit 21 1 then 3
      else if n < push_bit 28 1 then 4 else 5)"

datatype VintDecodeError = TooLarge | Truncated

fun vint_decode_loop :: "nat \<Rightarrow> 32 word \<Rightarrow> bytes \<Rightarrow> VintDecodeError + 32 word \<times> nat" where
  "vint_decode_loop i n [] = (if i \<ge> 5 then Inl TooLarge else Inl Truncated)"
| "vint_decode_loop i n (b # buf) =
     (if i \<ge> 5 then Inl TooLarge
      else let byte = ucast b; n' = n OR push_bit (i * 7) (byte AND 0b01111111)
           in if byte < 0b10000000 then Inr (n', Suc i) else vint_decode_loop (Suc i) n' buf)"

definition vint_decode :: "bytes \<Rightarrow> VintDecodeError + 32 word \<times> nat" where
  "vint_decode buf = vint_decode_loop 0 0 buf"

definition fletcher16 :: "bytes \<Rightarrow> 16 word" where
  "fletcher16 buf =
     (let (c0, c1) = foldl (\<lambda>(c0, c1) byte. let c0' = c0 + byte in (c0', c1 + c0')) (0 :: byte, 0 :: byte) buf
      in push_bit 8 (ucast c1) OR ucast c0)"

definition u16_to_le_bytes :: "16 word \<Rightarrow> bytes" where
  "u16_to_le_bytes w = [ucast w, ucast (drop_bit 8 w)]"

definition u16_from_le_bytes :: "bytes \<Rightarrow> 16 word" where
  "u16_from_le_bytes bs = ucast (bs ! 0) OR push_bit 8 (ucast (bs ! 1))"

subsection \<open>The string form\<close>

definition VERSION :: "16 word" where
  "VERSION = 0"

definition MIN_BINARY_LEN :: nat where
  "MIN_BINARY_LEN = 1 + 16 + 2"

definition MAX_BINARY_LEN :: nat where
  "MAX_BINARY_LEN = 5 + 16 + 2"

datatype IdDecodeError =
    InvalidBase32 InvalidBase32Error
  | InvalidLength nat
  | InvalidTableNumber VintDecodeError
  | ZeroTableNumber
  | InvalidIdVersion "16 word" "16 word"
  | IdPanic string

definition id_encoded_len :: "DeveloperDocumentId \<Rightarrow> nat" where
  "id_encoded_len did = b32_encoded_len (vint_len (dev_table did) + 16 + 2)"

text \<open>
  The id is assembled in a buffer of \<open>MAX_BINARY_LEN\<close> bytes; writing beyond its end panics, as does
  copying an internal id that does not have sixteen bytes.
\<close>

definition id_encode_into :: "DeveloperDocumentId \<Rightarrow> bytes \<Rightarrow> error + bytes" where
  "id_encode_into did out =
     (let body = vint_encode (dev_table did) @ dev_internal_id did;
          footer = fletcher16 body XOR VERSION;
          buf = body @ u16_to_le_bytes footer
      in if length (dev_internal_id did) \<noteq> 16 \<or> length buf > MAX_BINARY_LEN
         then Inl (Panic ''range end index out of range for slice'')
         else and_then (b32_encode_into out buf) (\<lambda>out'. Inr (take (b32_encoded_len (length buf)) out')))"

definition id_encode :: "DeveloperDocumentId \<Rightarrow> error + bytes" where
  "id_encode did = id_encode_into did (replicate (b32_encoded_buffer_len MAX_BINARY_LEN) 0)"

definition id_decode :: "bytes \<Rightarrow> IdDecodeError + DeveloperDocumentId" where
  "id_decode s =
     (if length s < b32_encoded_len MIN_BINARY_LEN \<or> b32_encoded_len MAX_BINARY_LEN < length s
      then Inl (InvalidLength (length s))
      else case b32_decode s of
        Inl e \<Rightarrow> Inl (InvalidBase32 e)
      | Inr buf \<Rightarrow>
         (case vint_decode buf of
            Inl e \<Rightarrow> Inl (InvalidTableNumber e)
          | Inr (table_number, pos) \<Rightarrow>
             (case table_number_try_from table_number of
                Inl _ \<Rightarrow> Inl ZeroTableNumber
              | Inr table_number \<Rightarrow>
                  if length buf < pos + 16 then Inl (InvalidLength (length s))
                  else if length buf < pos + 16 + 2 then Inl (InvalidLength (length s))
                  else
                    let internal_id = take 16 (drop pos buf);
                        expected_footer = fletcher16 (take (pos + 16) buf) XOR VERSION;
                        footer = u16_from_le_bytes (take 2 (drop (pos + 16) buf))
                    in if expected_footer \<noteq> footer then Inl (InvalidIdVersion footer expected_footer)
                       else if pos + 16 + 2 \<noteq> length buf then Inl (InvalidLength (length s))
                       else let did = \<lparr>dev_table = table_number, dev_internal_id = internal_id\<rparr>
                            in case id_encode did of
                                 Inl _ \<Rightarrow> Inl (IdPanic ''range end index out of range for slice'')
                               | Inr e \<Rightarrow> if e \<noteq> s then Inl (InvalidLength (length s)) else Inr did)))"

definition is_noncanonical_id :: "bytes \<Rightarrow> error + bool" where
  "is_noncanonical_id s =
     (case id_decode s of
        Inl (IdPanic e) \<Rightarrow> Inl (Panic e)
      | Inl _ \<Rightarrow> Inr False
      | Inr did \<Rightarrow> and_then (id_encode did) (\<lambda>e. Inr (s \<noteq> e)))"

definition id_to_resolved ::
  "DeveloperDocumentId \<Rightarrow> (table_number \<Rightarrow> error + tablet_id) \<Rightarrow> error + ResolvedDocumentId" where
  "id_to_resolved did f = and_then (f (dev_table did)) (\<lambda>t. Inr \<lparr>tablet_id = t, developer_id = did\<rparr>)"

text \<open>Ids as values.\<close>

definition id_to_value :: "DeveloperDocumentId \<Rightarrow> error + ConvexValue" where
  "id_to_value did =
     and_then (id_encode did)
       (\<lambda>s. case string_try_from s of
              Inl _ \<Rightarrow> Inl (Panic ''Could not create Value::String for ID string'')
            | Inr s' \<Rightarrow> Inr (String s'))"

fun id_from_value :: "ConvexValue \<Rightarrow> error + DeveloperDocumentId" where
  "id_from_value (String s) =
     (case id_decode s of Inl _ \<Rightarrow> Inl (Bail ''Unable to decode ID'') | Inr did \<Rightarrow> Inr did)"
| "id_from_value _ = Inl (Bail ''Value is not an ID'')"

subsection \<open>Variable-length integers\<close>

lemma mask7: "(0b01111111 :: 32 word) = mask 7"
  by (simp add: mask_eq_exp_minus_1)

lemma vint_encode_small: "n < 128 \<Longrightarrow> vint_encode n = [ucast n]"
  by (simp add: vint_encode.simps)

lemma vint_encode_large:
  "\<not> n < 128 \<Longrightarrow> vint_encode n = ucast ((n AND mask 7) OR 128) # vint_encode (drop_bit 7 n)"
  by (simp add: vint_encode.simps [of n] mask7 [simplified])

lemma unat_drop_bit7: "unat (drop_bit 7 n) = unat (n :: 32 word) div 128"
  by (simp add: drop_bit_eq_div unat_div)

lemma vint_encode_upper: "unat n < 128 ^ Suc k \<Longrightarrow> length (vint_encode n) \<le> Suc k"
proof (induction k arbitrary: n)
  case 0
  then show ?case by (simp add: vint_encode_small word_less_nat_alt)
next
  case (Suc k)
  show ?case
  proof (cases "n < 128")
    case False
    have "unat (drop_bit 7 n) < 128 ^ Suc k"
      using Suc.prems by (simp add: unat_drop_bit7 less_mult_imp_div_less mult.commute)
    with Suc.IH False show ?thesis by (simp add: vint_encode_large)
  qed (simp add: vint_encode_small)
qed

lemma vint_encode_lower: "128 ^ k \<le> unat n \<Longrightarrow> k < length (vint_encode n)"
proof (induction k arbitrary: n)
  case 0
  then show ?case by (cases "n < 128") (simp_all add: vint_encode_small vint_encode_large)
next
  case (Suc k)
  have "128 \<le> (128 :: nat) ^ Suc k" by simp
  from order_trans [OF this Suc.prems] have n: "\<not> n < 128" by (simp add: word_less_nat_alt)
  have "128 ^ k \<le> unat n div 128"
    using div_le_mono [OF Suc.prems, of 128] by simp
  with Suc.IH [of "drop_bit 7 n"] n show ?case by (simp add: vint_encode_large unat_drop_bit7)
qed

lemma vint_encode_length_bounds: "0 < length (vint_encode n)" "length (vint_encode n) \<le> 5"
proof -
  show "0 < length (vint_encode n)" by (cases "n < 128") (simp_all add: vint_encode_small vint_encode_large)
  have "unat n < 128 ^ Suc 4" using unsigned_less [of n, where 'a = nat] by simp
  from vint_encode_upper [OF this] show "length (vint_encode n) \<le> 5" by simp
qed

lemma vint_len_correct: "vint_len n = length (vint_encode n)"
proof -
  have "unat n < 128 ^ 5" using unsigned_less [of n, where 'a = nat] by simp
  then consider "unat n < 128" | "128 \<le> unat n" "unat n < 128 ^ 2" | "128 ^ 2 \<le> unat n" "unat n < 128 ^ 3"
    | "128 ^ 3 \<le> unat n" "unat n < 128 ^ 4" | "128 ^ 4 \<le> unat n"
    by linarith
  then show ?thesis
  proof cases
    case 1
    then show ?thesis by (simp add: vint_len_def vint_encode_small word_less_nat_alt)
  next
    case 2
    with vint_encode_upper [of n 1] vint_encode_lower [of 1 n] show ?thesis
      by (simp add: vint_len_def word_less_nat_alt)
  next
    case 3
    with vint_encode_upper [of n 2] vint_encode_lower [of 2 n] show ?thesis
      by (simp add: vint_len_def word_less_nat_alt)
  next
    case 4
    with vint_encode_upper [of n 3] vint_encode_lower [of 3 n] show ?thesis
      by (simp add: vint_len_def word_less_nat_alt)
  next
    case 5
    with vint_encode_length_bounds [of n] vint_encode_lower [of 4 n] show ?thesis
      by (simp add: vint_len_def word_less_nat_alt)
  qed
qed

lemma low_high_bits: "(n AND mask 7) OR push_bit 7 (drop_bit 7 n) = (n :: 32 word)"
proof (rule bit_word_eqI)
  fix k show "bit ((n AND mask 7) OR push_bit 7 (drop_bit 7 n)) k = bit n k" if "k < LENGTH(32)"
    using that by (cases "k < 7") (auto simp: bit_simps)
qed

lemma small_bits: "(n :: 32 word) < 128 \<Longrightarrow> bit n k \<Longrightarrow> k < 7"
proof -
  assume "n < 128" "bit n k"
  then have "take_bit 7 n = n"
    by (simp add: word_unat_eq_iff unsigned_take_bit_eq take_bit_nat_eq_self_iff word_less_nat_alt)
  with \<open>bit n k\<close> show "k < 7" by (metis bit_take_bit_iff)
qed

lemma bit_128: "bit (128 :: 32 word) k \<longleftrightarrow> k = 7" "bit (128 :: byte) k \<longleftrightarrow> k = 7" "bit (128 :: int) k \<longleftrightarrow> k = 7"
proof -
  have "(128 :: 32 word) = 2 ^ 7" "(128 :: byte) = 2 ^ 7" "(128 :: int) = 2 ^ 7" by simp_all
  then show "bit (128 :: 32 word) k \<longleftrightarrow> k = 7" "bit (128 :: byte) k \<longleftrightarrow> k = 7" "bit (128 :: int) k \<longleftrightarrow> k = 7"
    by (simp_all only: bit_exp_iff) auto
qed

lemma vint_decode_loop_inverse:
  "i + length (vint_encode n) \<le> 5 \<Longrightarrow>
     vint_decode_loop i acc (vint_encode n @ rest)
       = Inr (acc OR push_bit (i * 7) n, i + length (vint_encode n))"
proof (induction n arbitrary: i acc rule: vint_encode.induct)
  case (1 n)
  show ?case
  proof (cases "n < 128")
    case True
    have u: "(ucast (ucast n :: byte) :: 32 word) = n"
      by (rule bit_word_eqI) (use small_bits [OF True] in \<open>force simp: bit_simps\<close>)
    have "n AND mask 7 = n"
      by (rule bit_word_eqI) (use small_bits [OF True] in \<open>force simp: bit_simps\<close>)
    with True u show ?thesis
      using "1.prems" by (simp add: vint_encode_small Let_def mask7 [simplified] flip: push_bit_and)
  next
    case False
    let ?b = "(n AND mask 7) OR 128 :: 32 word"
    have u: "(ucast (ucast ?b :: byte) :: 32 word) = ?b"
      by (rule bit_word_eqI) (auto simp: bit_simps bit_128)
    have lo: "?b AND mask 7 = n AND mask 7"
      by (rule bit_word_eqI) (auto simp: bit_simps bit_128)
    have hi: "\<not> ?b < 128"
      using small_bits [of ?b 7] by (auto simp: bit_simps bit_128)
    have len: "length (vint_encode n) = Suc (length (vint_encode (drop_bit 7 n)))"
      using False by (simp add: vint_encode_large)
    then have i: "\<not> 5 \<le> i" using "1.prems" by simp
    have "(acc OR push_bit (i * 7) (n AND mask 7)) OR push_bit (Suc i * 7) (drop_bit 7 n)
        = acc OR push_bit (i * 7) ((n AND mask 7) OR push_bit 7 (drop_bit 7 n))"
      by (simp add: push_bit_or or.assoc add.commute)
    then have acc: "(acc OR push_bit (i * 7) (n AND mask 7)) OR push_bit (Suc i * 7) (drop_bit 7 n)
        = acc OR push_bit (i * 7) n"
      by (simp only: low_high_bits)
    have "vint_decode_loop i acc (vint_encode n @ rest)
       = vint_decode_loop (Suc i) (acc OR push_bit (i * 7) (n AND mask 7)) (vint_encode (drop_bit 7 n) @ rest)"
      by (simp only: vint_encode_large [OF False] append_Cons vint_decode_loop.simps Let_def mask7 u lo hi i if_False)
    also have "\<dots> = Inr ((acc OR push_bit (i * 7) (n AND mask 7)) OR push_bit (Suc i * 7) (drop_bit 7 n),
           Suc i + length (vint_encode (drop_bit 7 n)))"
      using False "1.prems" len by (intro "1.IH") simp_all
    finally show ?thesis by (simp only: acc len) simp
  qed
qed

subsection \<open>Encoding and decoding ids\<close>

lemma u16_le_inverse: "u16_from_le_bytes (u16_to_le_bytes w) = w"
proof (rule bit_word_eqI)
  fix k show "bit (u16_from_le_bytes (u16_to_le_bytes w)) k = bit w k" if "k < LENGTH(16)"
    using that by (cases "k < 8") (auto simp: u16_from_le_bytes_def u16_to_le_bytes_def bit_simps)
qed

definition wf_id :: "DeveloperDocumentId \<Rightarrow> bool" where
  "wf_id did \<longleftrightarrow> dev_table did \<noteq> 0 \<and> length (dev_internal_id did) = 16"

definition id_binary :: "DeveloperDocumentId \<Rightarrow> bytes" where
  "id_binary did =
     (let body = vint_encode (dev_table did) @ dev_internal_id did
      in body @ u16_to_le_bytes (fletcher16 body XOR VERSION))"

lemma length_id_binary:
  assumes "length (dev_internal_id did) = 16"
  shows "length (id_binary did) = length (vint_encode (dev_table did)) + 18"
  using assms by (simp add: id_binary_def Let_def u16_to_le_bytes_def)

lemma id_binary_range:
  assumes "length (dev_internal_id did) = 16"
  shows "length (id_binary did) \<in> {19, 20, 21, 22, 23}"
proof -
  let ?k = "length (vint_encode (dev_table did))"
  have "?k = 1 \<or> ?k = 2 \<or> ?k = 3 \<or> ?k = 4 \<or> ?k = 5"
    using vint_encode_length_bounds [of "dev_table did"] by linarith
  then show ?thesis by (elim disjE) (simp_all add: length_id_binary [OF assms])
qed

lemma id_encode_b32:
  assumes "length (dev_internal_id did) = 16"
  shows "id_encode did = b32_encode (id_binary did)"
proof -
  let ?n = "length (id_binary did)"
  have n: "?n \<le> MAX_BINARY_LEN" "b32_encoded_buffer_len ?n \<le> b32_encoded_buffer_len MAX_BINARY_LEN"
    "b32_encoded_len ?n \<le> b32_encoded_buffer_len ?n"
    using id_binary_range [OF assms]
    by (auto simp: b32_encoded_buffer_len_def b32_encoded_len_def MAX_BINARY_LEN_def Let_def)
  then have "b32_encode_into (replicate (b32_encoded_buffer_len MAX_BINARY_LEN) 0) (id_binary did)
      = Inr (padded_encoding (id_binary did)
          @ drop (b32_encoded_buffer_len ?n) (replicate (b32_encoded_buffer_len MAX_BINARY_LEN) 0))"
    by (intro b32_encode_into_buffer) simp
  moreover have "id_encode did =
      (if length (dev_internal_id did) \<noteq> 16 \<or> length (id_binary did) > MAX_BINARY_LEN
       then Inl (Panic ''range end index out of range for slice'')
       else and_then (b32_encode_into (replicate (b32_encoded_buffer_len MAX_BINARY_LEN) 0) (id_binary did))
         (\<lambda>out'. Inr (take (b32_encoded_len ?n) out')))"
    by (simp only: id_encode_def id_encode_into_def id_binary_def Let_def)
  ultimately show ?thesis using assms n by (simp add: b32_encode_eq length_padded_encoding)
qed

lemma id_encode_total:
  assumes "length (dev_internal_id did) = 16"
  obtains s where "id_encode did = Inr s" "length s = b32_encoded_len (length (id_binary did))"
    "b32_decode s = Inr (id_binary did)"
  using base32_inverse [of "id_binary did"] id_encode_b32 [OF assms] that by auto

lemma id_binary_parse:
  assumes "wf_id did"
  shows "vint_decode (id_binary did) = Inr (dev_table did, length (vint_encode (dev_table did)))"
    "take 16 (drop (length (vint_encode (dev_table did))) (id_binary did)) = dev_internal_id did"
    "u16_from_le_bytes (take 2 (drop (length (vint_encode (dev_table did)) + 16) (id_binary did)))
       = fletcher16 (take (length (vint_encode (dev_table did)) + 16) (id_binary did)) XOR VERSION"
proof -
  let ?v = "vint_encode (dev_table did)"
  let ?f = "fletcher16 (?v @ dev_internal_id did) XOR VERSION"
  have l: "length (dev_internal_id did) = 16" using assms by (simp add: wf_id_def)
  have b: "id_binary did = ?v @ dev_internal_id did @ u16_to_le_bytes ?f" by (simp add: id_binary_def Let_def)
  show "vint_decode (id_binary did) = Inr (dev_table did, length ?v)"
    using vint_decode_loop_inverse [of 0 "dev_table did" 0] vint_encode_length_bounds
    by (simp add: vint_decode_def b)
  show "take 16 (drop (length ?v) (id_binary did)) = dev_internal_id did" using l by (simp add: b)
  have "take 2 (u16_to_le_bytes ?f) = u16_to_le_bytes ?f" by (simp add: u16_to_le_bytes_def)
  then show "u16_from_le_bytes (take 2 (drop (length ?v + 16) (id_binary did)))
      = fletcher16 (take (length ?v + 16) (id_binary did)) XOR VERSION"
    using l by (simp add: b u16_le_inverse)
qed

lemma id_decode_encode:
  assumes "wf_id did" "id_encode did = Inr s"
  shows "id_decode s = Inr did"
proof -
  have l: "length (dev_internal_id did) = 16" and t: "dev_table did > 0"
    using assms(1) by (simp_all add: wf_id_def word_gt_0)
  have s: "length s = b32_encoded_len (length (id_binary did))" "b32_decode s = Inr (id_binary did)"
    using id_encode_total [OF l] assms(2) by auto
  have "\<not> (length s < b32_encoded_len MIN_BINARY_LEN \<or> b32_encoded_len MAX_BINARY_LEN < length s)"
    using id_binary_range [OF l] unfolding s(1)
    by (auto simp: b32_encoded_len_def MIN_BINARY_LEN_def MAX_BINARY_LEN_def Let_def)
  then show ?thesis
    using s(2) id_binary_parse [OF assms(1)] length_id_binary [OF l] t assms(2)
    by (cases did) (simp add: id_decode_def table_number_try_from_def Let_def)
qed

lemma id_decode_sound:
  assumes "id_decode s = Inr did"
  shows "wf_id did \<and> id_encode did = Inr s"
  using assms
  by (auto simp: id_decode_def Let_def wf_id_def table_number_try_from_def
      split: if_splits sum.splits prod.splits)

lemma id_encode_Inl_length: "id_encode \<lparr>dev_table = t, dev_internal_id = i\<rparr> = Inl e \<Longrightarrow> length i \<noteq> 16"
  using id_encode_total [of "\<lparr>dev_table = t, dev_internal_id = i\<rparr>"] by auto

lemma id_decode_no_panic: "id_decode s \<noteq> Inl (IdPanic e)"
  by (auto simp: id_decode_def Let_def split: sum.splits prod.splits dest!: id_encode_Inl_length)

subsection \<open>The error of the base 32 decoder\<close>

lemma decode_table_ascii: "DECODE_TABLE ! unat (c :: byte) \<noteq> 0xFF \<Longrightarrow> c < 128"
proof -
  have "list_all (\<lambda>i. DECODE_TABLE ! i = 0xFF) [128..<256]" by code_simp
  then have "\<forall>i \<in> {128..<256}. DECODE_TABLE ! i = 0xFF" by (simp only: list_all_iff set_upt)
  moreover have "unat c < 256" using unsigned_less [of c, where 'a = nat] by simp
  ultimately have "128 \<le> unat c \<Longrightarrow> DECODE_TABLE ! unat c = 0xFF" by auto
  then show "DECODE_TABLE ! unat c \<noteq> 0xFF \<Longrightarrow> c < 128" by (cases "128 \<le> unat c") (simp_all add: word_less_nat_alt)
qed

lemma decode_chunk_error:
  "decode_chunk pos chunk = Inl p \<Longrightarrow> \<exists>i < length chunk. p = pos + i \<and> (\<forall>j < i. chunk ! j < 128)"
proof (induction chunk arbitrary: pos)
  case (Cons c chunk)
  show ?case
  proof (cases "DECODE_TABLE ! unat c = 0xFF")
    case True
    then show ?thesis using Cons.prems by auto
  next
    case False
    then have "decode_chunk (Suc pos) chunk = Inl p"
      using Cons.prems by (cases "decode_chunk (Suc pos) chunk") (simp_all add: Let_def)
    then obtain i where "i < length chunk" "p = Suc pos + i" "\<forall>j < i. chunk ! j < 128" using Cons.IH by blast
    then show ?thesis using decode_table_ascii [OF False] by (intro exI [of _ "Suc i"]) (auto simp: less_Suc_eq_0_disj)
  qed
qed simp

lemma decode_chunk_ascii: "decode_chunk pos chunk = Inr ix \<Longrightarrow> c \<in> set chunk \<Longrightarrow> c < 128"
  by (induction chunk arbitrary: pos ix) (auto simp: Let_def and_then_Inr_iff split: if_splits dest: decode_table_ascii)

lemma decode_chunks_error:
  "decode_chunks pos data = Inl p \<Longrightarrow> \<exists>i < length data. p = pos + i \<and> (\<forall>j < i. data ! j < 128)"
proof (induction pos data rule: decode_chunks.induct)
  case (1 pos data)
  have data: "data \<noteq> []" using 1 by (auto simp: decode_chunks.simps)
  show ?case
  proof (cases "decode_chunk pos (take 8 data)")
    case (Inl q)
    then have "q = p" using 1 data by (simp add: decode_chunks.simps [of pos])
    with decode_chunk_error [OF Inl] show ?thesis by auto
  next
    case (Inr ix)
    then have "decode_chunks (pos + 8) (drop 8 data) = Inl p"
      using 1 data by (cases "decode_chunks (pos + 8) (drop 8 data)") (simp_all add: decode_chunks.simps [of pos])
    then obtain i where i: "i < length (drop 8 data)" "p = pos + 8 + i" "\<forall>j < i. drop 8 data ! j < 128"
      using 1(1) [OF data] by blast
    have "data ! j < 128" if "j < 8 + i" for j
    proof (cases "j < 8")
      case True
      then have "data ! j = take 8 data ! j" "j < length (take 8 data)" using i(1) by auto
      then show ?thesis using decode_chunk_ascii [OF Inr] by (metis nth_mem)
    next
      case False
      then show ?thesis using i(1) i(3) [rule_format, of "j - 8"] that by simp
    qed
    with i show ?thesis by (intro exI [of _ "8 + i"]) auto
  qed
qed

lemma utf8_boundary:
  "utf8_valid s \<Longrightarrow> i < length s \<Longrightarrow> \<forall>j < i. s ! j < 128 \<Longrightarrow> \<not> continuation (s ! i)"
proof (induction s arbitrary: i)
  case (Cons a s)
  show ?case
  proof (cases i)
    case 0
    have "\<not> continuation a"
    proof
      assume a: "continuation a"
      have "\<not> a < 0x80" "\<not> 0xC2 \<le> a" "\<not> 0xE0 \<le> a" "\<not> 0xF0 \<le> a"
        using a by (simp_all add: word_le_nat_alt word_less_nat_alt)
      with Cons.prems(1) show False by (simp split: list.splits)
    qed
    with 0 show ?thesis by simp
  next
    case (Suc k)
    have "\<forall>j < k. s ! j < 128"
    proof (intro allI impI)
      fix j assume "j < k"
      then show "s ! j < 128" using Cons.prems(3) [rule_format, of "Suc j"] Suc by simp
    qed
    moreover have "a < 128" using Cons.prems(3) [rule_format, of 0] Suc by simp
    then have "utf8_valid s" using Cons.prems(1) by simp
    ultimately have "\<not> continuation (s ! k)" using Cons.prems(2) Suc by (intro Cons.IH) simp_all
    then show ?thesis using Suc by simp
  qed
qed simp

text \<open>
  The character that the decoder reports for a string is one of the string: the position is inside
  of the string and at the start of a character, so that slicing the string there does not panic.
\<close>

lemma decode_error_boundary:
  assumes "utf8_valid s" "b32_decode s = Inl e"
  shows "position e < length s \<and> \<not> continuation (s ! position e)"
proof -
  have "decode_chunks 0 s = Inl (position e)"
    using assms(2) by (auto simp: b32_decode_def split: sum.splits)
  from decode_chunks_error [OF this] show ?thesis using utf8_boundary [OF assms(1)] by auto
qed

subsection \<open>Properties\<close>

text \<open>
  C24: decoding and encoding of document ids are inverse: a string decodes to an id exactly when the
  id is valid (a non-zero table number and sixteen bytes of internal id) and the string is its
  encoding. So every id has one string form, no string has two meanings, and no decoding panics.
\<close>

theorem document_id_one_to_one:
  "(id_decode s = Inr did \<longleftrightarrow>
      dev_table did \<noteq> 0 \<and> length (dev_internal_id did) = 16 \<and> id_encode did = Inr s)
   \<and> id_decode s \<noteq> Inl (IdPanic e)"
proof -
  have "id_decode s = Inr did \<longleftrightarrow> wf_id did \<and> id_encode did = Inr s"
    using id_decode_encode id_decode_sound by blast
  then show ?thesis by (simp add: wf_id_def id_decode_no_panic)
qed

text \<open>
  Encoding a document id with sixteen bytes of internal id never runs past its buffers, the
  length of the string is the one \<^verbatim>\<open>encoded_len\<close> announces, between 31 and 37 characters, and the
  variable-length table number has the length \<^verbatim>\<open>vint_len\<close> computes upfront.
\<close>

theorem document_id_length:
  assumes "length (dev_internal_id did) = 16"
  shows "\<exists>s. id_encode did = Inr s \<and> length s = id_encoded_len did \<and> 31 \<le> length s \<and> length s \<le> 37
    \<and> vint_len (dev_table did) = length (vint_encode (dev_table did))"
proof -
  obtain s where s: "id_encode did = Inr s" "length s = b32_encoded_len (length (id_binary did))"
    using id_encode_total [OF assms] by metis
  have "31 \<le> b32_encoded_len (length (id_binary did))" "b32_encoded_len (length (id_binary did)) \<le> 37"
    using id_binary_range [OF assms] by (auto simp: b32_encoded_len_def Let_def)
  with s show ?thesis
    by (simp add: vint_len_correct id_encoded_len_def length_id_binary [OF assms] add.commute)
qed

theorem document_id_length_witness:
  "\<exists>s. id_encode \<lparr>dev_table = 10001, dev_internal_id = replicate 16 7\<rparr> = Inr s \<and> length s = 32"
proof -
  have "length (dev_internal_id \<lparr>dev_table = 10001, dev_internal_id = replicate 16 7\<rparr>) = 16" by simp
  from document_id_length [OF this] show ?thesis
    by (auto simp: id_encoded_len_def vint_len_def b32_encoded_len_def)
qed

end
