(* ===== verification/Index_Names.thy ===== *)
theory Index_Names
  imports Document_Id
begin

text \<open>
  Names of indexes (\<^verbatim>\<open>src/crates/common/src/types/index.rs\<close>). A name is a table and a descriptor;
  the table is given by its name or by its tablet id. Names are ordered by table first, and the
  least descriptor bounds every valid one from below, which lets an ordered map of indexes be read
  one table at a time (\<^verbatim>\<open>iter_indexes_for_table\<close> of \<^verbatim>\<open>src/crates/database/src/reads.rs\<close>).
\<close>

subsection \<open>Descriptors\<close>

type_synonym IndexDescriptor = bytes

definition MIN_IDENTIFIER :: bytes where
  "MIN_IDENTIFIER = ascii ''A''"

definition descriptor_MIN :: IndexDescriptor where
  "descriptor_MIN = MIN_IDENTIFIER"

definition INDEX_BY_ID_DESCRIPTOR :: IndexDescriptor where
  "INDEX_BY_ID_DESCRIPTOR = ascii ''by_id''"

definition INDEX_BY_CREATION_TIME_DESCRIPTOR :: IndexDescriptor where
  "INDEX_BY_CREATION_TIME_DESCRIPTOR = ascii ''by_creation_time''"

definition is_reserved :: "IndexDescriptor \<Rightarrow> bool" where
  "is_reserved d \<longleftrightarrow> d = INDEX_BY_ID_DESCRIPTOR \<or> d = INDEX_BY_CREATION_TIME_DESCRIPTOR
     \<or> (d \<noteq> [] \<and> hd d = underscore)"

definition descriptor_new :: "bytes \<Rightarrow> error + IndexDescriptor" where
  "descriptor_new s = (case check_valid_identifier s of
     Inl _ \<Rightarrow> Inl (BadRequest ''InvalidIndexName'') | Inr _ \<Rightarrow> Inr s)"

subsection \<open>Index names\<close>

datatype 't GenericIndexName = GenericIndexName (index_table: 't) (descriptor: IndexDescriptor)

type_synonym IndexName = "bytes GenericIndexName"
type_synonym TabletIndexName = "tablet_id GenericIndexName"

text \<open>The derived order: by table, then by descriptor.\<close>

instantiation GenericIndexName :: (linorder) linorder
begin

definition less_eq_GenericIndexName :: "'a GenericIndexName \<Rightarrow> 'a GenericIndexName \<Rightarrow> bool" where
  "m \<le> n \<longleftrightarrow> index_table m < index_table n \<or> index_table m = index_table n \<and> descriptor m \<le> descriptor n"

definition less_GenericIndexName :: "'a GenericIndexName \<Rightarrow> 'a GenericIndexName \<Rightarrow> bool" where
  "m < n \<longleftrightarrow> index_table m < index_table n \<or> index_table m = index_table n \<and> descriptor m < descriptor n"

instance
  by standard (auto simp: less_eq_GenericIndexName_def less_GenericIndexName_def GenericIndexName.expand)

end

definition index_name_new :: "'t \<Rightarrow> IndexDescriptor \<Rightarrow> error + 't GenericIndexName" where
  "index_name_new table d = and_then (check_valid_identifier d)
     (\<lambda>_. if is_reserved d then Inl (BadRequest ''IndexNameReserved'') else Inr (GenericIndexName table d))"

definition index_name_new_reserved :: "'t \<Rightarrow> IndexDescriptor \<Rightarrow> error + 't GenericIndexName" where
  "index_name_new_reserved table d = and_then (check_valid_identifier d)
     (\<lambda>_. if is_reserved d then Inr (GenericIndexName table d)
           else Inl (Bail ''Index descriptor is not reserved''))"

definition by_id :: "'t \<Rightarrow> 't GenericIndexName" where
  "by_id table = GenericIndexName table INDEX_BY_ID_DESCRIPTOR"

definition by_creation_time :: "'t \<Rightarrow> 't GenericIndexName" where
  "by_creation_time table = GenericIndexName table INDEX_BY_CREATION_TIME_DESCRIPTOR"

definition min_for_table :: "'t \<Rightarrow> 't GenericIndexName" where
  "min_for_table table = GenericIndexName table descriptor_MIN"

definition is_by_id :: "'t GenericIndexName \<Rightarrow> bool" where
  "is_by_id n \<longleftrightarrow> descriptor n = INDEX_BY_ID_DESCRIPTOR"

definition is_creation_time :: "'t GenericIndexName \<Rightarrow> bool" where
  "is_creation_time n \<longleftrightarrow> descriptor n = INDEX_BY_CREATION_TIME_DESCRIPTOR"

definition is_by_id_or_creation_time :: "'t GenericIndexName \<Rightarrow> bool" where
  "is_by_id_or_creation_time n \<longleftrightarrow> is_by_id n \<or> is_creation_time n"

definition map_table :: "('t \<Rightarrow> 'e + 'u) \<Rightarrow> 't GenericIndexName \<Rightarrow> 'e + 'u GenericIndexName" where
  "map_table f n = and_then (f (index_table n)) (\<lambda>t. Inr (GenericIndexName t (descriptor n)))"

definition is_system_owned :: "IndexName \<Rightarrow> bool" where
  "is_system_owned n \<longleftrightarrow> table_name_is_system (index_table n) \<or> is_reserved (descriptor n)"

definition index_name_to_resolved :: "IndexName \<Rightarrow> (bytes \<Rightarrow> error + tablet_id) \<Rightarrow> error + TabletIndexName" where
  "index_name_to_resolved n f = and_then (f (index_table n)) (\<lambda>t. Inr (GenericIndexName t (descriptor n)))"

text \<open>
  Parsing and printing; the parser and the printer of the table are those of the type
  parameter.
\<close>

definition index_name_from_str :: "(bytes \<Rightarrow> error + 't) \<Rightarrow> bytes \<Rightarrow> error + 't GenericIndexName" where
  "index_name_from_str parse s = (case split_dots s of
     [] \<Rightarrow> Inl (BadRequest ''IndexNotEnoughNameComponents'')
   | t # parts \<Rightarrow>
       (case parse t of
          Inl _ \<Rightarrow> Inl (BadRequest ''InvalidTableName'')
        | Inr table \<Rightarrow>
            (case parts of
               [] \<Rightarrow> Inl (BadRequest ''IndexNotEnoughNameComponents'')
             | d # rest \<Rightarrow>
                 (case descriptor_new d of
                    Inl _ \<Rightarrow> Inl (BadRequest ''InvalidTableName'')
                  | Inr d' \<Rightarrow>
                      if rest \<noteq> [] then Inl (BadRequest ''IndexTooManyNameComponents'')
                      else Inr (GenericIndexName table d')))))"

definition index_name_to_string :: "('t \<Rightarrow> bytes) \<Rightarrow> 't GenericIndexName \<Rightarrow> bytes" where
  "index_name_to_string show_table n = show_table (index_table n) @ dot # descriptor n"

datatype StableIndexName =
    Physical TabletIndexName
  | Virtual IndexName TabletIndexName
  | Missing IndexName

fun tablet_index_name :: "StableIndexName \<Rightarrow> TabletIndexName option" where
  "tablet_index_name (Physical n) = Some n"
| "tablet_index_name (Virtual _ n) = Some n"
| "tablet_index_name (Missing _) = None"

fun tablet_index_name_or_missing :: "StableIndexName \<Rightarrow> IndexName + TabletIndexName" where
  "tablet_index_name_or_missing (Physical n) = Inr n"
| "tablet_index_name_or_missing (Virtual _ n) = Inr n"
| "tablet_index_name_or_missing (Missing n) = Inl n"

subsection \<open>One table's part of a map of indexes\<close>

definition iter_indexes_for_table :: "(TabletIndexName, 'v) btree_map \<Rightarrow> tablet_id \<Rightarrow> (TabletIndexName \<times> 'v) list" where
  "iter_indexes_for_table m t =
     takeWhile (\<lambda>e. index_table (fst e) = t) (filter (\<lambda>e. min_for_table t \<le> fst e) m)"

subsection \<open>Valid names\<close>

definition valid_index_name :: "'t GenericIndexName \<Rightarrow> bool" where
  "valid_index_name n \<longleftrightarrow> check_valid_identifier (descriptor n) = Inr ()"

lemma descriptor_new_iff [simp]: "descriptor_new s = Inr d \<longleftrightarrow> d = s \<and> check_valid_identifier s = Inr ()"
  by (auto simp: descriptor_new_def split: sum.splits)

lemma index_name_new_iff:
  "index_name_new t d = Inr n \<longleftrightarrow> n = GenericIndexName t d \<and> valid_index_name n \<and> \<not> is_reserved d"
  by (auto simp: index_name_new_def valid_index_name_def and_then_Inr_iff)

lemma index_name_new_reserved_iff:
  "index_name_new_reserved t d = Inr n \<longleftrightarrow> n = GenericIndexName t d \<and> valid_index_name n \<and> is_reserved d"
  by (auto simp: index_name_new_reserved_def valid_index_name_def and_then_Inr_iff)

lemma valid_reserved_names: "valid_index_name (by_id t)" "valid_index_name (by_creation_time t)"
  unfolding valid_index_name_def by_id_def by_creation_time_def GenericIndexName.sel
    INDEX_BY_ID_DESCRIPTOR_def INDEX_BY_CREATION_TIME_DESCRIPTOR_def
  by code_simp+

lemma descriptor_MIN_least:
  assumes "check_valid_identifier d = Inr ()"
  shows "descriptor_MIN \<le> d"
proof -
  have "65 \<le> hd d" and "d \<noteq> []"
    using assms by (auto simp: check_valid_identifier_iff is_ascii_alphabetic_def underscore_def
        intro: order_trans [of 65 "97 :: byte"])
  then show ?thesis
    by (cases d) (auto simp: descriptor_MIN_def MIN_IDENTIFIER_def ascii_def)
qed

text \<open>Reading an ordered map from the least name of a table gives the entries of that table.\<close>

lemma takeWhile_sorted:
  assumes "sorted_wrt (<) (map fst m)" and "\<And>e. e \<in> set m \<Longrightarrow> t \<le> index_table (fst e)"
  shows "takeWhile (\<lambda>e. index_table (fst e) = t) m
      = filter (\<lambda>e. index_table (fst e) = t) (m :: ('t::linorder GenericIndexName \<times> 'v) list)"
  using assms
proof (induction m)
  case (Cons e m)
  have "index_table (fst e) \<le> index_table (fst x)" if "x \<in> set m" for x
    using Cons.prems(1) that by (auto simp: less_GenericIndexName_def)
  then have "filter (\<lambda>e. index_table (fst e) = t) m = []" if "index_table (fst e) \<noteq> t"
    using that Cons.prems(2) [of e] by (fastforce simp: filter_empty_conv)
  with Cons show ?case by auto
qed simp

lemma iter_indexes_for_table_eq:
  assumes "bt_wf m" and "\<And>n v. (n, v) \<in> set m \<Longrightarrow> valid_index_name n"
  shows "iter_indexes_for_table m t = filter (\<lambda>e. index_table (fst e) = t) m"
proof -
  have "bt_wf (filter (\<lambda>e. min_for_table t \<le> fst e) m)" using assms(1) by (rule bt_wf_filter)
  then have "iter_indexes_for_table m t
      = filter (\<lambda>e. index_table (fst e) = t) (filter (\<lambda>e. min_for_table t \<le> fst e) m)"
    unfolding iter_indexes_for_table_def
    by (intro takeWhile_sorted) (auto simp: bt_wf_def min_for_table_def less_eq_GenericIndexName_def)
  moreover have "min_for_table (index_table (fst e)) \<le> fst e" if "e \<in> set m" for e
    using assms(2) [of "fst e" "snd e"] that descriptor_MIN_least [of "descriptor (fst e)"]
    by (simp add: min_for_table_def less_eq_GenericIndexName_def valid_index_name_def)
  then have "filter (\<lambda>e. index_table (fst e) = t \<and> min_for_table t \<le> fst e) m
      = filter (\<lambda>e. index_table (fst e) = t) m"
    by (intro filter_cong) auto
  ultimately show ?thesis by (simp add: conj_commute)
qed

subsection \<open>Properties\<close>

text \<open>
  C38: printing an index name and parsing it back gives the same name: for a valid table name and a
  valid descriptor the printed form parses to exactly the name it came from.
\<close>

theorem index_name_roundtrip:
  assumes "check_valid_identifier (index_table n) = Inr ()" and "check_valid_identifier (descriptor n) = Inr ()"
  shows "index_name_from_str table_name_from_str (index_name_to_string (\<lambda>t. t) n) = Inr n"
proof -
  have "split_dots (index_table n @ dot # descriptor n) = [index_table n, descriptor n]"
    using identifier_no_dot [OF assms(1)] identifier_no_dot [OF assms(2)]
    by (simp add: split_dots_append split_dots_no_dot)
  then show ?thesis
    using assms by (simp add: index_name_from_str_def index_name_to_string_def table_name_from_str_def
        descriptor_new_def)
qed

theorem index_name_roundtrip_witness:
  "index_name_from_str table_name_from_str (index_name_to_string (\<lambda>t. t) (GenericIndexName (ascii ''users'') (ascii ''by_email'')))
     = Inr (GenericIndexName (ascii ''users'') (ascii ''by_email''))"
proof -
  have "check_valid_identifier (ascii ''users'') = Inr ()" "check_valid_identifier (ascii ''by_email'') = Inr ()"
    by code_simp+
  then show ?thesis
    using index_name_roundtrip [of "GenericIndexName (ascii ''users'') (ascii ''by_email'')"] by simp
qed

end
