(* ===== verification/Sort_Key.thy ===== *)
theory Sort_Key
  imports Convex_Value
begin

text \<open>
  Sort keys (\<^verbatim>\<open>crates/value/src/sorting.rs\<close>): the byte strings under which documents are stored in an
  index, the decoder of the same file, and the direct comparison \<^verbatim>\<open>impl Ord for ConvexValue\<close>. The
  encoder returns a result because \<^verbatim>\<open>write_tagged_int\<close> asserts that the bytes it leaves off are
  unused; the comparison returns one because of its \<^verbatim>\<open>panic!\<close> branches.
\<close>

unbundle bit_operations_syntax

subsection \<open>Orderings\<close>

datatype Ordering = Less | Equal | Greater

text \<open>\<^verbatim>\<open>Ord::cmp\<close> of the standard types and \<^verbatim>\<open>Ordering::then\<close>.\<close>

definition cmp_of :: "'a::linorder \<Rightarrow> 'a \<Rightarrow> Ordering" where
  "cmp_of a b = (if a < b then Less else if a = b then Equal else Greater)"

fun then_with :: "Ordering \<Rightarrow> Ordering \<Rightarrow> Ordering" where
  "then_with Equal o' = o'"
| "then_with o' _ = o'"

subsection \<open>Writing sort keys\<close>

abbreviation UNDEFINED_TAG :: byte where "UNDEFINED_TAG \<equiv> 0x1"
abbreviation NULL_TAG :: byte where "NULL_TAG \<equiv> 0x3"
abbreviation NEG_INT64_8_BYTE_TAG :: byte where "NEG_INT64_8_BYTE_TAG \<equiv> 0x4"
abbreviation ZERO_INT64_TAG :: byte where "ZERO_INT64_TAG \<equiv> 0x8"
abbreviation POS_INT64_8_BYTE_TAG :: byte where "POS_INT64_8_BYTE_TAG \<equiv> 0xC"
abbreviation FLOAT64_TAG :: byte where "FLOAT64_TAG \<equiv> 0xD"
abbreviation FALSE_BOOLEAN_TAG :: byte where "FALSE_BOOLEAN_TAG \<equiv> 0xE"
abbreviation TRUE_BOOLEAN_TAG :: byte where "TRUE_BOOLEAN_TAG \<equiv> 0xF"
abbreviation STRING_TAG :: byte where "STRING_TAG \<equiv> 0x10"
abbreviation BYTES_TAG :: byte where "BYTES_TAG \<equiv> 0x11"
abbreviation ARRAY_TAG :: byte where "ARRAY_TAG \<equiv> 0x12"
abbreviation OBJECT_TAG :: byte where "OBJECT_TAG \<equiv> 0x15"
abbreviation TERMINATOR_BYTE :: byte where "TERMINATOR_BYTE \<equiv> 0x0"
abbreviation ESCAPE_BYTE :: byte where "ESCAPE_BYTE \<equiv> 0xFF"

fun write_escaped_bytes :: "bytes \<Rightarrow> bytes" where
  "write_escaped_bytes [] = [TERMINATOR_BYTE]"
| "write_escaped_bytes (b # buf) =
     (if b = TERMINATOR_BYTE then b # ESCAPE_BYTE # write_escaped_bytes buf
      else b # write_escaped_bytes buf)"

text \<open>The low \<open>n\<close> bytes of a number, most significant first (\<^verbatim>\<open>to_be_bytes\<close>, \<^verbatim>\<open>put_u64\<close>).\<close>

fun be_bytes :: "nat \<Rightarrow> nat \<Rightarrow> bytes" where
  "be_bytes 0 x = []"
| "be_bytes (Suc n) x = of_nat (x div 256 ^ n mod 256) # be_bytes n x"

definition to_be_bytes :: "64 word \<Rightarrow> bytes" where
  "to_be_bytes w = be_bytes 8 (unat w)"

definition from_be_bytes :: "bytes \<Rightarrow> 64 word" where
  "from_be_bytes bs = of_nat (foldl (\<lambda>acc b. acc * 256 + unat b) 0 bs)"

definition int_tag_diff :: "int \<Rightarrow> nat" where
  "int_tag_diff n =
     (if -128 \<le> n \<and> n \<le> 127 then 1
      else if -32768 \<le> n \<and> n \<le> 32767 then 2
      else if -2147483648 \<le> n \<and> n \<le> 2147483647 then 3
      else 4)"

definition write_tagged_int :: "64 word \<Rightarrow> error + bytes" where
  "write_tagged_int n =
     (let tag_diff = int_tag_diff (sint n);
          tag = (if sint n < 0 then ZERO_INT64_TAG - of_nat tag_diff else ZERO_INT64_TAG + of_nat tag_diff);
          num_bytes = 2 ^ (tag_diff - 1);
          buf = to_be_bytes n;
          empty = (if sint n < 0 then 0xFF else 0)
      in if list_all (\<lambda>b. b = empty) (take (8 - num_bytes) buf)
         then Inr (tag # drop (8 - num_bytes) buf)
         else Inl (Panic ''assertion failed''))"

definition sign_bit :: "64 word" where
  "sign_bit = push_bit 63 1"

definition float_key :: "64 word \<Rightarrow> 64 word" where
  "float_key f = (if f AND sign_bit \<noteq> 0 then NOT f else f OR sign_bit)"

fun write_sort_key :: "ConvexValue \<Rightarrow> error + bytes"
and write_elements :: "ConvexValue list \<Rightarrow> error + bytes"
and write_pairs :: "(field_name \<times> ConvexValue) list \<Rightarrow> error + bytes" where
  "write_sort_key Null = Inr [NULL_TAG]"
| "write_sort_key (Int64 i) = (if i = 0 then Inr [ZERO_INT64_TAG] else write_tagged_int i)"
| "write_sort_key (Float64 f) = Inr (FLOAT64_TAG # to_be_bytes (float_key f))"
| "write_sort_key (Boolean b) = Inr [if b then TRUE_BOOLEAN_TAG else FALSE_BOOLEAN_TAG]"
| "write_sort_key (String s) = Inr (STRING_TAG # write_escaped_bytes s)"
| "write_sort_key (Bytes b) = Inr (BYTES_TAG # write_escaped_bytes b)"
| "write_sort_key (Array (ConvexArray _ _ items)) =
     and_then (write_elements items) (\<lambda>out. Inr (ARRAY_TAG # out @ [TERMINATOR_BYTE]))"
| "write_sort_key (Object (ConvexObject _ _ fields)) =
     and_then (write_pairs fields) (\<lambda>out. Inr (OBJECT_TAG # out @ [TERMINATOR_BYTE]))"
| "write_elements [] = Inr []"
| "write_elements (v # vs) =
     and_then (write_sort_key v) (\<lambda>k. and_then (write_elements vs) (\<lambda>ks. Inr (k @ ks)))"
| "write_pairs [] = Inr []"
| "write_pairs ((field, v) # fs) =
     and_then (write_sort_key v)
       (\<lambda>k. and_then (write_pairs fs) (\<lambda>ks. Inr (write_escaped_bytes field @ k @ ks)))"

definition cv_sort_key :: "ConvexValue \<Rightarrow> error + bytes" where
  "cv_sort_key v = write_sort_key v"

fun write_sort_key_or_undefined :: "ConvexValue option \<Rightarrow> error + bytes" where
  "write_sort_key_or_undefined (Some v) = write_sort_key v"
| "write_sort_key_or_undefined None = Inr [UNDEFINED_TAG]"

fun values_to_bytes :: "ConvexValue option list \<Rightarrow> error + bytes" where
  "values_to_bytes [] = Inr []"
| "values_to_bytes (v # vs) =
     and_then (write_sort_key_or_undefined v)
       (\<lambda>k. and_then (values_to_bytes vs) (\<lambda>ks. Inr (k @ ks)))"

subsection \<open>Comparing values\<close>

fun type_tag :: "ConvexValue \<Rightarrow> nat" where
  "type_tag Null = 1"
| "type_tag (Int64 _) = 2"
| "type_tag (Float64 _) = 3"
| "type_tag (Boolean _) = 4"
| "type_tag (String _) = 5"
| "type_tag (Bytes _) = 6"
| "type_tag (Array _) = 7"
| "type_tag (Object _) = 10"

text \<open>
  \<^verbatim>\<open>f64::total_cmp\<close>: the bits as a signed integer, the ones below the sign flipped for negative
  numbers.
\<close>

definition total_cmp_key :: "64 word \<Rightarrow> 64 word" where
  "total_cmp_key f = f XOR drop_bit 1 (signed_drop_bit 63 f)"

definition total_cmp :: "64 word \<Rightarrow> 64 word \<Rightarrow> Ordering" where
  "total_cmp a b = cmp_of (sint (total_cmp_key a)) (sint (total_cmp_key b))"

abbreviation invalid_value :: "error + Ordering" where
  "invalid_value \<equiv> Inl (Panic ''Invalid value'')"

fun cv_cmp :: "ConvexValue \<Rightarrow> ConvexValue \<Rightarrow> error + Ordering"
and cmp_items :: "ConvexValue list \<Rightarrow> ConvexValue list \<Rightarrow> error + Ordering"
and cmp_fields ::
  "(field_name \<times> ConvexValue) list \<Rightarrow> (field_name \<times> ConvexValue) list \<Rightarrow> error + Ordering" where
  "cv_cmp self other =
     (let tag_cmp = cmp_of (type_tag self) (type_tag other)
      in if tag_cmp \<noteq> Equal then Inr tag_cmp
         else case self of
           Null \<Rightarrow> (case other of Null \<Rightarrow> Inr Equal | _ \<Rightarrow> invalid_value)
         | Int64 a \<Rightarrow> (case other of Int64 b \<Rightarrow> Inr (cmp_of (sint a) (sint b)) | _ \<Rightarrow> invalid_value)
         | Float64 a \<Rightarrow> (case other of Float64 b \<Rightarrow> Inr (total_cmp a b) | _ \<Rightarrow> invalid_value)
         | Boolean a \<Rightarrow> (case other of Boolean b \<Rightarrow> Inr (cmp_of a b) | _ \<Rightarrow> invalid_value)
         | String a \<Rightarrow> (case other of String b \<Rightarrow> Inr (cmp_of a b) | _ \<Rightarrow> invalid_value)
         | Bytes a \<Rightarrow> (case other of Bytes b \<Rightarrow> Inr (cmp_of a b) | _ \<Rightarrow> invalid_value)
         | Array (ConvexArray _ _ xs) \<Rightarrow>
             (case other of Array (ConvexArray _ _ ys) \<Rightarrow> cmp_items xs ys | _ \<Rightarrow> invalid_value)
         | Object (ConvexObject _ _ xs) \<Rightarrow>
             (case other of Object (ConvexObject _ _ ys) \<Rightarrow> cmp_fields xs ys | _ \<Rightarrow> invalid_value))"
| "cmp_items [] [] = Inr Equal"
| "cmp_items [] (y # ys) = Inr Less"
| "cmp_items (x # xs) [] = Inr Greater"
| "cmp_items (x # xs) (y # ys) =
     and_then (cv_cmp x y) (\<lambda>c. if c = Equal then cmp_items xs ys else Inr c)"
| "cmp_fields [] [] = Inr Equal"
| "cmp_fields [] (y # ys) = Inr Less"
| "cmp_fields (x # xs) [] = Inr Greater"
| "cmp_fields ((f, x) # xs) ((g, y) # ys) =
     (if cmp_of f g \<noteq> Equal then Inr (cmp_of f g)
      else and_then (cv_cmp x y) (\<lambda>c. if c = Equal then cmp_fields xs ys else Inr c))"

declare cv_cmp.simps(1) [simp del]

text \<open>\<^verbatim>\<open>impl PartialEq\<close>: values by comparison, arrays and objects with the assertions on derived data.\<close>

definition cv_eq :: "ConvexValue \<Rightarrow> ConvexValue \<Rightarrow> error + bool" where
  "cv_eq self other = and_then (cv_cmp self other) (\<lambda>c. Inr (c = Equal))"

fun eq_lists :: "('a \<Rightarrow> 'a \<Rightarrow> error + bool) \<Rightarrow> 'a list \<Rightarrow> 'a list \<Rightarrow> error + bool" where
  "eq_lists eq [] [] = Inr True"
| "eq_lists eq (x # xs) (y # ys) = and_then (eq x y) (\<lambda>b. if b then eq_lists eq xs ys else Inr False)"
| "eq_lists eq _ _ = Inr False"

definition vec_eq :: "('a \<Rightarrow> 'a \<Rightarrow> error + bool) \<Rightarrow> 'a list \<Rightarrow> 'a list \<Rightarrow> error + bool" where
  "vec_eq eq xs ys = (if length xs \<noteq> length ys then Inr False else eq_lists eq xs ys)"

definition assert_same_derived :: "nat \<times> nat \<Rightarrow> nat \<times> nat \<Rightarrow> bool \<Rightarrow> error + bool" where
  "assert_same_derived d d' same =
     (if same then if d = d' then Inr True else Inl (Panic ''assertion failed: left == right'')
      else Inr False)"

definition array_eq :: "ConvexArray \<Rightarrow> ConvexArray \<Rightarrow> error + bool" where
  "array_eq self other =
     and_then (vec_eq cv_eq (arr_items self) (arr_items other))
       (assert_same_derived (arr_size self, arr_nesting self) (arr_size other, arr_nesting other))"

definition object_eq :: "ConvexObject \<Rightarrow> ConvexObject \<Rightarrow> error + bool" where
  "object_eq self other =
     and_then
       (vec_eq (\<lambda>(f, x) (g, y). if f = g then cv_eq x y else Inr False) (obj_fields self) (obj_fields other))
       (assert_same_derived (obj_size self, obj_nesting self) (obj_size other, obj_nesting other))"

subsection \<open>Reading sort keys\<close>

abbreviation unexpected_eof :: error where
  "unexpected_eof \<equiv> Bail ''failed to fill whole buffer''"

text \<open>
  The decoder reads through a \<^verbatim>\<open>BytePeeker\<close>, which keeps a byte that was looked at but not taken. The
  reader below it is a byte slice, which gives as many bytes as there are. \<open>read_exact\<close> is the loop of
  the standard library's trait \<^verbatim>\<open>Read\<close>.
\<close>

record BytePeeker =
  bp_buf :: "byte option"
  bp_reader :: bytes

definition bp_new :: "bytes \<Rightarrow> BytePeeker" where
  "bp_new reader = \<lparr>bp_buf = None, bp_reader = reader\<rparr>"

definition bp_peek :: "BytePeeker \<Rightarrow> byte option \<times> BytePeeker" where
  "bp_peek p = (case bp_buf p of
       Some b \<Rightarrow> (Some b, p)
     | None \<Rightarrow> (case bp_reader p of [] \<Rightarrow> (None, p) | b # r \<Rightarrow> (Some b, \<lparr>bp_buf = Some b, bp_reader = r\<rparr>)))"

definition bp_read :: "nat \<Rightarrow> BytePeeker \<Rightarrow> bytes \<times> BytePeeker" where
  "bp_read n p =
     (if n = 0 then ([], p)
      else case bp_buf p of
          Some b \<Rightarrow> (b # take (n - 1) (bp_reader p), \<lparr>bp_buf = None, bp_reader = drop (n - 1) (bp_reader p)\<rparr>)
        | None \<Rightarrow> (take n (bp_reader p), \<lparr>bp_buf = None, bp_reader = drop n (bp_reader p)\<rparr>))"

definition bp_rest :: "BytePeeker \<Rightarrow> bytes" where
  "bp_rest p = (case bp_buf p of None \<Rightarrow> bp_reader p | Some b \<Rightarrow> b # bp_reader p)"

function read_exact :: "nat \<Rightarrow> BytePeeker \<Rightarrow> error + bytes \<times> BytePeeker" where
  "read_exact n p =
     (if n = 0 then Inr ([], p)
      else case bp_read n p of (b, p') \<Rightarrow>
        if b = [] then Inl unexpected_eof
        else and_then (read_exact (n - length b) p') (\<lambda>(bs, p''). Inr (b @ bs, p'')))"
  by pat_completeness auto
termination
  by (relation "measure fst") auto

declare read_exact.simps [simp del]

definition read_u8 :: "BytePeeker \<Rightarrow> error + byte \<times> BytePeeker" where
  "read_u8 p = and_then (read_exact 1 p) (\<lambda>(b, p'). Inr (hd b, p'))"

lemma and_then_fundef_cong:
  "r = r' \<Longrightarrow> (\<And>x. r' = Inr x \<Longrightarrow> f x = g x) \<Longrightarrow> and_then r f = and_then r' g"
  by (cases r') simp_all

lemma bp_peek_rest [simp]: "bp_peek p = (c, p') \<Longrightarrow> bp_rest p' = bp_rest p"
  by (auto simp: bp_peek_def bp_rest_def split: option.splits list.splits)

lemma read_u8_eq:
  "read_u8 p = (case bp_rest p of [] \<Rightarrow> Inl unexpected_eof | b # r \<Rightarrow> Inr (b, \<lparr>bp_buf = None, bp_reader = r\<rparr>))"
  by (cases "bp_reader p") (auto simp: read_u8_def read_exact.simps [of "Suc 0"] read_exact.simps [of 0] bp_read_def bp_rest_def
      split: option.splits list.splits)

lemma read_u8_shorter: "read_u8 p = Inr (b, p') \<Longrightarrow> length (bp_rest p') < length (bp_rest p)"
  by (auto simp: read_u8_eq bp_rest_def split: list.splits option.splits)

declare and_then_fundef_cong [fundef_cong]

function read_escaped_bytes :: "BytePeeker \<Rightarrow> error + bytes \<times> BytePeeker" where
  "read_escaped_bytes p = and_then (read_u8 p) (\<lambda>(byte, p1).
     if byte = TERMINATOR_BYTE
     then case bp_peek p1 of (c, p2) \<Rightarrow>
       if c = Some ESCAPE_BYTE
       then and_then (read_u8 p2) (\<lambda>(_, p3).
              and_then (read_escaped_bytes p3) (\<lambda>(out, r). Inr (TERMINATOR_BYTE # out, r)))
       else Inr ([], p2)
     else and_then (read_escaped_bytes p1) (\<lambda>(out, r). Inr (byte # out, r)))"
  by pat_completeness auto
termination
  by (relation "measure (length \<circ> bp_rest)")
    (auto dest!: read_u8_shorter bp_peek_rest [OF sym])

declare and_then_fundef_cong [fundef_cong del]
declare read_escaped_bytes.simps [simp del]

definition read_escaped_string :: "BytePeeker \<Rightarrow> error + bytes \<times> BytePeeker" where
  "read_escaped_string p =
     and_then (read_escaped_bytes p)
       (\<lambda>(s, r). if utf8_valid s then Inr (s, r) else Inl (Bail ''invalid utf-8 sequence''))"

definition read_tagged_int :: "byte \<Rightarrow> BytePeeker \<Rightarrow> error + 64 word \<times> BytePeeker" where
  "read_tagged_int tag p =
     (let is_negative = tag < ZERO_INT64_TAG;
          tag_diff = max tag ZERO_INT64_TAG - min tag ZERO_INT64_TAG;
          num_bytes = 2 ^ (unat tag_diff - 1)
      in and_then (read_exact num_bytes p)
           (\<lambda>(buf, r). Inr (from_be_bytes
              (replicate (8 - num_bytes) (if is_negative then 0xFF else 0) @ buf), r)))"

text \<open>
  The recursive reader. The first argument bounds the depth of the recursion; \<open>read_sort_key\<close> below
  starts with a bound that is always enough (lemma \<open>read_bound\<close>).
\<close>

fun read_value :: "nat \<Rightarrow> BytePeeker \<Rightarrow> error + ConvexValue \<times> BytePeeker"
and read_elements :: "nat \<Rightarrow> BytePeeker \<Rightarrow> error + ConvexValue list \<times> BytePeeker"
and read_pairs :: "nat \<Rightarrow> fields \<Rightarrow> BytePeeker \<Rightarrow> error + fields \<times> BytePeeker" where
  "read_value 0 p = Inl (Bail ''recursion bound'')"
| "read_value (Suc n) p =
     and_then (read_u8 p) (\<lambda>(tag, rest).
          if tag = NULL_TAG then Inr (Null, rest)
          else if tag = ZERO_INT64_TAG then Inr (Int64 0, rest)
          else if NEG_INT64_8_BYTE_TAG \<le> tag \<and> tag \<le> POS_INT64_8_BYTE_TAG
          then and_then (read_tagged_int tag rest) (\<lambda>(i, r). Inr (Int64 i, r))
          else if tag = FLOAT64_TAG
          then and_then (read_exact 8 rest)
                 (\<lambda>(buf, r). let f = from_be_bytes buf
                    in Inr (Float64 (if f AND sign_bit \<noteq> 0 then f AND NOT sign_bit else NOT f), r))
          else if tag = FALSE_BOOLEAN_TAG then Inr (Boolean False, rest)
          else if tag = TRUE_BOOLEAN_TAG then Inr (Boolean True, rest)
          else if tag = STRING_TAG
          then and_then (read_escaped_string rest)
                 (\<lambda>(s, r). and_then (string_try_from s) (\<lambda>s'. Inr (String s', r)))
          else if tag = BYTES_TAG
          then and_then (read_escaped_bytes rest)
                 (\<lambda>(b, r). and_then (bytes_try_from b) (\<lambda>b'. Inr (Bytes b', r)))
          else if tag = ARRAY_TAG
          then and_then (read_elements n rest)
                 (\<lambda>(items, r). and_then (array_try_from items) (\<lambda>a. Inr (Array a, r)))
          else if tag = OBJECT_TAG
          then and_then (read_pairs n [] rest)
                 (\<lambda>(fs, r). and_then (object_try_from fs) (\<lambda>m. Inr (Object m, r)))
          else if tag = ESCAPE_BYTE then Inl (Bail ''Escape code used as tag'')
          else Inl (Bail ''Unrecognized tag''))"
| "read_elements 0 p = Inl (Bail ''recursion bound'')"
| "read_elements (Suc n) p = (case bp_peek p of (c, p') \<Rightarrow>
      if c = Some TERMINATOR_BYTE then and_then (read_u8 p') (\<lambda>(_, r). Inr ([], r))
      else and_then (read_value n p')
        (\<lambda>(v, r). and_then (read_elements n r) (\<lambda>(vs, r'). Inr (v # vs, r'))))"
| "read_pairs 0 acc p = Inl (Bail ''recursion bound'')"
| "read_pairs (Suc n) acc p = (case bp_peek p of (c, p') \<Rightarrow>
      if c = Some TERMINATOR_BYTE then and_then (read_u8 p') (\<lambda>(_, r). Inr (acc, r))
      else and_then (read_escaped_string p')
        (\<lambda>(s, r). and_then (field_name_from_str s)
          (\<lambda>field. and_then (read_value n r)
            (\<lambda>(v, r'). if bt_get acc field \<noteq> None
                       then Inl (Bail ''Duplicate element in encoded object'')
                       else read_pairs n (bt_insert field v acc) r'))))"

text \<open>
  The peeker is dropped at the end, and with it a byte that it has looked at.
\<close>

definition read_sort_key :: "bytes \<Rightarrow> error + ConvexValue \<times> bytes" where
  "read_sort_key reader =
     and_then (read_value (2 * length reader + 1) (bp_new reader)) (\<lambda>(v, p). Inr (v, bp_reader p))"

fun bytes_to_values_loop :: "nat \<Rightarrow> BytePeeker \<Rightarrow> error + ConvexValue option list" where
  "bytes_to_values_loop n p = (case bp_peek p of
       (None, _) \<Rightarrow> Inr []
     | (Some _, p') \<Rightarrow> (case n of
           0 \<Rightarrow> Inl (Bail ''recursion bound'')
         | Suc m \<Rightarrow> and_then (read_value (2 * length (bp_rest p') + 1) p')
             (\<lambda>(v, r). and_then (bytes_to_values_loop m r) (\<lambda>vs. Inr (Some v # vs)))))"

definition bytes_to_values :: "bytes \<Rightarrow> error + ConvexValue option list" where
  "bytes_to_values reader = bytes_to_values_loop (length reader) (bp_new reader)"

end
