(* ===== verification/Sort_Key_Order.thy ===== *)
theory Sort_Key_Order
  imports Sort_Key
begin

text \<open>
  Sort keys preserve the order of values. The lemmas have one form throughout: comparing two
  encodings followed by anything is comparing the encoded things and then what follows. The locale
  \<open>order_code\<close> states this contract and derives from it what an index relies on.
\<close>

named_theorems order_code_simps \<open>comparison of encodings\<close>

subsection \<open>Comparisons\<close>

lemma cmp_of_simps [simp]:
  "cmp_of a a = Equal"
  "cmp_of a b = Less \<longleftrightarrow> a < b"
  "cmp_of a b = Equal \<longleftrightarrow> a = b"
  "cmp_of a b = Greater \<longleftrightarrow> b < a"
  by (auto simp: cmp_of_def)

lemma then_with_assoc: "then_with (then_with a b) c = then_with a (then_with b c)"
  by (cases a) auto

lemma then_with_simps [simp]:
  "then_with a Equal = a"
  "then_with a b = Equal \<longleftrightarrow> a = Equal \<and> b = Equal"
  by (cases a; simp)+

lemma cmp_of_list [simp]:
  "cmp_of (x # xs) (y # ys) = then_with (cmp_of x y) (cmp_of xs ys)"
  "cmp_of [] (y # ys) = Less"
  "cmp_of (x # xs) [] = Greater"
  by (auto simp: cmp_of_def)

lemma cmp_of_mono:
  "(a < b \<longleftrightarrow> c < d) \<Longrightarrow> (a = b \<longleftrightarrow> c = d) \<Longrightarrow> cmp_of a b = cmp_of c d"
  by (simp add: cmp_of_def)

text \<open>What may follow an escaped string: no tag is the escape byte.\<close>

definition tame :: "bytes \<Rightarrow> bool" where
  "tame s \<longleftrightarrow> s = [] \<or> hd s \<noteq> ESCAPE_BYTE"

lemma tame_simps [simp]: "tame []" "tame (b # s) \<longleftrightarrow> b \<noteq> 255"
  by (simp_all add: tame_def)

lemma byte_less_255: "(a :: byte) < 255 \<longleftrightarrow> a \<noteq> 255"
  using byte_not_less_255 by blast

lemma tame_less_escape [simp]: "tame s \<Longrightarrow> s < 255 # t"
  by (cases s) (auto simp: byte_less_255)

lemma tame_cmp_escape [simp]:
  "tame s \<Longrightarrow> cmp_of s (255 # t) = Less"
  "tame s \<Longrightarrow> cmp_of (255 # t) s = Greater"
  by simp_all

lemma cmp_of_zero [simp]:
  "cmp_of (0 :: byte) b = (if b = 0 then Equal else Less)"
  "cmp_of (b :: byte) 0 = (if b = 0 then Equal else Greater)"
  by (simp_all add: cmp_of_def word_neq_0_conv)

locale order_code =
  fixes wf :: "'a \<Rightarrow> bool" and enc :: "'a \<Rightarrow> bytes" and cmp :: "'a \<Rightarrow> 'a \<Rightarrow> Ordering"
  assumes code: "wf a \<Longrightarrow> wf b \<Longrightarrow> tame s \<Longrightarrow> tame t
    \<Longrightarrow> cmp_of (enc a @ s) (enc b @ t) = then_with (cmp a b) (cmp_of s t)"
begin

lemma order: "wf a \<Longrightarrow> wf b \<Longrightarrow> cmp_of (enc a) (enc b) = cmp a b"
  using code [of a b "[]" "[]"] by simp

lemma inj: "wf a \<Longrightarrow> wf b \<Longrightarrow> enc a = enc b \<longleftrightarrow> cmp a b = Equal"
  using order [of a b] by (metis cmp_of_simps(3))

lemma no_prefix:
  assumes "wf a" "wf b" "tame s" "enc a @ s = enc b"
  shows "s = []"
proof -
  have "then_with (cmp a b) (cmp_of s []) = cmp_of (enc a @ s) (enc b @ [])"
    using assms by (intro code [symmetric]) simp_all
  also have "\<dots> = Equal" by (simp add: assms(4))
  finally show ?thesis by simp
qed

end

text \<open>Sequences of encodings, compared element by element.\<close>

fun lex_cmp :: "('a \<Rightarrow> 'a \<Rightarrow> Ordering) \<Rightarrow> 'a list \<Rightarrow> 'a list \<Rightarrow> Ordering" where
  "lex_cmp cmp (x # xs) (y # ys) = then_with (cmp x y) (lex_cmp cmp xs ys)"
| "lex_cmp cmp [] [] = Equal"
| "lex_cmp cmp [] (y # ys) = Less"
| "lex_cmp cmp (x # xs) [] = Greater"

locale tagged_code = order_code +
  assumes head: "wf a \<Longrightarrow> tame (enc a @ s)"
begin

lemma tame_seq: "(\<And>x. x \<in> set xs \<Longrightarrow> wf x) \<Longrightarrow> tame s \<Longrightarrow> tame (concat (map enc xs) @ s)"
  using head by (cases xs) simp_all

lemma seq:
  "length xs = length ys \<Longrightarrow> (\<And>x. x \<in> set xs \<union> set ys \<Longrightarrow> wf x) \<Longrightarrow> tame s \<Longrightarrow> tame t
    \<Longrightarrow> cmp_of (concat (map enc xs) @ s) (concat (map enc ys) @ t)
       = then_with (lex_cmp cmp xs ys) (cmp_of s t)"
proof (induction xs ys rule: list_induct2)
  case (Cons x xs y ys)
  then show ?case using code [of x y "concat (map enc xs) @ s" "concat (map enc ys) @ t"]
    by (simp add: tame_seq then_with_assoc)
qed simp

end

subsection \<open>Strings\<close>

lemma escaped_code [order_code_simps]:
  "tame s \<Longrightarrow> tame t \<Longrightarrow>
     cmp_of (write_escaped_bytes a @ s) (write_escaped_bytes b @ t) = then_with (cmp_of a b) (cmp_of s t)"
proof (induction a arbitrary: b)
  case Nil
  then show ?case by (cases b) (auto simp: word_gt_0)
next
  case (Cons x a)
  then show ?case by (cases b) (auto simp: then_with_assoc word_gt_0)
qed

interpretation escaped: order_code "\<lambda>_. True" write_escaped_bytes cmp_of
  by unfold_locales (rule escaped_code)

subsection \<open>Big-endian numbers\<close>

lemma length_be_bytes [simp]: "length (be_bytes n x) = n"
  by (induction n) auto

lemma be_bytes_mod: "be_bytes n (x mod 256 ^ (n + m)) = be_bytes n x"
proof (induction n arbitrary: m)
  case (Suc n)
  have "x mod 256 ^ (Suc n + m) = x mod (256 ^ n * 256 ^ Suc m)"
    by (simp add: power_add ac_simps)
  then have "x mod 256 ^ (Suc n + m) div 256 ^ n = x div 256 ^ n mod 256 ^ Suc m"
    by (simp only: mod_mult2_eq) simp
  then have "x mod 256 ^ (Suc n + m) div 256 ^ n mod 256 = x div 256 ^ n mod 256"
    by (simp add: mod_mod_cancel)
  with Suc [of "Suc m"] show ?case by simp
qed simp

lemma cmp_of_digits:
  assumes "0 < (m :: nat)"
  shows "then_with (cmp_of (x div m) (y div m)) (cmp_of (x mod m) (y mod m)) = cmp_of x y"
proof (cases "x div m" "y div m" rule: linorder_cases)
  case less
  then have "x < y" by (meson div_le_mono linorder_not_le)
  with less show ?thesis by (simp add: cmp_of_def)
next
  case equal
  have "x = m * (x div m) + x mod m" "y = m * (y div m) + y mod m" by simp_all
  with equal have "x < y \<longleftrightarrow> x mod m < y mod m" "x = y \<longleftrightarrow> x mod m = y mod m"
    by (metis nat_add_left_cancel_less) (metis equal mult_div_mod_eq)
  with equal show ?thesis by (simp add: cmp_of_def)
next
  case greater
  then have "y < x" by (meson div_le_mono linorder_not_le)
  with greater show ?thesis by (simp add: cmp_of_def)
qed

lemma be_bytes_code [order_code_simps]:
  "x < 256 ^ n \<Longrightarrow> y < 256 ^ n \<Longrightarrow>
     cmp_of (be_bytes n x @ s) (be_bytes n y @ t) = then_with (cmp_of x y) (cmp_of s t)"
proof (induction n arbitrary: x y)
  case (Suc n)
  have d: "x div 256 ^ n < 256" "y div 256 ^ n < 256"
    using Suc.prems by (simp_all add: less_mult_imp_div_less mult.commute)
  have "cmp_of (of_nat a :: byte) (of_nat b) = cmp_of a b" if "a < 256" "b < 256" for a b :: nat
    using that by (intro cmp_of_mono) (simp_all add: word_less_nat_alt word_unat_eq_iff unat_of_nat)
  from this [OF d]
  have "cmp_of (be_bytes (Suc n) x @ s) (be_bytes (Suc n) y @ t)
      = then_with (cmp_of (x div 256 ^ n) (y div 256 ^ n)) (cmp_of (be_bytes n x @ s) (be_bytes n y @ t))"
    using d by simp
  also have "cmp_of (be_bytes n x @ s) (be_bytes n y @ t)
      = then_with (cmp_of (x mod 256 ^ n) (y mod 256 ^ n)) (cmp_of s t)"
    using Suc.IH [of "x mod 256 ^ n" "y mod 256 ^ n"] be_bytes_mod [of n _ 0] by simp
  finally show ?case by (simp add: cmp_of_digits flip: then_with_assoc)
qed simp

lemma drop_be_bytes: "drop m (be_bytes (m + k) x) = be_bytes k x"
  by (induction m) auto

lemma take_be_bytes: "take m (be_bytes (m + k) x) = be_bytes m (x div 256 ^ k)"
proof (induction m)
  case (Suc m)
  have "x div 256 ^ (m + k) mod 256 = x div 256 ^ k div 256 ^ m mod 256"
    by (simp add: power_add mult.commute flip: div_mult2_eq)
  with Suc show ?case by simp
qed simp

lemma be_bytes_zero: "be_bytes n 0 = replicate n 0"
  by (induction n) auto

lemma be_bytes_ones: "be_bytes n (256 ^ (n + m) - 1) = replicate n 255"
proof (induction n arbitrary: m)
  case (Suc n)
  have "(256 ^ (Suc n + m) - 1) div 256 ^ n = (256 ^ Suc m - 1 :: nat)"
  proof (rule div_nat_eqI)
    show "256 ^ n * (256 ^ Suc m - 1) \<le> (256 ^ (Suc n + m) - 1 :: nat)"
      by (simp add: power_add diff_mult_distrib2 ac_simps diff_le_mono2)
    show "256 ^ (Suc n + m) - 1 < 256 ^ n * Suc (256 ^ Suc m - 1 :: nat)"
      by (simp add: power_add ac_simps)
  qed
  moreover have "(256 ^ Suc m - 1 :: nat) mod 256 = 255"
  proof -
    have "(256 ^ Suc m - 1 :: nat) = 256 * (256 ^ m - 1) + 255" by (simp add: diff_mult_distrib2)
    then show ?thesis by simp
  qed
  ultimately show ?case using Suc [of "Suc m"] by simp
qed simp

subsection \<open>Integers\<close>

lemma sint_range64: "- (2 ^ 63) \<le> sint (n :: 64 word)" "sint (n :: 64 word) < 2 ^ 63"
  using sint_ge [of n] sint_lt [of n] by simp_all

lemma unat_sint64: "unat (n :: 64 word) = nat (if sint n < 0 then sint n + 2 ^ 64 else sint n)"
proof -
  have "uint n = sint n mod 2 ^ 64" by (simp add: uint_sint take_bit_eq_mod)
  also have "\<dots> = (if sint n < 0 then sint n + 2 ^ 64 else sint n)"
    using sint_range64 [of n] mod_pos_pos_trivial [of "sint n + 2 ^ 64" "2 ^ 64"]
    by (auto simp: mod_pos_pos_trivial)
  finally show ?thesis by (simp only: unat_eq_nat_uint)
qed

text \<open>The tag and the number of bytes of an integer, zero included.\<close>

definition int_tag :: "int \<Rightarrow> byte" where
  "int_tag n = (if n = 0 then 8 else if n < 0 then 8 - of_nat (int_tag_diff n) else 8 + of_nat (int_tag_diff n))"

definition int_width :: "int \<Rightarrow> nat" where
  "int_width n = (if n = 0 then 0 else 2 ^ (int_tag_diff n - 1))"

definition int_bytes :: "64 word \<Rightarrow> bytes" where
  "int_bytes n = int_tag (sint n) # be_bytes (int_width (sint n)) (unat n)"

lemma int_class_cases:
  obtains (zero) "n = 0" "int_tag n = 8" "int_width n = 0"
  | (n8) "n < -2147483648" "int_tag n = 4" "int_width n = 8"
  | (n4) "-2147483648 \<le> n" "n < -32768" "int_tag n = 5" "int_width n = 4"
  | (n2) "-32768 \<le> n" "n < -128" "int_tag n = 6" "int_width n = 2"
  | (n1) "-128 \<le> n" "n < 0" "int_tag n = 7" "int_width n = 1"
  | (p1) "0 < n" "n \<le> 127" "int_tag n = 9" "int_width n = 1"
  | (p2) "127 < n" "n \<le> 32767" "int_tag n = 10" "int_width n = 2"
  | (p4) "32767 < n" "n \<le> 2147483647" "int_tag n = 11" "int_width n = 4"
  | (p8) "2147483647 < n" "int_tag n = 12" "int_width n = 8"
proof -
  consider "n = 0" | "n < -2147483648" | "-2147483648 \<le> n" "n < -32768" | "-32768 \<le> n" "n < -128"
    | "-128 \<le> n" "n < 0" | "0 < n" "n \<le> 127" | "127 < n" "n \<le> 32767"
    | "32767 < n" "n \<le> 2147483647" | "2147483647 < n"
    by linarith
  then show thesis
    by cases (simp_all add: that int_tag_def int_width_def int_tag_diff_def)
qed

lemma int_tag_order: "int_tag i < int_tag j \<Longrightarrow> i < j"
  by (rule int_class_cases [of i]; rule int_class_cases [of j]; simp)

lemma int_tag_bounds: "4 \<le> int_tag i \<and> int_tag i \<le> 12 \<and> (int_tag i = 8 \<longleftrightarrow> i = 0)"
  by (rule int_class_cases [of i]) simp_all

lemma int_tag_width: "int_tag i = int_tag j \<Longrightarrow> int_width i = int_width j"
  by (rule int_class_cases [of i]; rule int_class_cases [of j]; simp)

lemma int_tag_sign: "int_tag i = int_tag j \<Longrightarrow> (i < 0 \<longleftrightarrow> j < 0)"
  by (rule int_class_cases [of i]; rule int_class_cases [of j]; simp)

lemma nat_mod_negative:
  assumes "- M \<le> i" "i < 0" "0 \<le> c"
  shows "nat (i + (M + c * M)) mod nat M = nat (i + M)"
proof -
  have M: "0 < M" using assms by linarith
  have "0 \<le> c * M" using assms(3) M by simp
  then have nn: "0 \<le> i + (M + c * M)" using assms(1) by linarith
  have "(i + (M + c * M)) mod M = ((i + M) + c * M) mod M" by (simp add: add.assoc)
  also have "\<dots> = i + M" using assms M by (simp add: mod_pos_pos_trivial del: mod_add_self2)
  finally show ?thesis
    using assms M nn by (subst nat_mod_distrib [symmetric]) simp_all
qed

lemma int_width_fits:
  fixes n :: "64 word"
  shows "int_width (sint n) \<le> 8" "- (256 ^ int_width (sint n)) \<le> sint n" "sint n < 256 ^ int_width (sint n)"
  using sint_range64 [of n] by (cases "sint n" rule: int_class_cases; simp)+

lemma int_low_bytes:
  fixes n :: "64 word"
  shows "unat n mod 256 ^ int_width (sint n)
    = nat (if sint n < 0 then sint n + 256 ^ int_width (sint n) else sint n)"
proof -
  define M where "M = (256 :: int) ^ int_width (sint n)"
  define c where "c = (256 :: int) ^ (8 - int_width (sint n)) - 1"
  have M: "nat M = 256 ^ int_width (sint n)" by (simp add: M_def nat_power_eq)
  have "M + c * M = 256 ^ (8 - int_width (sint n)) * M" by (simp add: c_def left_diff_distrib)
  also have "\<dots> = 2 ^ 64"
    using int_width_fits(1) [of n] by (simp add: M_def flip: power_add)
  finally have "unat n = nat (if sint n < 0 then sint n + (M + c * M) else sint n)"
    by (simp only: unat_sint64)
  moreover have "nat (sint n) mod nat M = nat (sint n)" if "\<not> sint n < 0"
    using that int_width_fits(3) [of n] by (simp add: M_def nat_power_eq nat_less_iff)
  moreover have "nat (sint n + (M + c * M)) mod nat M = nat (sint n + M)" if "sint n < 0"
    using that int_width_fits(2) [of n] by (intro nat_mod_negative) (simp_all add: M_def c_def)
  ultimately show ?thesis unfolding M [symmetric] M_def [symmetric] by simp
qed

lemma int_high_bytes:
  fixes n :: "64 word"
  assumes k: "k = int_width (sint n)" "k \<le> 8"
  shows "unat n div 256 ^ k = (if sint n < 0 then 256 ^ (8 - k) - 1 else 0)"
proof (cases "sint n < 0")
  case False
  then have "unat n mod 256 ^ k = unat n" using int_low_bytes [of n] unat_sint64 [of n] k(1) by simp
  with False show ?thesis by (metis div_less mod_less_divisor zero_less_numeral zero_less_power)
next
  case True
  define m :: nat where "m = 256 ^ k"
  define q :: nat where "q = 256 ^ (8 - k)"
  have "m * q = 2 ^ 64" using k(2) by (simp add: m_def q_def flip: power_add)
  then have mq: "int m * int q = 2 ^ 64" by (metis of_nat_mult of_nat_numeral of_nat_power)
  have q: "int (q - 1) = int q - 1" "Suc (q - 1) = q" by (simp_all add: q_def of_nat_diff)
  have x: "int (unat n) = sint n + 2 ^ 64" using True sint_range64 [of n] unat_sint64 [of n] by simp
  have i: "- int m \<le> sint n" using int_width_fits(2) [of n] k(1) by (simp add: m_def)
  have "unat n div m = q - 1"
  proof (rule div_nat_eqI)
    have "int (m * (q - 1)) \<le> int (unat n)" using i by (simp only: of_nat_mult q(1) x right_diff_distrib mq)
    then show "m * (q - 1) \<le> unat n" by (simp only: of_nat_le_iff)
    have "int (unat n) < int (m * Suc (q - 1))" using True by (simp only: of_nat_mult q(2) x mq)
    then show "unat n < m * Suc (q - 1)" by (simp only: of_nat_less_iff)
  qed
  with True show ?thesis by (simp add: m_def q_def)
qed

lemma write_tagged_int_bytes:
  assumes "n \<noteq> 0"
  shows "write_tagged_int n = Inr (int_bytes n)"
proof -
  have nz: "sint n \<noteq> 0" using assms by (simp add: signed_eq_0_iff)
  define k where "k = int_width (sint n)"
  have k: "k = 2 ^ (int_tag_diff (sint n) - 1)" "k \<le> 8"
    using nz by (auto simp: k_def int_width_def int_tag_diff_def)
  have buf: "to_be_bytes n = be_bytes (8 - k + k) (unat n)" using k by (simp add: to_be_bytes_def)
  have "take (8 - k) (to_be_bytes n) = replicate (8 - k) (if sint n < 0 then 255 else 0)"
    unfolding buf take_be_bytes int_high_bytes [OF k_def k(2)]
    using be_bytes_ones [of "8 - k" 0] by (simp add: be_bytes_zero)
  then show ?thesis
    unfolding write_tagged_int_def Let_def k(1) [symmetric]
    using nz by (simp add: buf drop_be_bytes int_bytes_def int_tag_def k_def list_all_iff)
qed

lemma int_code [order_code_simps]:
  "cmp_of (int_bytes a @ s) (int_bytes b @ t) = then_with (cmp_of (sint a) (sint b)) (cmp_of s t)"
proof (cases "int_tag (sint a)" "int_tag (sint b)" rule: linorder_cases)
  case equal
  define k where "k = int_width (sint a)"
  have k: "k = int_width (sint b)" using int_tag_width [OF equal] by (simp add: k_def)
  have sign: "sint a < 0 \<longleftrightarrow> sint b < 0" using equal by (rule int_tag_sign)
  have lo: "unat a mod 256 ^ k = nat (if sint a < 0 then sint a + 256 ^ k else sint a)"
    "unat b mod 256 ^ k = nat (if sint b < 0 then sint b + 256 ^ k else sint b)"
    using int_low_bytes [of a] int_low_bytes [of b] k k_def by simp_all
  have "0 \<le> sint a + 256 ^ k" "0 \<le> sint b + 256 ^ k"
    using int_width_fits(2) [of a] int_width_fits(2) [of b] unfolding k_def [symmetric] k [symmetric] by simp_all
  then have c: "cmp_of (unat a mod 256 ^ k) (unat b mod 256 ^ k) = cmp_of (sint a) (sint b)"
    unfolding lo using sign by (intro cmp_of_mono) auto
  have "cmp_of (be_bytes k (unat a mod 256 ^ k) @ s) (be_bytes k (unat b mod 256 ^ k) @ t)
      = then_with (cmp_of (unat a mod 256 ^ k) (unat b mod 256 ^ k)) (cmp_of s t)"
    by (rule be_bytes_code) simp_all
  then have "cmp_of (be_bytes k (unat a) @ s) (be_bytes k (unat b) @ t)
      = then_with (cmp_of (sint a) (sint b)) (cmp_of s t)"
    using be_bytes_mod [of k "unat a" 0] be_bytes_mod [of k "unat b" 0] by (simp add: c)
  then show ?thesis unfolding int_bytes_def k_def [symmetric] k [symmetric] using equal by simp
next
  case less
  with int_tag_order [OF less] show ?thesis by (simp add: int_bytes_def cmp_of_def)
next
  case greater
  with int_tag_order [OF greater] show ?thesis by (auto simp: int_bytes_def cmp_of_def)
qed

subsection \<open>Floats\<close>

lemma total_cmp_key_eq: "total_cmp_key f = (if bit f 63 then f XOR mask 63 else f)"
  by (rule bit_word_eqI) (auto simp: total_cmp_key_def bit_simps dest: bit_imp_le_length)

lemma and_sign_bit: "w AND sign_bit = 0 \<longleftrightarrow> \<not> bit w 63"
  by (simp only: sign_bit_def bit_iff_and_push_bit_not_eq_0) simp

lemma bit_sign_bit: "bit sign_bit n \<longleftrightarrow> n = 63"
  unfolding sign_bit_def bit_push_bit_iff bit_1_iff by auto

lemma float_key_eq: "float_key f = total_cmp_key f XOR sign_bit"
  by (rule bit_word_eqI)
    (auto simp: float_key_def total_cmp_key_eq bit_sign_bit and_sign_bit bit_simps)

lemma xor_sign_bit: "w XOR sign_bit = w + sign_bit"
proof (cases "bit w 63")
  case False
  then have "w AND sign_bit = 0" by (simp add: and_sign_bit)
  from disjunctive_add_eq_xor [OF this] show ?thesis by simp
next
  case True
  define v where "v = w XOR sign_bit"
  have w: "w = v XOR sign_bit" by (simp add: v_def xor.assoc)
  have "\<not> bit v 63" using True by (simp add: v_def bit_xor_iff bit_sign_bit)
  then have "v AND sign_bit = 0" by (simp add: and_sign_bit)
  from disjunctive_add_eq_xor [OF this] w have "w = v + sign_bit" by simp
  moreover have "sign_bit + sign_bit = 0" by (simp add: sign_bit_def)
  ultimately have "w + sign_bit = v" by (simp add: add.assoc)
  then show ?thesis by (simp add: v_def)
qed

lemma unat_flip_sign: "int (unat (w XOR sign_bit)) = sint w + 2 ^ 63"
proof -
  have "uint (w + sign_bit) = (uint w + 2 ^ 63) mod 2 ^ 64"
    by (simp add: sign_bit_def uint_word_ariths)
  also have "\<dots> = sint w + 2 ^ 63"
    by (simp add: sint_uint signed_take_bit_eq_take_bit_shift take_bit_eq_mod)
  finally show ?thesis by (simp only: xor_sign_bit uint_nat)
qed

lemma float_code [order_code_simps]:
  "cmp_of (to_be_bytes (float_key a) @ s) (to_be_bytes (float_key b) @ t)
    = then_with (total_cmp a b) (cmp_of s t)"
proof -
  have lt: "unat (x :: 64 word) < 256 ^ 8" for x
    using unsigned_less [of x, where 'a = nat] by simp
  have "cmp_of (unat (float_key a)) (unat (float_key b)) = total_cmp a b"
    unfolding total_cmp_def float_key_eq
    using unat_flip_sign [of "total_cmp_key a"] unat_flip_sign [of "total_cmp_key b"]
    by (intro cmp_of_mono) linarith+
  then show ?thesis unfolding to_be_bytes_def be_bytes_code [OF lt lt] by simp
qed

subsection \<open>Values\<close>

lemma write_tagged_int_total: "\<exists>k. write_sort_key (Int64 i) = Inr k"
  by (simp add: write_tagged_int_bytes)

lemma write_elements_total:
  "(\<And>v. v \<in> set vs \<Longrightarrow> \<exists>k. write_sort_key v = Inr k) \<Longrightarrow> \<exists>ks. write_elements vs = Inr ks"
proof (induction vs)
  case (Cons v vs)
  then obtain k ks where "write_sort_key v = Inr k" "write_elements vs = Inr ks" by fastforce
  then show ?case by simp
qed simp

lemma write_pairs_total:
  "(\<And>f. f \<in> set fs \<Longrightarrow> \<exists>k. write_sort_key (snd f) = Inr k) \<Longrightarrow> \<exists>ks. write_pairs fs = Inr ks"
proof (induction fs)
  case (Cons f fs)
  then obtain k ks where "write_sort_key (snd f) = Inr k" "write_pairs fs = Inr ks" by fastforce
  then show ?case by (cases f) simp
qed simp

lemma write_sort_key_total: "\<exists>k. write_sort_key v = Inr k"
proof (induction v rule: value_induct)
  case (Array sz n items)
  then obtain ks where "write_elements items = Inr ks" using write_elements_total by blast
  then show ?case by simp
next
  case (Object sz n fs)
  then obtain ks where "write_pairs fs = Inr ks" using write_pairs_total by blast
  then show ?case by simp
qed (use write_tagged_int_total in auto)

definition value_bytes :: "ConvexValue \<Rightarrow> bytes" where
  "value_bytes v = (case write_sort_key v of Inr k \<Rightarrow> k | Inl _ \<Rightarrow> [])"

lemma write_sort_key_bytes [simp]: "write_sort_key v = Inr (value_bytes v)"
  using write_sort_key_total [of v] by (auto simp: value_bytes_def)

abbreviation pair_bytes :: "field_name \<times> ConvexValue \<Rightarrow> bytes" where
  "pair_bytes f \<equiv> write_escaped_bytes (fst f) @ value_bytes (snd f)"

lemma write_elements_bytes: "write_elements vs = Inr (concat (map value_bytes vs))"
  by (induction vs) simp_all

lemma write_pairs_bytes: "write_pairs fs = Inr (concat (map pair_bytes fs))"
proof (induction fs)
  case (Cons f fs)
  then show ?case by (cases f) simp
qed simp

lemma value_bytes_simps [simp]:
  "value_bytes Null = [3]"
  "value_bytes (Int64 i) = int_bytes i"
  "value_bytes (Float64 f) = 13 # to_be_bytes (float_key f)"
  "value_bytes (Boolean b) = [if b then 15 else 14]"
  "value_bytes (String s) = 16 # write_escaped_bytes s"
  "value_bytes (Bytes s) = 17 # write_escaped_bytes s"
  "value_bytes (Array (ConvexArray sz n items)) = 18 # concat (map value_bytes items) @ [0]"
  "value_bytes (Object (ConvexObject sz n fs)) = 21 # concat (map pair_bytes fs) @ [0]"
  by (simp_all add: value_bytes_def write_elements_bytes write_pairs_bytes write_tagged_int_bytes
      int_bytes_def int_tag_def int_width_def del: write_sort_key_bytes)

fun value_tag :: "ConvexValue \<Rightarrow> byte" where
  "value_tag Null = 3"
| "value_tag (Int64 i) = int_tag (sint i)"
| "value_tag (Float64 _) = 13"
| "value_tag (Boolean b) = (if b then 15 else 14)"
| "value_tag (String _) = 16"
| "value_tag (Bytes _) = 17"
| "value_tag (Array _) = 18"
| "value_tag (Object _) = 21"

lemma value_bytes_tag: "\<exists>r. value_bytes v = value_tag v # r"
  by (cases v rule: wf_value.cases) (simp_all add: int_bytes_def)

lemma value_tag_range: "3 \<le> value_tag v" "value_tag v \<le> 21"
  using int_tag_bounds order_trans [of 3 4 "int_tag _"] order_trans [of "int_tag _" 12 21]
  by (cases v; simp)+

lemma value_tag_order: "type_tag a < type_tag b \<Longrightarrow> value_tag a < value_tag b"
proof -
  have i: "3 < int_tag i" "int_tag i < 13" for i
    using int_tag_bounds [of i] less_le_trans [of 3 4 "int_tag i"] le_less_trans [of "int_tag i" 12 13] by auto
  have "int_tag i < 14" "int_tag i < 15" "int_tag i < 16" "int_tag i < 17" "int_tag i < 18" "int_tag i < 21" for i
    using less_trans [OF i(2) [of i]] by auto
  with i show "type_tag a < type_tag b \<Longrightarrow> value_tag a < value_tag b"
    by (cases a; cases b) auto
qed

lemma value_bytes_tame [simp]: "tame (value_bytes v @ s)"
  using value_bytes_tag [of v] value_tag_range(2) [of v] by (auto simp: tame_def)

lemma value_bytes_no_terminator: "cmp_of (0 # s) (value_bytes v @ t) = Less" "cmp_of (value_bytes v @ t) (0 # s) = Greater"
  using value_bytes_tag [of v] value_tag_range(1) [of v] by (auto simp: word_gt_0)

text \<open>
  The documentation requires field names to be non-empty; the check of the source does not. Sort keys
  are self-delimiting only without empty field names.
\<close>

fun names_nonempty :: "ConvexValue \<Rightarrow> bool" where
  "names_nonempty (Array (ConvexArray _ _ items)) \<longleftrightarrow> (\<forall>v \<in> set items. names_nonempty v)"
| "names_nonempty (Object (ConvexObject _ _ fs)) \<longleftrightarrow> (\<forall>f \<in> set fs. fst f \<noteq> [] \<and> names_nonempty (snd f))"
| "names_nonempty _ \<longleftrightarrow> True"

definition keyable :: "ConvexValue \<Rightarrow> bool" where
  "keyable v \<longleftrightarrow> wf_value v \<and> names_nonempty v"

lemma keyable_array: "keyable (Array (ConvexArray sz n items)) \<Longrightarrow> v \<in> set items \<Longrightarrow> keyable v"
  by (simp add: keyable_def)

lemma keyable_object:
  "keyable (Object (ConvexObject sz n fs)) \<Longrightarrow> f \<in> set fs
    \<Longrightarrow> fst f \<noteq> [] \<and> check_valid_field_name (fst f) = Inr () \<and> keyable (snd f)"
  by (auto simp: keyable_def)

lemma field_name_bytes:
  assumes "f \<noteq> []" "check_valid_field_name f = Inr ()"
  obtains c r where "write_escaped_bytes f = c # r" "c \<noteq> 0" "c \<noteq> 255"
proof -
  obtain c f' where f: "f = c # f'" using assms(1) by (cases f) auto
  then have "32 \<le> c" "c < 127" using assms(2) by (simp_all add: check_valid_field_name_iff)
  then have "c \<noteq> 0" "c \<noteq> 255" by auto
  with f that show thesis by simp
qed

lemma field_no_terminator:
  assumes "f \<noteq> []" "check_valid_field_name f = Inr ()"
  shows "cmp_of (0 # s) (write_escaped_bytes f @ t) = Less" "cmp_of (write_escaped_bytes f @ t) (0 # s) = Greater"
    "tame (write_escaped_bytes f @ t)"
  using field_name_bytes [OF assms] by (metis append_Cons cmp_of_list(1) cmp_of_zero then_with.simps tame_simps(2))+

definition codes :: "bytes \<Rightarrow> bytes \<Rightarrow> Ordering \<Rightarrow> bool" where
  "codes x y c \<longleftrightarrow> (\<forall>s t. tame s \<longrightarrow> tame t \<longrightarrow> cmp_of (x @ s) (y @ t) = then_with c (cmp_of s t))"

lemma codes_terminated:
  "codes (x @ [0]) (y @ [0]) c \<longleftrightarrow> (\<forall>s t. tame s \<longrightarrow> tame t \<longrightarrow> cmp_of (x @ 0 # s) (y @ 0 # t) = then_with c (cmp_of s t))"
  by (simp add: codes_def)

lemma codes_cong_tag: "codes x y c \<Longrightarrow> codes (b # x) (b # y) c"
  by (simp add: codes_def)

lemma tame_items [simp]: "tame (concat (map value_bytes vs) @ 0 # s)"
  by (cases vs) simp_all

lemma tame_pairs:
  assumes "\<And>f. f \<in> set fs \<Longrightarrow> fst f \<noteq> [] \<and> check_valid_field_name (fst f) = Inr ()"
  shows "tame (concat (map pair_bytes fs) @ 0 # s)"
  using assms by (cases fs) (simp_all add: field_no_terminator(3))

text \<open>The types without components.\<close>

lemma boolean_code: "codes [if a then 15 else 14] [if b then 15 else 14] (cmp_of a b)"
  by (cases a; cases b) (simp_all add: codes_def cmp_of_def)

lemma cmp_code_flat:
  assumes "type_tag a = type_tag b" "type_tag a \<noteq> 7" "type_tag a \<noteq> 10"
  shows "\<exists>c. cv_cmp a b = Inr c \<and> codes (value_bytes a) (value_bytes b) c"
proof (cases a)
  case Null
  with assms show ?thesis by (cases b) (simp_all add: cv_cmp.simps(1) codes_def)
next
  case (Int64 i)
  with assms obtain j where "b = Int64 j" by (cases b) simp_all
  with Int64 show ?thesis by (simp add: cv_cmp.simps(1) codes_def int_code)
next
  case (Float64 f)
  with assms obtain g where "b = Float64 g" by (cases b) simp_all
  with Float64 show ?thesis by (simp add: cv_cmp.simps(1) codes_def float_code)
next
  case (Boolean x)
  with assms obtain y where "b = Boolean y" by (cases b) simp_all
  with Boolean show ?thesis using boolean_code [of x y] by (simp add: cv_cmp.simps(1))
next
  case (String x)
  with assms obtain y where "b = String y" by (cases b) simp_all
  with String show ?thesis by (simp add: cv_cmp.simps(1) codes_def escaped_code)
next
  case (Bytes x)
  with assms obtain y where "b = Bytes y" by (cases b) simp_all
  with Bytes show ?thesis by (simp add: cv_cmp.simps(1) codes_def escaped_code)
qed (use assms in simp_all)

lemma cmp_code:
  "keyable a \<Longrightarrow> keyable b \<Longrightarrow> \<exists>c. cv_cmp a b = Inr c \<and> codes (value_bytes a) (value_bytes b) c"
  "(\<And>v. v \<in> set xs \<Longrightarrow> keyable v) \<Longrightarrow> (\<And>v. v \<in> set ys \<Longrightarrow> keyable v) \<Longrightarrow>
     \<exists>c. cmp_items xs ys = Inr c
       \<and> codes (concat (map value_bytes xs) @ [0]) (concat (map value_bytes ys) @ [0]) c"
  "(\<And>f. f \<in> set fs \<Longrightarrow> fst f \<noteq> [] \<and> check_valid_field_name (fst f) = Inr () \<and> keyable (snd f)) \<Longrightarrow>
   (\<And>f. f \<in> set gs \<Longrightarrow> fst f \<noteq> [] \<and> check_valid_field_name (fst f) = Inr () \<and> keyable (snd f)) \<Longrightarrow>
     \<exists>c. cmp_fields fs gs = Inr c
       \<and> codes (concat (map pair_bytes fs) @ [0]) (concat (map pair_bytes gs) @ [0]) c"
proof (induction a b and xs ys and fs gs rule: cv_cmp_cmp_items_cmp_fields.induct)
  case (1 self other)
  show ?case
  proof (cases "type_tag self = type_tag other")
    case False
    have "codes (value_bytes self) (value_bytes other) (cmp_of (type_tag self) (type_tag other))"
      using False value_bytes_tag [of self] value_bytes_tag [of other]
        value_tag_order [of self other] value_tag_order [of other self]
      by (auto simp: codes_def cmp_of_def)
    with False show ?thesis by (simp add: cv_cmp.simps(1))
  next
    case True
    show ?thesis
    proof (cases self)
      case (Array a)
      with True obtain b where "other = Array b" by (cases other) auto
      with Array obtain sz n xs sz' n' ys where e: "self = Array (ConvexArray sz n xs)" "other = Array (ConvexArray sz' n' ys)"
        by (cases a; cases b) simp
      have "\<exists>c. cmp_items xs ys = Inr c
          \<and> codes (concat (map value_bytes xs) @ [0]) (concat (map value_bytes ys) @ [0]) c"
        by (rule "1.IH"(1)) (use e "1.prems" keyable_array in auto)
      then show ?thesis using e by (auto simp: cv_cmp.simps(1) intro: codes_cong_tag)
    next
      case (Object a)
      with True obtain b where "other = Object b" by (cases other) auto
      with Object obtain sz n xs sz' n' ys where e: "self = Object (ConvexObject sz n xs)" "other = Object (ConvexObject sz' n' ys)"
        by (cases a; cases b) simp
      have "\<exists>c. cmp_fields xs ys = Inr c
          \<and> codes (concat (map pair_bytes xs) @ [0]) (concat (map pair_bytes ys) @ [0]) c"
        by (rule "1.IH"(2)) (use e "1.prems" keyable_object in auto)
      then show ?thesis using e by (auto simp: cv_cmp.simps(1) intro: codes_cong_tag)
    qed (rule cmp_code_flat [OF True]; simp)+
  qed
next
  case (5 x xs y ys)
  then obtain c where c: "cv_cmp x y = Inr c" "codes (value_bytes x) (value_bytes y) c" by auto
  show ?case
  proof (cases "c = Equal")
    case True
    with 5 c obtain d where d: "cmp_items xs ys = Inr d"
      "codes (concat (map value_bytes xs) @ [0]) (concat (map value_bytes ys) @ [0]) d" by auto
    with c True show ?thesis by (auto simp: codes_def)
  next
    case False
    with c show ?thesis by (cases c) (auto simp: codes_def)
  qed
next
  case (9 f x fs g y gs)
  show ?case
  proof (cases "f = g")
    case False
    then have "then_with (cmp_of f g) c = cmp_of f g" for c by (simp add: cmp_of_def)
    then have "codes (pair_bytes (f, x) @ p) (pair_bytes (g, y) @ q) (cmp_of f g)" for p q
      using tame_simps value_bytes_tame by (simp add: codes_def escaped_code)
    with False show ?thesis by simp
  next
    case True
    have "keyable x" "keyable y" using "9.prems"(1) [of "(f, x)"] "9.prems"(2) [of "(g, y)"] by simp_all
    with "9.IH"(1) True obtain c where c: "cv_cmp x y = Inr c" "codes (value_bytes x) (value_bytes y) c"
      by auto
    have t: "tame (concat (map pair_bytes fs) @ 0 # s)" "tame (concat (map pair_bytes gs) @ 0 # s)" for s
      using "9.prems" by (intro tame_pairs; simp)+
    show ?thesis
    proof (cases "c = Equal")
      case eq: True
      with 9 c True obtain d where d: "cmp_fields fs gs = Inr d"
        "codes (concat (map pair_bytes fs) @ [0]) (concat (map pair_bytes gs) @ [0]) d" by auto
      with c True eq t show ?thesis by (auto simp: codes_def escaped_code)
    next
      case neq: False
      with c True t show ?thesis by (cases c) (auto simp: codes_def escaped_code)
    qed
  qed
qed (simp_all add: codes_def value_bytes_no_terminator field_no_terminator)

text \<open>The ordering that the comparison returns.\<close>

definition value_ordering :: "ConvexValue \<Rightarrow> ConvexValue \<Rightarrow> Ordering" where
  "value_ordering a b = (case cv_cmp a b of Inr c \<Rightarrow> c | Inl _ \<Rightarrow> Equal)"

fun optional_ordering :: "ConvexValue option \<Rightarrow> ConvexValue option \<Rightarrow> Ordering" where
  "optional_ordering None None = Equal"
| "optional_ordering None (Some b) = Less"
| "optional_ordering (Some a) None = Greater"
| "optional_ordering (Some a) (Some b) = value_ordering a b"

definition optional_bytes :: "ConvexValue option \<Rightarrow> bytes" where
  "optional_bytes v = (case v of None \<Rightarrow> [UNDEFINED_TAG] | Some v \<Rightarrow> value_bytes v)"

interpretation sort: tagged_code keyable value_bytes value_ordering
proof
  fix a b s t assume "keyable a" "keyable b" "tame s" "tame t"
  with cmp_code(1) [of a b]
  show "cmp_of (value_bytes a @ s) (value_bytes b @ t) = then_with (value_ordering a b) (cmp_of s t)"
    by (auto simp: codes_def value_ordering_def)
qed simp

lemma undefined_first: "cmp_of (1 # s) (value_bytes v @ t) = Less" "cmp_of (value_bytes v @ t) (1 # s) = Greater"
proof -
  have "(1 :: byte) < value_tag v"
    using value_tag_range(1) [of v] less_le_trans [of 1 "3 :: byte" "value_tag v"] by simp
  with value_bytes_tag [of v]
  show "cmp_of (1 # s) (value_bytes v @ t) = Less" "cmp_of (value_bytes v @ t) (1 # s) = Greater"
    by (auto simp: cmp_of_def)
qed

interpretation optional: tagged_code "\<lambda>v. v = None \<or> keyable (the v)" optional_bytes optional_ordering
proof
  fix a b s t
  assume "a = None \<or> keyable (the a)" "b = None \<or> keyable (the b)" "tame s" "tame t"
  then show "cmp_of (optional_bytes a @ s) (optional_bytes b @ t)
      = then_with (optional_ordering a b) (cmp_of s t)"
    by (cases a; cases b) (simp_all add: optional_bytes_def sort.code undefined_first del: cmp_of_simps(2-4))
next
  fix a s assume "a = None \<or> keyable (the a)"
  then show "tame (optional_bytes a @ s)" by (cases a) (simp_all add: optional_bytes_def)
qed

lemma values_to_bytes_concat: "values_to_bytes vs = Inr (concat (map optional_bytes vs))"
proof (induction vs)
  case (Cons v vs)
  then show ?case by (cases v) (simp_all add: optional_bytes_def)
qed simp

subsection \<open>Properties\<close>

text \<open>
  C10: sort keys order values as the direct comparison does. For well-formed values without empty
  field names neither the encoder nor the comparison panics, and comparing the sort keys as byte
  strings gives the result of \<^verbatim>\<open>ConvexValue::cmp\<close>, equality included.
\<close>

theorem sort_key_order:
  assumes "wf_value a" "names_nonempty a" "wf_value b" "names_nonempty b"
  shows "\<exists>ka kb. cv_sort_key a = Inr ka \<and> cv_sort_key b = Inr kb \<and> cv_cmp a b = Inr (cmp_of ka kb)"
proof -
  have k: "keyable a" "keyable b" using assms by (simp_all add: keyable_def)
  with cmp_code(1) [OF k] sort.order [OF k] show ?thesis
    by (auto simp: cv_sort_key_def value_ordering_def)
qed

theorem sort_key_order_witness:
  "\<exists>ka kb. cv_sort_key (Array (ConvexArray 14 1 [Int64 (- 2), Null, String []])) = Inr ka
     \<and> cv_sort_key (Array (ConvexArray 11 1 [Int64 7])) = Inr kb
     \<and> cv_cmp (Array (ConvexArray 14 1 [Int64 (- 2), Null, String []])) (Array (ConvexArray 11 1 [Int64 7]))
         = Inr (cmp_of ka kb)"
proof -
  have w: "wf_value (Array (ConvexArray 14 1 [Int64 (- 2), Null, String []]))"
    "wf_value (Array (ConvexArray 11 1 [Int64 7]))"
    by (simp_all add: array_try_from_iff max_nesting_def MAX_ARRAY_LEN_def MAX_SIZE_def MAX_NESTING_def
        string_size_def)
  from sort_key_order [OF w(1) _ w(2)] show ?thesis by (simp add: cv_sort_key_def)
qed

text \<open>
  C11: the byte string of an index key, the sort keys of its values one after the other with undefined
  for a missing field, orders keys by value. For two keys with the same number of values, all of them
  well-formed and without empty field names, writing the byte strings never panics, and comparing
  them, each followed by anything that does not start with the escape byte, compares the values
  lexicographically with missing fields first, and then what follows (the document id, whose sort key
  does not start with the escape byte).
\<close>

theorem values_to_bytes_order:
  assumes "length xs = length ys"
    and "\<forall>v. Some v \<in> set xs \<union> set ys \<longrightarrow> wf_value v \<and> names_nonempty v"
  shows "\<exists>kx ky. values_to_bytes xs = Inr kx \<and> values_to_bytes ys = Inr ky
    \<and> (\<forall>s t. tame s \<and> tame t \<longrightarrow>
         cmp_of (kx @ s) (ky @ t) = then_with (lex_cmp optional_ordering xs ys) (cmp_of s t))"
proof -
  have "v = None \<or> keyable (the v)" if "v \<in> set xs \<union> set ys" for v
    using assms(2) that by (cases v) (auto simp: keyable_def)
  with optional.seq [OF assms(1)] show ?thesis by (simp add: values_to_bytes_concat)
qed

theorem values_to_bytes_order_witness:
  "\<exists>kx ky. values_to_bytes [None, Some (Int64 5)] = Inr kx \<and> values_to_bytes [Some Null, None] = Inr ky
     \<and> cmp_of (kx @ [9]) (ky @ [1]) = Less"
proof -
  have "\<forall>v. Some v \<in> set [None, Some (Int64 5)] \<union> set [Some Null, None] \<longrightarrow> wf_value v \<and> names_nonempty v"
    by auto
  from values_to_bytes_order [OF _ this] show ?thesis
    by (force simp del: cmp_of_simps)
qed

text \<open>
  C29: without the restriction on field names the order is lost. The check of field names accepts the
  empty name, and for two well-formed values, an array of an empty object and a string and an array of
  an object whose only field has the empty name, the comparison and the sort keys disagree.
\<close>

theorem empty_field_name_breaks_order:
  "check_valid_field_name [] = Inr ()
   \<and> (\<exists>a b ka kb. wf_value a \<and> wf_value b \<and> cv_cmp a b = Inr Less
        \<and> cv_sort_key a = Inr ka \<and> cv_sort_key b = Inr kb \<and> kb < ka)"
proof -
  let ?a = "Array (ConvexArray 7 2 [Object (ConvexObject 2 1 []), String [120]])"
  let ?b = "Array (ConvexArray 6 2 [Object (ConvexObject 4 1 [([], Null)])])"
  have "wf_value ?a" "wf_value ?b"
    by (simp_all add: array_try_from_iff object_try_from_iff max_nesting_def MAX_ARRAY_LEN_def MAX_SIZE_def
        MAX_NESTING_def MAX_OBJECT_FIELDS_def string_size_def bt_wf_Cons check_valid_field_name_iff)
  moreover have "cv_cmp ?a ?b = Inr Less" by (simp add: cv_cmp.simps(1))
  moreover have "cv_sort_key ?a = Inr [18, 21, 0, 16, 120, 0, 0]" "cv_sort_key ?b = Inr [18, 21, 0, 3, 0, 0]"
    by (simp_all add: cv_sort_key_def)
  moreover have "[18, 21, 0, 3, 0, 0] < [18, 21, 0, 16, 120, 0, 0 :: byte]" by simp
  moreover have "check_valid_field_name [] = Inr ()" by (simp add: check_valid_field_name_iff)
  ultimately show ?thesis by blast
qed

end
