(* ===== verification/Sort_Key_Decode.thy ===== *)
theory Sort_Key_Decode
  imports Sort_Key_Order
begin

text \<open>
  Reading sort keys back, and what follows for equality: the decoder of \<^verbatim>\<open>sorting.rs\<close> inverts the
  encoder on well-formed values without empty field names, the bound on its recursion is never the
  reason for an error, and the assertions in the equality of arrays and objects hold.
\<close>

subsection \<open>The decoder without look-ahead\<close>

text \<open>
  The functions of the decoder on the input that is left, which is the byte that the peeker holds, if
  any, and what its reader has. The lemmas on values are about these; the section on the peeker below
  shows that the decoder of the code computes the same.
\<close>

fun input_escaped_bytes :: "bytes \<Rightarrow> error + bytes \<times> bytes" where
  "input_escaped_bytes [] = Inl unexpected_eof"
| "input_escaped_bytes (b # rest) =
     (if b = TERMINATOR_BYTE
      then case rest of
             c # rest' \<Rightarrow>
               if c = ESCAPE_BYTE
               then and_then (input_escaped_bytes rest') (\<lambda>(out, r). Inr (TERMINATOR_BYTE # out, r))
               else Inr ([], rest)
           | [] \<Rightarrow> Inr ([], rest)
      else and_then (input_escaped_bytes rest) (\<lambda>(out, r). Inr (b # out, r)))"

definition input_escaped_string :: "bytes \<Rightarrow> error + bytes \<times> bytes" where
  "input_escaped_string bs =
     and_then (input_escaped_bytes bs)
       (\<lambda>(s, r). if utf8_valid s then Inr (s, r) else Inl (Bail ''invalid utf-8 sequence''))"

definition input_exact :: "nat \<Rightarrow> bytes \<Rightarrow> error + bytes \<times> bytes" where
  "input_exact n bs = (if length bs < n then Inl unexpected_eof else Inr (take n bs, drop n bs))"

definition input_tagged_int :: "byte \<Rightarrow> bytes \<Rightarrow> error + 64 word \<times> bytes" where
  "input_tagged_int tag bs =
     (let is_negative = tag < ZERO_INT64_TAG;
          tag_diff = max tag ZERO_INT64_TAG - min tag ZERO_INT64_TAG;
          num_bytes = 2 ^ (unat tag_diff - 1)
      in and_then (input_exact num_bytes bs)
           (\<lambda>(buf, r). Inr (from_be_bytes
              (replicate (8 - num_bytes) (if is_negative then 0xFF else 0) @ buf), r)))"

fun input_value :: "nat \<Rightarrow> bytes \<Rightarrow> error + ConvexValue \<times> bytes"
and input_elements :: "nat \<Rightarrow> bytes \<Rightarrow> error + ConvexValue list \<times> bytes"
and input_pairs :: "nat \<Rightarrow> fields \<Rightarrow> bytes \<Rightarrow> error + fields \<times> bytes" where
  "input_value 0 bs = Inl (Bail ''recursion bound'')"
| "input_value (Suc n) bs =
     (case bs of
        [] \<Rightarrow> Inl unexpected_eof
      | tag # rest \<Rightarrow>
          if tag = NULL_TAG then Inr (Null, rest)
          else if tag = ZERO_INT64_TAG then Inr (Int64 0, rest)
          else if NEG_INT64_8_BYTE_TAG \<le> tag \<and> tag \<le> POS_INT64_8_BYTE_TAG
          then and_then (input_tagged_int tag rest) (\<lambda>(i, r). Inr (Int64 i, r))
          else if tag = FLOAT64_TAG
          then and_then (input_exact 8 rest)
                 (\<lambda>(buf, r). let f = from_be_bytes buf
                    in Inr (Float64 (if f AND sign_bit \<noteq> 0 then f AND NOT sign_bit else NOT f), r))
          else if tag = FALSE_BOOLEAN_TAG then Inr (Boolean False, rest)
          else if tag = TRUE_BOOLEAN_TAG then Inr (Boolean True, rest)
          else if tag = STRING_TAG
          then and_then (input_escaped_string rest)
                 (\<lambda>(s, r). and_then (string_try_from s) (\<lambda>s'. Inr (String s', r)))
          else if tag = BYTES_TAG
          then and_then (input_escaped_bytes rest)
                 (\<lambda>(b, r). and_then (bytes_try_from b) (\<lambda>b'. Inr (Bytes b', r)))
          else if tag = ARRAY_TAG
          then and_then (input_elements n rest)
                 (\<lambda>(items, r). and_then (array_try_from items) (\<lambda>a. Inr (Array a, r)))
          else if tag = OBJECT_TAG
          then and_then (input_pairs n [] rest)
                 (\<lambda>(fs, r). and_then (object_try_from fs) (\<lambda>m. Inr (Object m, r)))
          else if tag = ESCAPE_BYTE then Inl (Bail ''Escape code used as tag'')
          else Inl (Bail ''Unrecognized tag''))"
| "input_elements 0 bs = Inl (Bail ''recursion bound'')"
| "input_elements (Suc n) bs =
     (if bs \<noteq> [] \<and> hd bs = TERMINATOR_BYTE then Inr ([], tl bs)
      else and_then (input_value n bs)
        (\<lambda>(v, r). and_then (input_elements n r) (\<lambda>(vs, r'). Inr (v # vs, r'))))"
| "input_pairs 0 acc bs = Inl (Bail ''recursion bound'')"
| "input_pairs (Suc n) acc bs =
     (if bs \<noteq> [] \<and> hd bs = TERMINATOR_BYTE then Inr (acc, tl bs)
      else and_then (input_escaped_string bs)
        (\<lambda>(s, r). and_then (field_name_from_str s)
          (\<lambda>field. and_then (input_value n r)
            (\<lambda>(v, r'). if bt_get acc field \<noteq> None
                       then Inl (Bail ''Duplicate element in encoded object'')
                       else input_pairs n (bt_insert field v acc) r'))))"

subsection \<open>Strings and numbers\<close>

lemma input_escaped_bytes_inverse [simp]:
  "tame s \<Longrightarrow> input_escaped_bytes (write_escaped_bytes b @ s) = Inr (b, s)"
proof (induction b)
  case Nil
  then show ?case by (cases s) auto
qed auto

lemma utf8_valid_ascii: "\<forall>c \<in> set s. c < 128 \<Longrightarrow> utf8_valid s"
  by (induction s) simp_all

lemma field_name_utf8: "check_valid_field_name f = Inr () \<Longrightarrow> utf8_valid f"
proof (rule utf8_valid_ascii, rule ballI)
  fix c assume "check_valid_field_name f = Inr ()" "c \<in> set f"
  then have "c < 127" by (simp add: check_valid_field_name_iff)
  then show "c < 128" using less_trans [of c 127 128] by simp
qed

lemma foldl_be_bytes:
  "foldl (\<lambda>acc b. acc * 256 + unat b) a (be_bytes n x) = a * 256 ^ n + x mod 256 ^ n"
proof (induction n arbitrary: a)
  case (Suc n)
  have "unat (of_nat (x div 256 ^ n mod 256) :: byte) = x div 256 ^ n mod 256"
    by (simp add: unat_of_nat)
  moreover have "x mod 256 ^ Suc n = 256 ^ n * (x div 256 ^ n mod 256) + x mod 256 ^ n"
    using mod_mult2_eq [of x "256 ^ n" 256] by (simp add: mult.commute)
  ultimately show ?case using Suc by (simp add: algebra_simps)
qed simp

lemma from_to_be_bytes [simp]: "from_be_bytes (to_be_bytes w) = w"
proof -
  have "unat w < 256 ^ 8" using unsigned_less [of w, where 'a = nat] by simp
  then show ?thesis by (simp add: from_be_bytes_def to_be_bytes_def foldl_be_bytes)
qed

lemma length_to_be_bytes [simp]: "length (to_be_bytes w) = 8"
  by (simp add: to_be_bytes_def)

lemma int_buffer:
  assumes "n \<noteq> 0"
  shows "replicate (8 - int_width (sint n)) (if sint n < 0 then 255 else 0)
      @ be_bytes (int_width (sint n)) (unat n) = to_be_bytes n"
proof -
  let ?k = "int_width (sint n)"
  have k: "?k \<le> 8" by (rule int_width_fits)
  have buf: "to_be_bytes n = be_bytes (8 - ?k + ?k) (unat n)" using k by (simp add: to_be_bytes_def)
  have "take (8 - ?k) (to_be_bytes n) = replicate (8 - ?k) (if sint n < 0 then 255 else 0)"
    unfolding buf take_be_bytes int_high_bytes [OF refl k]
    using be_bytes_ones [of "8 - ?k" 0] by (simp add: be_bytes_zero)
  moreover have "drop (8 - ?k) (to_be_bytes n) = be_bytes ?k (unat n)"
    unfolding buf by (rule drop_be_bytes)
  ultimately show ?thesis by (metis append_take_drop_id)
qed

lemma int_tag_decode:
  assumes "i \<noteq> 0"
  shows "int_tag i < 8 \<longleftrightarrow> i < 0" "2 ^ (unat (max (int_tag i) 8 - min (int_tag i) 8) - 1) = int_width i"
  using assms by (cases i rule: int_class_cases; simp add: max_def min_def)+

lemma input_exact_append [simp]: "length b = n \<Longrightarrow> input_exact n (b @ s) = Inr (b, s)"
  by (simp add: input_exact_def)

lemma input_tagged_int_inverse:
  assumes "n \<noteq> 0"
  shows "input_tagged_int (int_tag (sint n)) (be_bytes (int_width (sint n)) (unat n) @ s) = Inr (n, s)"
proof -
  have "sint n \<noteq> 0" using assms by (simp add: signed_eq_0_iff)
  from int_tag_decode [OF this] show ?thesis
    by (simp add: input_tagged_int_def Let_def int_buffer [OF assms])
qed

lemma float_key_inverse:
  "(if float_key f AND sign_bit \<noteq> 0 then float_key f AND NOT sign_bit else NOT (float_key f)) = f"
  by (rule bit_word_eqI) (auto simp: float_key_def and_sign_bit bit_sign_bit bit_simps)

subsection \<open>Values\<close>

lemma input_elements_inverse:
  assumes "\<And>v n s. v \<in> set vs \<Longrightarrow> tame s \<Longrightarrow> 2 * length (value_bytes v @ s) + 1 \<le> n
      \<Longrightarrow> input_value n (value_bytes v @ s) = Inr (v, s)"
    and "2 * length (concat (map value_bytes vs) @ 0 # s) + 2 \<le> n"
  shows "input_elements n (concat (map value_bytes vs) @ 0 # s) = Inr (vs, s)"
  using assms
proof (induction vs arbitrary: n)
  case Nil
  then show ?case by (cases n) simp_all
next
  case (Cons v vs)
  then obtain m where n: "n = Suc m" by (cases n) simp_all
  obtain r where b: "value_bytes v = value_tag v # r" using value_bytes_tag by blast
  have "input_value m (value_bytes v @ concat (map value_bytes vs) @ 0 # s)
      = Inr (v, concat (map value_bytes vs) @ 0 # s)"
    using Cons.prems by (intro Cons.prems(1)) (simp_all add: n)
  moreover have "input_elements m (concat (map value_bytes vs) @ 0 # s) = Inr (vs, s)"
    using Cons.prems b by (intro Cons.IH) (simp_all add: n)
  moreover have "value_tag v \<noteq> 0" using value_tag_range(1) [of v] by auto
  ultimately show ?case by (simp add: n) (simp add: b)
qed

lemma bt_insert_last: "bt_wf (acc @ (f, v) # fs) \<Longrightarrow> bt_insert f v acc = acc @ [(f, v)]"
proof -
  assume "bt_wf (acc @ (f, v) # fs)"
  then have "\<forall>e \<in> set acc. fst e < f" by (auto simp: bt_wf_append)
  then have "filter (\<lambda>e. fst e < f) acc = acc" "filter (\<lambda>e. f < fst e) acc = []"
    by (auto simp: filter_id_conv filter_empty_conv)
  then show ?thesis by (simp add: bt_insert_def)
qed

lemma input_pairs_inverse:
  assumes "\<And>f n s. f \<in> set fs \<Longrightarrow> tame s \<Longrightarrow> 2 * length (value_bytes (snd f) @ s) + 1 \<le> n
      \<Longrightarrow> input_value n (value_bytes (snd f) @ s) = Inr (snd f, s)"
    and "\<And>f. f \<in> set fs \<Longrightarrow> fst f \<noteq> [] \<and> check_valid_field_name (fst f) = Inr ()"
    and "bt_wf (acc @ fs)"
    and "2 * length (concat (map pair_bytes fs) @ 0 # s) + 2 \<le> n"
  shows "input_pairs n acc (concat (map pair_bytes fs) @ 0 # s) = Inr (acc @ fs, s)"
  using assms
proof (induction fs arbitrary: n acc)
  case Nil
  then show ?case by (cases n) simp_all
next
  case (Cons fv fs)
  obtain f v where fv: "fv = (f, v)" by (cases fv)
  obtain m where n: "n = Suc m" using Cons.prems(4) by (cases n) simp_all
  let ?rest = "concat (map pair_bytes fs) @ 0 # s"
  have f: "f \<noteq> []" "check_valid_field_name f = Inr ()" using Cons.prems(2) [of fv] fv by simp_all
  obtain c r where b: "write_escaped_bytes f = c # r" "c \<noteq> 0" using field_name_bytes [OF f] by metis
  have "tame ?rest" using Cons.prems(2) by (intro tame_pairs) simp
  then have v: "input_value m (value_bytes v @ ?rest) = Inr (v, ?rest)"
    using Cons.prems(4) Cons.prems(1) [of fv ?rest m] by (simp add: n fv)
  have s: "input_escaped_string (write_escaped_bytes f @ value_bytes v @ ?rest) = Inr (f, value_bytes v @ ?rest)"
    using f by (simp add: input_escaped_string_def field_name_utf8)
  have wf: "bt_wf (acc @ (f, v) # fs)" using Cons.prems(3) fv by simp
  then have "bt_get acc f = None" by (auto simp: bt_get_None_iff bt_wf_append)
  moreover have "input_pairs m (acc @ [(f, v)]) ?rest = Inr ((acc @ [(f, v)]) @ fs, s)"
    using Cons.prems b wf fv by (intro Cons.IH) (simp_all add: n)
  ultimately have "input_pairs n acc (write_escaped_bytes f @ value_bytes v @ ?rest) = Inr (acc @ (f, v) # fs, s)"
    using v s b f bt_insert_last [OF wf] by (simp add: n field_name_from_str_def)
  then show ?case by (simp add: fv)
qed

lemma input_value_inverse:
  "keyable v \<Longrightarrow> tame s \<Longrightarrow> 2 * length (value_bytes v @ s) + 1 \<le> n
    \<Longrightarrow> input_value n (value_bytes v @ s) = Inr (v, s)"
proof (induction v arbitrary: n s rule: value_induct)
  case (Int64 i)
  then obtain m where n: "n = Suc m" by (cases n) simp_all
  show ?case
  proof (cases "i = 0")
    case True
    then show ?thesis by (simp add: n int_bytes_def int_tag_def int_width_def)
  next
    case False
    then have "sint i \<noteq> 0" by (simp add: signed_eq_0_iff)
    with int_tag_bounds [of "sint i"] have "4 \<le> int_tag (sint i)" "int_tag (sint i) \<le> 12"
      "int_tag (sint i) \<noteq> 8" "int_tag (sint i) \<noteq> 3"
      by auto
    with input_tagged_int_inverse [OF False, of s] show ?thesis by (simp add: n int_bytes_def)
  qed
next
  case (Float64 f)
  then obtain m where n: "n = Suc m" by (cases n) simp_all
  have "\<not> (13 :: byte) \<le> 12" by simp
  with float_key_inverse [of f] show ?case by (simp add: n Let_def split: if_splits)
next
  case (Array sz k items)
  then obtain m where n: "n = Suc m" by (cases n) simp_all
  have "input_elements m (concat (map value_bytes items) @ 0 # s) = Inr (items, s)"
    using Array by (intro input_elements_inverse) (auto simp: n keyable_def)
  with Array.prems(1) show ?case by (simp add: n keyable_def)
next
  case (Object sz k fs)
  then obtain m where n: "n = Suc m" by (cases n) simp_all
  have "input_pairs m [] (concat (map pair_bytes fs) @ 0 # s) = Inr ([] @ fs, s)"
    using Object by (intro input_pairs_inverse) (auto simp: n keyable_def)
  with Object.prems(1) show ?case by (simp add: n keyable_def)
next
  case (Boolean b)
  then show ?case by (cases n; cases b) simp_all
next
  case (String b)
  then show ?case by (cases n) (simp_all add: keyable_def input_escaped_string_def and_then_Inr_iff)
next
  case (Bytes b)
  then show ?case by (cases n) (simp_all add: keyable_def and_then_Inr_iff)
next
  case Null
  then show ?case by (cases n) simp_all
qed

subsection \<open>The bound on the recursion\<close>

lemma and_then_cong: "(\<And>x. r = Inr x \<Longrightarrow> f x = g x) \<Longrightarrow> and_then r f = and_then r g"
  by (cases r) simp_all

lemma input_escaped_bytes_shorter: "input_escaped_bytes bs = Inr (b, r) \<Longrightarrow> length r < length bs"
proof (induction bs arbitrary: b r rule: input_escaped_bytes.induct)
  case (2 x rest)
  then show ?case
    by (auto simp: and_then_Inr_iff split: if_splits list.splits) (fastforce dest: less_SucI)+
qed simp

lemma input_escaped_string_shorter: "input_escaped_string bs = Inr (b, r) \<Longrightarrow> length r < length bs"
  by (auto simp: input_escaped_string_def and_then_Inr_iff split: if_splits dest: input_escaped_bytes_shorter)

lemma input_exact_shorter: "input_exact n bs = Inr (b, r) \<Longrightarrow> length r \<le> length bs"
  by (auto simp: input_exact_def split: if_splits)

lemma input_tagged_int_shorter: "input_tagged_int t bs = Inr (b, r) \<Longrightarrow> length r \<le> length bs"
  by (auto simp: input_tagged_int_def Let_def and_then_Inr_iff dest: input_exact_shorter)

lemma input_shorter:
  "input_value n bs = Inr (v, r) \<Longrightarrow> length r < length bs"
  "input_elements n bs = Inr (vs, r) \<Longrightarrow> length r < length bs"
  "input_pairs n acc bs = Inr (fs, r) \<Longrightarrow> length r < length bs"
proof (induction n arbitrary: bs v vs fs acc r)
  case (Suc n)
  { case 1
    then show ?case
      by (auto simp: and_then_Inr_iff Let_def split: list.splits if_splits
          dest!: Suc.IH input_tagged_int_shorter input_exact_shorter input_escaped_bytes_shorter
            input_escaped_string_shorter)
  next
    case 2
    then show ?case
      by (auto simp: and_then_Inr_iff neq_Nil_conv split: if_splits dest!: Suc.IH(1,2))
  next
    case 3
    then show ?case
      by (auto simp: and_then_Inr_iff neq_Nil_conv split: if_splits
          dest!: Suc.IH(1,3) input_escaped_string_shorter) }
qed simp_all

lemma input_bound:
  "2 * length bs + 1 \<le> n \<Longrightarrow> 2 * length bs + 1 \<le> m \<Longrightarrow> input_value n bs = input_value m bs"
  "2 * length bs + 2 \<le> n \<Longrightarrow> 2 * length bs + 2 \<le> m \<Longrightarrow> input_elements n bs = input_elements m bs"
  "2 * length bs + 2 \<le> n \<Longrightarrow> 2 * length bs + 2 \<le> m \<Longrightarrow> input_pairs n acc bs = input_pairs m acc bs"
proof (induction n arbitrary: bs m acc)
  case (Suc n)
  { case 1
    then obtain k where m: "m = Suc k" by (cases m) simp_all
    show ?case
    proof (cases bs)
      case (Cons tag rest)
      then have "input_elements n rest = input_elements k rest" "input_pairs n [] rest = input_pairs k [] rest"
        using 1 m by (auto intro: Suc.IH)
      then show ?thesis by (simp add: m Cons)
    qed (simp add: m)
  next
    case 2
    then obtain k where m: "m = Suc k" by (cases m) simp_all
    have "input_value n bs = input_value k bs" using 2 m by (intro Suc.IH) simp_all
    moreover have "input_elements n r = input_elements k r" if "input_value k bs = Inr (v, r)" for v r
      using 2 m input_shorter(1) [OF that] by (intro Suc.IH) simp_all
    ultimately show ?case by (auto simp: m intro!: and_then_cong)
  next
    case 3
    then obtain k where m: "m = Suc k" by (cases m) simp_all
    have "input_value n r = input_value k r" if "input_escaped_string bs = Inr (f, r)" for f r
      using 3 m input_escaped_string_shorter [OF that] by (intro Suc.IH) simp_all
    moreover have "input_pairs n a r' = input_pairs k a r'"
      if "input_escaped_string bs = Inr (f, r)" "input_value k r = Inr (v, r')" for f v r r' a
      using 3 m input_escaped_string_shorter [OF that(1)] input_shorter(1) [OF that(2)]
      by (intro Suc.IH) simp_all
    ultimately show ?case by (auto simp: m intro!: and_then_cong) }
qed simp_all

subsection \<open>The peeker\<close>

definition unpeek :: "error + 'a \<times> BytePeeker \<Rightarrow> error + 'a \<times> bytes" where
  "unpeek r = and_then r (\<lambda>(x, p). Inr (x, bp_rest p))"

lemma unpeek_simps [simp]: "unpeek (Inl e) = Inl e" "unpeek (Inr (x, p)) = Inr (x, bp_rest p)"
  by (simp_all add: unpeek_def)

lemma unpeek_Inr: "r = Inr (x, p) \<Longrightarrow> unpeek r = Inr (x, bp_rest p)"
  by simp

lemma unpeek_and_then:
  "unpeek r = r' \<Longrightarrow> (\<And>x p. r = Inr (x, p) \<Longrightarrow> unpeek (f (x, p)) = g (x, bp_rest p))
    \<Longrightarrow> unpeek (and_then r f) = and_then r' g"
  by (cases r) auto

lemma unpeek_pure [simp]: "unpeek (and_then r (\<lambda>x. Inr (g x, p))) = and_then r (\<lambda>x. Inr (g x, bp_rest p))"
  by (cases r) simp_all

lemma bp_rest_simps [simp]:
  "bp_rest (bp_new reader) = reader" "bp_rest \<lparr>bp_buf = None, bp_reader = r\<rparr> = r"
  "bp_rest \<lparr>bp_buf = Some b, bp_reader = r\<rparr> = b # r"
  by (simp_all add: bp_new_def bp_rest_def)

lemma bp_peek_eq: "bp_peek p = (c, p') \<Longrightarrow> c = (if bp_rest p = [] then None else Some (hd (bp_rest p)))"
  by (auto simp: bp_peek_def bp_rest_def split: option.splits list.splits)

lemma bp_peek_buf: "bp_peek p = (c, p') \<Longrightarrow> bp_buf p' = c"
  by (auto simp: bp_peek_def split: option.splits list.splits)

lemma bp_read_eq:
  "0 < n \<Longrightarrow> bp_read n p = (take n (bp_rest p), \<lparr>bp_buf = None, bp_reader = drop n (bp_rest p)\<rparr>)"
  by (cases n) (auto simp: bp_read_def bp_rest_def split: option.splits)

lemma read_exact_eq:
  "0 < n \<Longrightarrow> read_exact n p = (if length (bp_rest p) < n then Inl unexpected_eof
     else Inr (take n (bp_rest p), \<lparr>bp_buf = None, bp_reader = drop n (bp_rest p)\<rparr>))"
proof (induction n p rule: read_exact.induct)
  case (1 n p)
  let ?k = "length (take n (bp_rest p))"
  have step: "read_exact n p = (if take n (bp_rest p) = [] then Inl unexpected_eof
      else and_then (read_exact (n - ?k) \<lparr>bp_buf = None, bp_reader = drop n (bp_rest p)\<rparr>)
        (\<lambda>(bs, p''). Inr (take n (bp_rest p) @ bs, p'')))"
    using 1(2) by (subst read_exact.simps) (simp add: bp_read_eq)
  have zero: "read_exact 0 q = Inr ([], q)" for q by (subst read_exact.simps) simp
  consider "bp_rest p = []" | "bp_rest p \<noteq> []" "n \<le> length (bp_rest p)" | "bp_rest p \<noteq> []" "\<not> n \<le> length (bp_rest p)"
    by blast
  then show ?case
  proof cases
    case 1
    then show ?thesis using step \<open>0 < n\<close> by simp
  next
    case 2
    then show ?thesis using step zero \<open>0 < n\<close> by simp
  next
    case 3
    note False = this
    then have k: "0 < n - ?k" "take n (bp_rest p) \<noteq> []" by auto
    have "read_exact (n - ?k) \<lparr>bp_buf = None, bp_reader = drop n (bp_rest p)\<rparr> = Inl unexpected_eof"
      using 1(1) [OF _ bp_read_eq [OF 1(2), of p, symmetric] k(2) k(1)] 1(2) False k by simp
    then show ?thesis using step False k by simp
  qed
qed

lemma read_exact_rest [simp]: "0 < n \<Longrightarrow> unpeek (read_exact n p) = input_exact n (bp_rest p)"
  by (simp add: read_exact_eq input_exact_def)

lemma read_escaped_bytes_rest [simp]: "unpeek (read_escaped_bytes p) = input_escaped_bytes (bp_rest p)"
proof (induction p rule: read_escaped_bytes.induct)
  case (1 p)
  show ?case
  proof (cases "bp_rest p")
    case Nil
    then show ?thesis by (subst read_escaped_bytes.simps) (simp add: read_u8_eq)
  next
    case (Cons b r)
    let ?p1 = "\<lparr>bp_buf = None, bp_reader = r\<rparr>"
    have u8: "read_u8 p = Inr (b, ?p1)" by (simp add: read_u8_eq Cons)
    obtain c p2 where peek: "bp_peek ?p1 = (c, p2)" by fastforce
    have p2: "bp_rest p2 = r" "c = (if r = [] then None else Some (hd r))"
      using bp_peek_rest [OF peek] bp_peek_eq [OF peek] by simp_all
    show ?thesis
    proof (cases "b = TERMINATOR_BYTE")
      case False
      have "unpeek (read_escaped_bytes ?p1) = input_escaped_bytes r" using 1(2) [OF u8] False by simp
      then show ?thesis
        using False by (subst read_escaped_bytes.simps) (auto simp: u8 Cons intro: unpeek_and_then)
    next
      case True
      show ?thesis
      proof (cases "c = Some ESCAPE_BYTE")
        case False
        then show ?thesis
          using True p2 by (subst read_escaped_bytes.simps) (auto simp: u8 Cons peek split: list.splits)
      next
        case esc: True
        then obtain r' where r: "r = ESCAPE_BYTE # r'" using p2 by (cases r) auto
        let ?p3 = "\<lparr>bp_buf = None, bp_reader = r'\<rparr>"
        have u8': "read_u8 p2 = Inr (ESCAPE_BYTE, ?p3)" by (simp add: read_u8_eq p2 r)
        have "unpeek (read_escaped_bytes ?p3) = input_escaped_bytes r'"
          using 1(1) [OF u8 _ _ peek [symmetric] esc u8'] True by simp
        then show ?thesis
          using True by (subst read_escaped_bytes.simps) (auto simp: u8 u8' Cons r peek [unfolded r] esc intro: unpeek_and_then)
      qed
    qed
  qed
qed

lemma read_escaped_string_rest [simp]: "unpeek (read_escaped_string p) = input_escaped_string (bp_rest p)"
  unfolding read_escaped_string_def input_escaped_string_def by (rule unpeek_and_then) auto

lemma read_tagged_int_rest [simp]: "unpeek (read_tagged_int tag p) = input_tagged_int tag (bp_rest p)"
  unfolding read_tagged_int_def input_tagged_int_def Let_def by (rule unpeek_and_then) auto

lemma read_rest:
  "unpeek (read_value n p) = input_value n (bp_rest p)"
  "unpeek (read_elements n p) = input_elements n (bp_rest p)"
  "unpeek (read_pairs n acc p) = input_pairs n acc (bp_rest p)"
proof (induction n arbitrary: p acc)
  case (Suc n)
  { case 1
    show ?case
    proof (cases "bp_rest p")
      case Nil
      then show ?thesis by (simp add: read_u8_eq)
    next
      case (Cons tag r)
      then have u8: "read_u8 p = Inr (tag, \<lparr>bp_buf = None, bp_reader = r\<rparr>)" by (simp add: read_u8_eq)
      show ?thesis
        by (simp add: u8 Cons del: input_escaped_bytes.simps)
          (auto simp: Suc.IH Let_def simp del: input_escaped_bytes.simps intro!: unpeek_and_then)
    qed
  next
    case 2
    obtain c p' where peek: "bp_peek p = (c, p')" by fastforce
    note p' = bp_peek_rest [OF peek] bp_peek_eq [OF peek]
    have "unpeek (and_then (read_value n p') (\<lambda>(v, r). and_then (read_elements n r) (\<lambda>(vs, r'). Inr (v # vs, r'))))
        = and_then (input_value n (bp_rest p)) (\<lambda>(v, r). and_then (input_elements n r) (\<lambda>(vs, r'). Inr (v # vs, r')))"
      by (intro unpeek_and_then) (auto simp: Suc.IH p' intro!: unpeek_and_then)
    then show ?case by (auto simp: peek p' read_u8_eq neq_Nil_conv split: list.splits)
  next
    case 3
    obtain c p' where peek: "bp_peek p = (c, p')" by fastforce
    note p' = bp_peek_rest [OF peek] bp_peek_eq [OF peek]
    show ?case
    proof (cases "c = Some TERMINATOR_BYTE")
      case True
      then show ?thesis by (auto simp: peek p' read_u8_eq neq_Nil_conv split: list.splits)
    next
      case False
      have "unpeek (and_then (read_escaped_string p') (\<lambda>(s, r). and_then (field_name_from_str s)
            (\<lambda>field. and_then (read_value n r) (\<lambda>(v, r'). if bt_get acc field \<noteq> None
               then Inl (Bail ''Duplicate element in encoded object'') else read_pairs n (bt_insert field v acc) r'))))
          = and_then (input_escaped_string (bp_rest p)) (\<lambda>(s, r). and_then (field_name_from_str s)
            (\<lambda>field. and_then (input_value n r) (\<lambda>(v, r'). if bt_get acc field \<noteq> None
               then Inl (Bail ''Duplicate element in encoded object'') else input_pairs n (bt_insert field v acc) r')))"
      proof (intro unpeek_and_then)
        fix s q
        show "unpeek (case (s, q) of (s, r) \<Rightarrow> and_then (field_name_from_str s) (\<lambda>field. and_then (read_value n r)
              (\<lambda>(v, r'). if bt_get acc field \<noteq> None then Inl (Bail ''Duplicate element in encoded object'')
                 else read_pairs n (bt_insert field v acc) r')))
            = (case (s, bp_rest q) of (s, r) \<Rightarrow> and_then (field_name_from_str s) (\<lambda>field. and_then (input_value n r)
              (\<lambda>(v, r'). if bt_get acc field \<noteq> None then Inl (Bail ''Duplicate element in encoded object'')
                 else input_pairs n (bt_insert field v acc) r')))"
          by (cases "field_name_from_str s") (auto simp: Suc.IH intro!: unpeek_and_then)
      qed (simp add: p')
      with False show ?thesis by (auto simp: peek p')
    qed }
qed simp_all

text \<open>
  Which byte the peeker holds at the end: after a string or a byte string the one that follows, and
  none after any other value.
\<close>

definition looks_ahead :: "ConvexValue \<Rightarrow> bool" where
  "looks_ahead v \<longleftrightarrow> (case v of String _ \<Rightarrow> True | Bytes _ \<Rightarrow> True | _ \<Rightarrow> False)"

lemma bp_peek_reader: "bp_peek p = (c, p') \<Longrightarrow> bp_reader p' = tl (bp_rest p')"
  by (auto simp: bp_peek_def bp_rest_def split: option.splits list.splits)

lemma read_escaped_bytes_reader: "read_escaped_bytes p = Inr (b, p') \<Longrightarrow> bp_reader p' = tl (bp_rest p')"
proof (induction p arbitrary: b p' rule: read_escaped_bytes.induct)
  case (1 p)
  from 1(3) obtain byte p1 where u8: "read_u8 p = Inr (byte, p1)"
    by (subst (asm) read_escaped_bytes.simps) (auto simp: and_then_Inr_iff)
  obtain c p2 where peek: "bp_peek p1 = (c, p2)" by fastforce
  consider "byte \<noteq> TERMINATOR_BYTE" | "byte = TERMINATOR_BYTE" "c \<noteq> Some ESCAPE_BYTE"
    | p3 u where "byte = TERMINATOR_BYTE" "c = Some ESCAPE_BYTE" "read_u8 p2 = Inr (u, p3)"
    using 1(3) by (subst (asm) read_escaped_bytes.simps) (auto simp: u8 peek and_then_Inr_iff split: if_splits)
  then show ?case
  proof cases
    case 1
    then obtain out where "read_escaped_bytes p1 = Inr (out, p')"
      using \<open>read_escaped_bytes p = Inr (b, p')\<close>
      by (subst (asm) read_escaped_bytes.simps) (auto simp: u8 peek and_then_Inr_iff)
    then show ?thesis using "1.IH"(2) [OF u8] 1 by simp
  next
    case 2
    then have "p' = p2"
      using \<open>read_escaped_bytes p = Inr (b, p')\<close>
      by (subst (asm) read_escaped_bytes.simps) (auto simp: u8 peek and_then_Inr_iff)
    then show ?thesis using bp_peek_reader [OF peek] by simp
  next
    case 3
    then obtain out where "read_escaped_bytes p3 = Inr (out, p')"
      using \<open>read_escaped_bytes p = Inr (b, p')\<close>
      by (subst (asm) read_escaped_bytes.simps) (auto simp: u8 peek and_then_Inr_iff)
    then show ?thesis using "1.IH"(1) [OF u8 _ _ peek [symmetric] 3(2,3)] 3(1) by simp
  qed
qed

lemma read_u8_reader: "read_u8 p = Inr (b, p') \<Longrightarrow> bp_reader p' = bp_rest p'"
  by (auto simp: read_u8_eq split: list.splits)

lemma read_exact_reader: "read_exact n p = Inr (b, p') \<Longrightarrow> 0 < n \<Longrightarrow> bp_reader p' = bp_rest p'"
  by (auto simp: read_exact_eq split: if_splits)

lemma read_elements_reader:
  "read_elements n p = Inr (vs, p') \<Longrightarrow> bp_reader p' = bp_rest p'"
proof (induction n arbitrary: p vs)
  case (Suc n)
  obtain c q where "bp_peek p = (c, q)" by fastforce
  with Suc show ?case by (auto simp: and_then_Inr_iff split: if_splits dest: read_u8_reader)
qed simp

lemma read_pairs_reader:
  "read_pairs n acc p = Inr (fs, p') \<Longrightarrow> bp_reader p' = bp_rest p'"
proof (induction n arbitrary: p acc)
  case (Suc n)
  obtain c q where "bp_peek p = (c, q)" by fastforce
  with Suc show ?case by (auto simp: and_then_Inr_iff split: if_splits dest: read_u8_reader)
qed simp

lemma read_value_reader:
  "read_value n p = Inr (v, p') \<Longrightarrow> bp_reader p' = (if looks_ahead v then tl (bp_rest p') else bp_rest p')"
  by (cases n)
    (auto simp: looks_ahead_def read_tagged_int_def read_escaped_string_def Let_def and_then_Inr_iff
      split: if_splits dest: read_u8_reader read_exact_reader read_elements_reader read_pairs_reader read_escaped_bytes_reader)

lemma read_dropped:
  "and_then (read_value n p) (\<lambda>(v, p'). Inr (v, bp_reader p'))
     = and_then (input_value n (bp_rest p)) (\<lambda>(v, r). Inr (v, if looks_ahead v then tl r else r))"
proof (cases "read_value n p")
  case (Inl e)
  then have "input_value n (bp_rest p) = Inl e" using read_rest(1) [of n p] by simp
  with Inl show ?thesis by simp
next
  case (Inr vp)
  then obtain v p' where vp: "read_value n p = Inr (v, p')" by (cases vp) auto
  then have "input_value n (bp_rest p) = Inr (v, bp_rest p')" using read_rest(1) [of n p] by simp
  with vp read_value_reader [OF vp] show ?thesis by simp
qed

lemma read_sort_key_eq:
  "read_sort_key reader = and_then (input_value (2 * length reader + 1) reader)
     (\<lambda>(v, r). Inr (v, if looks_ahead v then tl r else r))"
  unfolding read_sort_key_def read_dropped bp_rest_simps ..

lemma read_value_at:
  assumes "keyable v" "tame s" "bp_rest p = value_bytes v @ s" "2 * length (bp_rest p) + 1 \<le> n"
  shows "\<exists>p'. read_value n p = Inr (v, p') \<and> bp_rest p' = s"
proof -
  have "unpeek (read_value n p) = Inr (v, s)"
    using read_rest(1) [of n p] input_value_inverse [OF assms(1,2)] assms(3,4) by simp
  then show ?thesis by (auto simp: unpeek_def and_then_Inr_iff)
qed

lemma bytes_to_values_loop_inverse:
  "\<forall>v \<in> set vs. keyable v \<Longrightarrow> bp_rest p = concat (map value_bytes vs) \<Longrightarrow> length vs \<le> n
    \<Longrightarrow> bytes_to_values_loop n p = Inr (map Some vs)"
proof (induction vs arbitrary: n p)
  case Nil
  obtain c p' where "bp_peek p = (c, p')" by fastforce
  with bp_peek_eq [OF this] Nil show ?case by (subst bytes_to_values_loop.simps) simp
next
  case (Cons v vs)
  obtain m where n: "n = Suc m" using Cons.prems(3) by (cases n) simp_all
  obtain c p' where peek: "bp_peek p = (c, p')" by fastforce
  obtain r where b: "value_bytes v = value_tag v # r" using value_bytes_tag by blast
  have c: "c = Some (value_tag v)" using bp_peek_eq [OF peek] Cons.prems(2) b by simp
  have rest: "bp_rest p' = value_bytes v @ concat (map value_bytes vs)"
    using bp_peek_rest [OF peek] Cons.prems(2) by simp
  have "tame (concat (map value_bytes vs))"
  proof (cases vs)
    case (Cons w ws)
    obtain r' where "value_bytes w = value_tag w # r'" using value_bytes_tag by blast
    with Cons value_tag_range(2) [of w] show ?thesis by auto
  qed simp
  then obtain q where "read_value (2 * length (bp_rest p') + 1) p' = Inr (v, q)" "bp_rest q = concat (map value_bytes vs)"
    using read_value_at [of v _ p', OF _ _ rest] Cons.prems(1) by (metis le_refl list.set_intros(1))
  with Cons c peek n show ?case by (subst bytes_to_values_loop.simps) (simp del: read_value.simps bytes_to_values_loop.simps)
qed

lemma length_value_bytes: "length vs \<le> length (concat (map value_bytes vs))"
proof (induction vs)
  case (Cons v vs)
  obtain r where "value_bytes v = value_tag v # r" using value_bytes_tag by blast
  with Cons show ?case by simp
qed simp

subsection \<open>Equality\<close>

lemma value_bytes_inj:
  assumes "keyable a" "keyable b" "value_bytes a = value_bytes b"
  shows "a = b"
proof -
  let ?n = "2 * length (value_bytes a) + 1"
  have "input_value ?n (value_bytes a @ []) = Inr (a, [])" "input_value ?n (value_bytes b @ []) = Inr (b, [])"
    using assms by (intro input_value_inverse; simp)+
  with assms(3) show ?thesis by simp
qed

lemma cv_eq_iff: "keyable a \<Longrightarrow> keyable b \<Longrightarrow> cv_eq a b = Inr (a = b)"
  using cmp_code(1) [of a b] sort.inj [of a b] value_bytes_inj [of a b]
  by (auto simp: cv_eq_def value_ordering_def)

lemma eq_lists_iff:
  "length xs = length ys \<Longrightarrow> (\<And>x y. x \<in> set xs \<Longrightarrow> y \<in> set ys \<Longrightarrow> eq x y = Inr (x = y))
    \<Longrightarrow> eq_lists eq xs ys = Inr (xs = ys)"
  by (induction xs ys rule: list_induct2) auto

lemma vec_eq_iff:
  "(\<And>x y. x \<in> set xs \<Longrightarrow> y \<in> set ys \<Longrightarrow> eq x y = Inr (x = y)) \<Longrightarrow> vec_eq eq xs ys = Inr (xs = ys)"
  by (auto simp: vec_eq_def eq_lists_iff)

lemma array_eq_iff:
  assumes "keyable (Array a)" "keyable (Array b)"
  shows "array_eq a b = Inr (a = b)"
proof -
  obtain sz n xs sz' n' ys where a: "a = ConvexArray sz n xs" "b = ConvexArray sz' n' ys"
    by (cases a; cases b) simp
  have "vec_eq cv_eq xs ys = Inr (xs = ys)"
    using assms a by (intro vec_eq_iff cv_eq_iff) (auto simp: keyable_def)
  moreover have "sz = sz' \<and> n = n'" if "xs = ys"
    using assms that a by (auto simp: keyable_def array_try_from_iff)
  ultimately show ?thesis by (auto simp: array_eq_def assert_same_derived_def a)
qed

lemma object_eq_iff:
  assumes "keyable (Object m)" "keyable (Object m')"
  shows "object_eq m m' = Inr (m = m')"
proof -
  obtain oz k fs oz' k' gs where m: "m = ConvexObject oz k fs" "m' = ConvexObject oz' k' gs"
    by (cases m; cases m') simp
  have "vec_eq (\<lambda>(f, x) (g, y). if f = g then cv_eq x y else Inr False) fs gs = Inr (fs = gs)"
    using assms m keyable_object cv_eq_iff by (intro vec_eq_iff) (fastforce split: prod.splits)
  moreover have "oz = oz' \<and> k = k'" if "fs = gs"
    using assms that m by (auto simp: keyable_def object_try_from_iff)
  ultimately show ?thesis by (auto simp: object_eq_def assert_same_derived_def m)
qed

subsection \<open>Properties\<close>

text \<open>
  C12: reading a sort key gives the value back. For a well-formed value without empty field names, the
  decoder on its sort key, followed by anything that does not start with the escape byte (which is no
  tag), returns the value and leaves what follows, so that sort keys are self-delimiting; only after
  a string or a byte string one byte of what follows is gone as well, because the reader looks one
  byte ahead and is dropped with it. Reading the sort keys of a list of such values through one reader
  loses nothing and gives the list.
\<close>

theorem sort_key_roundtrip:
  assumes "\<forall>v \<in> set vs. wf_value v \<and> names_nonempty v" and "rest = [] \<or> hd rest \<noteq> ESCAPE_BYTE"
  shows "(\<forall>v \<in> set vs. \<exists>k. cv_sort_key v = Inr k \<and> read_sort_key (k @ rest) = Inr (v,
      case v of String _ \<Rightarrow> tl rest | Bytes _ \<Rightarrow> tl rest | _ \<Rightarrow> rest))
    \<and> (\<exists>b. values_to_bytes (map Some vs) = Inr b \<and> bytes_to_values b = Inr (map Some vs))"
proof (intro conjI ballI)
  fix v assume "v \<in> set vs"
  then have "keyable v" "tame rest" using assms by (simp_all add: keyable_def tame_def)
  then have "input_value (2 * length (value_bytes v @ rest) + 1) (value_bytes v @ rest) = Inr (v, rest)"
    by (rule input_value_inverse) simp
  then show "\<exists>k. cv_sort_key v = Inr k \<and> read_sort_key (k @ rest) = Inr (v,
      case v of String _ \<Rightarrow> tl rest | Bytes _ \<Rightarrow> tl rest | _ \<Rightarrow> rest)"
    by (simp add: cv_sort_key_def read_sort_key_eq looks_ahead_def del: input_value.simps split: ConvexValue.splits)
next
  have k: "\<forall>v \<in> set vs. keyable v" using assms(1) by (simp add: keyable_def)
  have "values_to_bytes (map Some vs) = Inr (concat (map value_bytes vs))"
    by (simp add: values_to_bytes_concat optional_bytes_def comp_def)
  moreover have "bytes_to_values (concat (map value_bytes vs)) = Inr (map Some vs)"
    unfolding bytes_to_values_def using k length_value_bytes
    by (intro bytes_to_values_loop_inverse) simp_all
  ultimately show "\<exists>b. values_to_bytes (map Some vs) = Inr b \<and> bytes_to_values b = Inr (map Some vs)" by blast
qed

theorem sort_key_roundtrip_witness:
  "(\<exists>k. cv_sort_key (Object (ConvexObject 13 1 [(ascii ''a'', Int64 (- 300))])) = Inr k
     \<and> read_sort_key (k @ [3]) = Inr (Object (ConvexObject 13 1 [(ascii ''a'', Int64 (- 300))]), [3]))
   \<and> (\<exists>k. cv_sort_key (String (ascii ''a'')) = Inr k \<and> read_sort_key (k @ [3]) = Inr (String (ascii ''a''), []))"
proof -
  have w: "\<forall>v \<in> set [Object (ConvexObject 13 1 [(ascii ''a'', Int64 (- 300))]), String (ascii ''a'')].
      wf_value v \<and> names_nonempty v"
    by (simp add: object_try_from_iff max_nesting_def MAX_SIZE_def MAX_NESTING_def MAX_OBJECT_FIELDS_def
        bt_wf_Cons check_valid_field_name_iff ascii_def MAX_FIELD_NAME_LENGTH_def string_try_from_def check_system_size_def)
  from sort_key_roundtrip [OF w, of "[3]"] show ?thesis by (simp add: ascii_def)
qed

text \<open>
  C26: the decoder's answer on any input does not depend on the bound that makes its recursion
  well-founded, once this is twice the length of the input plus one: with the bound it starts with,
  an error is never due to the bound. Each value it reads consumes input.
\<close>

theorem read_sort_key_terminates:
  assumes "2 * length bs + 1 \<le> n"
  shows "and_then (read_value n (bp_new bs)) (\<lambda>(v, p). Inr (v, bp_reader p)) = read_sort_key bs
    \<and> (\<forall>v r. read_sort_key bs = Inr (v, r) \<longrightarrow> length r < length bs)"
proof -
  have "input_value n bs = input_value (2 * length bs + 1) bs" using assms by (intro input_bound) simp_all
  then have "and_then (read_value n (bp_new bs)) (\<lambda>(v, p). Inr (v, bp_reader p)) = read_sort_key bs"
    unfolding read_dropped read_sort_key_eq bp_rest_simps by (rule arg_cong)
  moreover have "length r < length bs" if "read_sort_key bs = Inr (v, r)" for v r
    using that unfolding read_sort_key_eq
    by (auto simp: and_then_Inr_iff simp del: input_value.simps dest!: input_shorter(1) split: if_splits)
  ultimately show ?thesis by blast
qed

theorem read_sort_key_terminates_witness:
  "and_then (read_value 50 (bp_new [18, 3, 0, 7])) (\<lambda>(v, p). Inr (v, bp_reader p)) = read_sort_key [18, 3, 0, 7]"
  using read_sort_key_terminates [of "[18, 3, 0, 7]" 50] by simp

text \<open>
  C36: equality of values, arrays and objects is equality. The source defines that of values by their
  comparison, and those of arrays and objects by that of their items with an assertion that the
  precomputed sizes agree; on well-formed values without empty field names neither panics, and each
  is true exactly of equal arguments.
\<close>

theorem value_equality:
  assumes "wf_value u" "names_nonempty u" "wf_value v" "names_nonempty v"
  shows "cv_eq u v = Inr (u = v)
    \<and> (\<forall>a b. u = Array a \<and> v = Array b \<longrightarrow> array_eq a b = Inr (a = b))
    \<and> (\<forall>m m'. u = Object m \<and> v = Object m' \<longrightarrow> object_eq m m' = Inr (m = m'))"
  using assms cv_eq_iff array_eq_iff object_eq_iff by (auto simp: keyable_def)

theorem value_equality_witness:
  "array_eq (ConvexArray 3 1 [Null]) (ConvexArray 2 1 []) = Inr False
   \<and> cv_eq (Object object_empty) (Object object_empty) = Inr True \<and> object_eq object_empty object_empty = Inr True"
proof -
  have w: "wf_value (Array (ConvexArray 3 1 [Null]))" "wf_value (Array (ConvexArray 2 1 []))"
    "wf_value (Object object_empty)" "names_nonempty (Array (ConvexArray 3 1 [Null]))"
    "names_nonempty (Array (ConvexArray 2 1 []))" "names_nonempty (Object object_empty)"
    by (simp_all add: object_empty_def object_try_from_iff array_try_from_iff max_nesting_def
        MAX_SIZE_def MAX_NESTING_def MAX_OBJECT_FIELDS_def MAX_ARRAY_LEN_def)
  from value_equality [OF w(1,4,2,5)] value_equality [OF w(3,6,3,6)] show ?thesis by simp
qed

end
