(* ===== verification/Document_Keys.thy ===== *)
theory Document_Keys
  imports Index_Names Sort_Key_Decode
begin

text \<open>
  Documents and the keys under which indexes store them (\<^verbatim>\<open>src/crates/common/src/document.rs\<close>,
  \<^verbatim>\<open>src/crates/common/src/index.rs\<close>). An index key is the list of the indexed values followed by the
  document id. A packed document keeps its value in a serialised form that the code only ever
  opens or unpacks. Here and in the theories that use packed documents it is its contents, the value
  that was packed; \<^verbatim>\<open>Packed_Value\<close> models the serialised form and shows that opening, unpacking and the
  index key of the contents are those of the buffer.
\<close>

subsection \<open>Documents\<close>

record DeveloperDocument =
  dd_id :: DeveloperDocumentId
  dd_creation_time :: "64 word"
  dd_value :: ConvexObject

record ResolvedDocument =
  rd_tablet_id :: tablet_id
  rd_document :: DeveloperDocument

definition rd_id :: "ResolvedDocument \<Rightarrow> ResolvedDocumentId" where
  "rd_id d = \<lparr>tablet_id = rd_tablet_id d, developer_id = dd_id (rd_document d)\<rparr>"

record PackedDocument =
  pd_value :: ConvexObject
  pd_id :: ResolvedDocumentId

definition pd_pack :: "ResolvedDocument \<Rightarrow> PackedDocument" where
  "pd_pack d = \<lparr>pd_value = dd_value (rd_document d), pd_id = rd_id d\<rparr>"

fun open_path_loop :: "ConvexValue \<Rightarrow> field_name list \<Rightarrow> ConvexValue option" where
  "open_path_loop v [] = Some v"
| "open_path_loop v (f # fs) = (case v of
     Object ob \<Rightarrow> (case object_get ob f of None \<Rightarrow> None | Some v' \<Rightarrow> open_path_loop v' fs)
   | _ \<Rightarrow> None)"

definition open_path :: "ConvexObject \<Rightarrow> field_path \<Rightarrow> ConvexValue option" where
  "open_path ob path = (if path = [] then None else open_path_loop (Object ob) path)"

subsection \<open>Index keys\<close>

record IndexKey =
  values_with_id :: "ConvexValue option list"
  key_id :: DeveloperDocumentId

type_synonym IndexKeyBytes = bytes

definition new_allow_missing :: "ConvexValue option list \<Rightarrow> DeveloperDocumentId \<Rightarrow> error + IndexKey" where
  "new_allow_missing vs did =
     and_then (id_to_value did) (\<lambda>v. Inr \<lparr>values_with_id = vs @ [Some v], key_id = did\<rparr>)"

definition index_key_new :: "ConvexValue list \<Rightarrow> DeveloperDocumentId \<Rightarrow> error + IndexKey" where
  "index_key_new vs did = new_allow_missing (map Some vs) did"

definition indexed_values :: "IndexKey \<Rightarrow> ConvexValue option list" where
  "indexed_values k = take (length (values_with_id k) - 1) (values_with_id k)"

definition index_key_to_bytes :: "IndexKey \<Rightarrow> error + IndexKeyBytes" where
  "index_key_to_bytes k = values_to_bytes (values_with_id k)"

definition index_key_into :: "IndexKey \<Rightarrow> ConvexValue option list \<times> DeveloperDocumentId" where
  "index_key_into k = (butlast (values_with_id k), key_id k)"

text \<open>The order of keys is that of their vectors of optional values.\<close>

fun cmp_optional :: "ConvexValue option \<Rightarrow> ConvexValue option \<Rightarrow> error + Ordering" where
  "cmp_optional None None = Inr Equal"
| "cmp_optional None (Some b) = Inr Less"
| "cmp_optional (Some a) None = Inr Greater"
| "cmp_optional (Some a) (Some b) = cv_cmp a b"

fun cmp_optionals :: "ConvexValue option list \<Rightarrow> ConvexValue option list \<Rightarrow> error + Ordering" where
  "cmp_optionals [] [] = Inr Equal"
| "cmp_optionals [] (y # ys) = Inr Less"
| "cmp_optionals (x # xs) [] = Inr Greater"
| "cmp_optionals (x # xs) (y # ys) =
     and_then (cmp_optional x y) (\<lambda>c. if c = Equal then cmp_optionals xs ys else Inr c)"

definition index_key_cmp :: "IndexKey \<Rightarrow> IndexKey \<Rightarrow> error + Ordering" where
  "index_key_cmp a b = cmp_optionals (values_with_id a) (values_with_id b)"

text \<open>
  The key of a document in an index on a list of field paths: through the key's values for a document,
  and by writing the sort keys one after the other for a packed one.
\<close>

definition rd_index_key :: "ResolvedDocument \<Rightarrow> field_path list \<Rightarrow> error + IndexKey" where
  "rd_index_key d paths =
     new_allow_missing (map (get_path (dd_value (rd_document d))) paths) (dd_id (rd_document d))"

fun write_index_values :: "ConvexObject \<Rightarrow> field_path list \<Rightarrow> bytes \<Rightarrow> error + bytes" where
  "write_index_values ob [] out = Inr out"
| "write_index_values ob (path # paths) out =
     and_then (write_sort_key_or_undefined (open_path ob path))
       (\<lambda>k. write_index_values ob paths (out @ k))"

definition pd_index_key :: "PackedDocument \<Rightarrow> field_path list \<Rightarrow> error + IndexKeyBytes" where
  "pd_index_key d paths =
     and_then (write_index_values (pd_value d) paths [])
       (\<lambda>out. and_then (id_encode (developer_id (pd_id d)))
          (\<lambda>s. and_then (write_sort_key (String s)) (\<lambda>k. Inr (out @ k))))"

subsection \<open>Keys split for storage\<close>

record SplitKey =
  sk_prefix :: bytes
  sk_suffix :: "bytes option"

definition MAX_INDEX_KEY_PREFIX_LEN :: nat where
  "MAX_INDEX_KEY_PREFIX_LEN = 2500"

definition split_key_new :: "bytes \<Rightarrow> SplitKey" where
  "split_key_new key =
     (if length key > MAX_INDEX_KEY_PREFIX_LEN
      then \<lparr>sk_prefix = take MAX_INDEX_KEY_PREFIX_LEN key, sk_suffix = Some (drop MAX_INDEX_KEY_PREFIX_LEN key)\<rparr>
      else \<lparr>sk_prefix = key, sk_suffix = None\<rparr>)"

subsection \<open>Updates of database indexes\<close>

datatype DatabaseIndexValue = Deleted | NonClustered ResolvedDocumentId

definition is_delete :: "DatabaseIndexValue \<Rightarrow> bool" where
  "is_delete v \<longleftrightarrow> v = Deleted"

record DatabaseIndexUpdate =
  diu_index_id :: internal_id
  diu_key :: IndexKey
  diu_value :: DatabaseIndexValue
  diu_is_system_index :: bool

subsection \<open>Opening a path and getting it\<close>

lemma open_path_loop_eq: "open_path_loop v fs = get_path_loop v fs"
proof (induction v fs rule: get_path_loop.induct)
  case (2 ob f fs)
  then show ?case by (simp add: object_get_def split: option.splits)
qed simp_all

lemma open_path_eq: "open_path ob path = get_path ob path"
  by (cases path) (simp_all add: open_path_def open_path_loop_eq object_get_def split: option.splits)

subsection \<open>Keys as bytes\<close>

lemma id_to_value_iff:
  "id_to_value did = Inr v \<longleftrightarrow> (\<exists>s. id_encode did = Inr s \<and> 1 + length s + 1 \<le> MAX_SIZE \<and> v = String s)"
  by (cases "id_encode did")
    (auto simp: id_to_value_def string_try_from_def check_system_size_def)

lemma id_to_value_total:
  assumes "length (dev_internal_id did) = 16"
  shows "\<exists>s. id_encode did = Inr s \<and> id_to_value did = Inr (String s)"
proof -
  obtain s where s: "id_encode did = Inr s" "length s = b32_encoded_len (length (id_binary did))"
    using id_encode_total [OF assms] by metis
  have "b32_encoded_len (length (id_binary did)) \<le> 37"
    using id_binary_range [OF assms] by (auto simp: b32_encoded_len_def Let_def)
  with s show ?thesis by (simp add: id_to_value_iff MAX_SIZE_def)
qed

lemma write_index_values_eq:
  "write_index_values ob paths out
     = Inr (out @ concat (map (\<lambda>p. optional_bytes (get_path ob p)) paths))"
proof (induction paths arbitrary: out)
  case (Cons p paths)
  then show ?case
    by (cases "get_path ob p") (simp_all add: open_path_eq optional_bytes_def)
qed simp

lemma pd_index_key_iff:
  "pd_index_key d paths = Inr k \<longleftrightarrow>
     (\<exists>s. id_encode (developer_id (pd_id d)) = Inr s
        \<and> k = concat (map (\<lambda>p. optional_bytes (get_path (pd_value d) p)) paths) @ value_bytes (String s))"
  by (auto simp: pd_index_key_def write_index_values_eq and_then_Inr_iff)

lemma pd_index_key_total:
  assumes "length (dev_internal_id (developer_id (pd_id d))) = 16"
  shows "\<exists>k. pd_index_key d paths = Inr k"
  using id_to_value_total [OF assms] by (auto simp: pd_index_key_iff)

lemma index_key_bytes:
  assumes "new_allow_missing vs did = Inr k"
  obtains s where "id_encode did = Inr s" "key_id k = did" "values_with_id k = vs @ [Some (String s)]"
    "index_key_to_bytes k = Inr (concat (map optional_bytes (vs @ [Some (String s)])))"
  using assms by (auto simp: new_allow_missing_def and_then_Inr_iff id_to_value_iff index_key_to_bytes_def
      values_to_bytes_concat)

lemma alphabet_ascii: "c \<in> set ALPHABET \<Longrightarrow> c < 128"
proof -
  have "list_all (\<lambda>c. c < 128) ALPHABET" by code_simp
  then show "c \<in> set ALPHABET \<Longrightarrow> c < 128" by (simp add: list_all_iff)
qed

lemma encode_block_alphabet: "length chunk \<le> 5 \<Longrightarrow> set (encode_block chunk) \<subseteq> set ALPHABET"
  using block_index_bound [of "chunk @ replicate (5 - length chunk) 0"]
  by (fastforce simp: encode_block_def word_less_nat_alt)

lemma padded_encoding_alphabet: "set (padded_encoding data) \<subseteq> set ALPHABET"
proof (induction data rule: padded_encoding.induct)
  case (1 data)
  then show ?case
    using encode_block_alphabet [of "take 5 data"] by (subst padded_encoding.simps) auto
qed

lemma keyable_id:
  assumes "length (dev_internal_id did) = 16" "id_encode did = Inr s"
  shows "keyable (String s)"
proof -
  have "set s \<subseteq> set ALPHABET"
    using assms padded_encoding_alphabet [of "id_binary did"] set_take_subset
    by (fastforce simp: id_encode_b32 b32_encode_eq)
  then have "utf8_valid s" by (intro utf8_valid_ascii) (auto intro: alphabet_ascii)
  then show ?thesis
    using id_to_value_total [OF assms(1)] assms(2)
    by (simp add: keyable_def string_try_from_iff id_to_value_iff)
qed

lemma cmp_optional_eq:
  assumes "a = None \<or> keyable (the a)" "b = None \<or> keyable (the b)"
  shows "cmp_optional a b = Inr (optional_ordering a b)"
  using assms cmp_code(1) [of "the a" "the b"]
  by (cases a; cases b) (auto simp: value_ordering_def codes_def)

lemma cmp_optionals_eq:
  assumes "\<And>v. v \<in> set xs \<union> set ys \<Longrightarrow> v = None \<or> keyable (the v)"
  shows "cmp_optionals xs ys = Inr (lex_cmp optional_ordering xs ys)"
  using assms
proof (induction xs ys rule: cmp_optionals.induct)
  case (4 x xs y ys)
  have "cmp_optional x y = Inr (optional_ordering x y)"
    using 4(2) [of x] 4(2) [of y] by (intro cmp_optional_eq) simp_all
  with 4 show ?case by (cases "optional_ordering x y") auto
qed simp_all

lemma optional_seq_inj:
  assumes "length xs = length ys" "\<And>v. v \<in> set xs \<union> set ys \<Longrightarrow> v = None \<or> keyable (the v)"
  shows "lex_cmp optional_ordering xs ys = Equal \<longleftrightarrow> xs = ys"
  using assms
proof (induction xs ys rule: list_induct2)
  case (Cons x xs y ys)
  have "optional_ordering x y = Equal \<longleftrightarrow> x = y"
    using Cons.prems [of x] Cons.prems [of y] cv_eq_iff [of "the x" "the y"] cmp_code(1) [of "the x" "the y"]
    by (cases x; cases y) (auto simp: value_ordering_def cv_eq_def codes_def split: sum.splits)
  with Cons show ?case by (cases "optional_ordering x y") auto
qed simp

text \<open>The key written from a packed document is that of the unpacked one.\<close>

lemma pd_index_key_bytes:
  assumes "length (dev_internal_id (dd_id (rd_document d))) = 16"
  shows "\<exists>k. pd_index_key (pd_pack d) paths = Inr k
    \<and> and_then (rd_index_key d paths) index_key_to_bytes = Inr k"
proof -
  obtain s where s: "id_encode (dd_id (rd_document d)) = Inr s" "id_to_value (dd_id (rd_document d)) = Inr (String s)"
    using id_to_value_total [OF assms] by blast
  then show ?thesis
    by (simp add: pd_index_key_iff pd_pack_def rd_id_def rd_index_key_def new_allow_missing_def
        index_key_to_bytes_def values_to_bytes_concat o_def optional_bytes_def)
qed

subsection \<open>Properties\<close>

text \<open>
  C30: index keys and their bytes have the same order, and no two documents share one. For keys of
  the same index (equally many values, all well-formed and without empty field names) with valid
  document ids, comparing the keys as Rust does never panics and gives the order of the byte
  strings, and keys with equal bytes have the same values and the same document id.
\<close>

theorem index_key_bytes_order:
  assumes "new_allow_missing xs ida = Inr a" and "new_allow_missing ys idb = Inr b"
    and "length xs = length ys"
    and "\<forall>v. Some v \<in> set xs \<union> set ys \<longrightarrow> wf_value v \<and> names_nonempty v"
    and "dev_table ida \<noteq> 0 \<and> length (dev_internal_id ida) = 16"
    and "dev_table idb \<noteq> 0 \<and> length (dev_internal_id idb) = 16"
  shows "\<exists>ka kb. index_key_to_bytes a = Inr ka \<and> index_key_to_bytes b = Inr kb
    \<and> index_key_cmp a b = Inr (cmp_of ka kb) \<and> (ka = kb \<longleftrightarrow> xs = ys \<and> ida = idb)"
proof -
  from assms(1) obtain s where s: "id_encode ida = Inr s" "values_with_id a = xs @ [Some (String s)]"
    and ka: "index_key_to_bytes a = Inr (concat (map optional_bytes (xs @ [Some (String s)])))"
    by (rule index_key_bytes)
  from assms(2) obtain t where t: "id_encode idb = Inr t" "values_with_id b = ys @ [Some (String t)]"
    and kb: "index_key_to_bytes b = Inr (concat (map optional_bytes (ys @ [Some (String t)])))"
    by (rule index_key_bytes)
  define vs where "vs = xs @ [Some (String s)]"
  define ws where "ws = ys @ [Some (String t)]"
  have len: "length vs = length ws" using assms(3) by (simp add: vs_def ws_def)
  have wf: "v = None \<or> keyable (the v)" if "v \<in> set vs \<union> set ws" for v
    using assms(4) that keyable_id [OF _ s(1)] keyable_id [OF _ t(1)] assms(5,6)
    by (cases v) (auto simp: keyable_def vs_def ws_def)
  have "cmp_of (concat (map optional_bytes vs)) (concat (map optional_bytes ws)) = lex_cmp optional_ordering vs ws"
    using optional.seq [OF len wf, of "[]" "[]"] by (cases "lex_cmp optional_ordering vs ws") simp_all
  moreover have "vs = ws \<longleftrightarrow> xs = ys \<and> ida = idb"
    using id_decode_encode [of ida s] id_decode_encode [of idb t] assms(5,6) s t
    by (auto simp: vs_def ws_def wf_id_def)
  ultimately show ?thesis
    using optional_seq_inj [OF len wf] cmp_optionals_eq [OF wf] ka kb
    by (auto simp: index_key_cmp_def s t vs_def [symmetric] ws_def [symmetric])
qed

theorem index_key_bytes_order_witness:
  "\<exists>a b ka kb. index_key_to_bytes a = Inr ka \<and> index_key_to_bytes b = Inr kb \<and> ka \<noteq> kb
    \<and> index_key_cmp a b = Inr (cmp_of ka kb)"
proof -
  let ?ida = "\<lparr>dev_table = 1, dev_internal_id = replicate 16 3\<rparr>" and ?idb = "\<lparr>dev_table = 1, dev_internal_id = replicate 16 4\<rparr>"
  obtain s t where "id_to_value ?ida = Inr (String s)" "id_to_value ?idb = Inr (String t)"
    using id_to_value_total [of ?ida] id_to_value_total [of ?idb] by auto
  then have "\<exists>a. new_allow_missing [None, Some Null] ?ida = Inr a" "\<exists>b. new_allow_missing [Some Null, None] ?idb = Inr b"
    by (auto simp: new_allow_missing_def)
  then show ?thesis
    using index_key_bytes_order [of "[None, Some Null]" ?ida _ "[Some Null, None]" ?idb] by fastforce
qed

end
