(* ===== verification/Search_Reads.thy ===== *)
theory Search_Reads
  imports Document_Keys "HOL-Library.Product_Lexorder"
begin

text \<open>
  The reads of text searches and the tables that match them against written documents
  (\<^verbatim>\<open>src/crates/search/src/query.rs\<close>, \<^verbatim>\<open>src/crates/common/src/document_index_keys.rs\<close>, \<^verbatim>\<open>FilterValue\<close> of
  \<^verbatim>\<open>src/crates/common/src/query.rs\<close>). A search read is a list of text terms and a list of filter
  conditions; the terms are also kept in tries, counted per value, by field, by the pair of the
  prefix flag and the distance, and by token.

  The tokenizer and the hash function are third-party code and are arguments. A \<^verbatim>\<open>HashSet\<close> of
  tokens is a list of which only membership is used; the radix tree (\<^verbatim>\<open>ART\<close>) is used as an ordered
  map.
\<close>

subsection \<open>Tokens\<close>

type_synonym SearchValueTokens = "bytes list"

text \<open>\<^verbatim>\<open>char_indices\<close>: the positions at which a character of a UTF-8 string starts.\<close>

definition char_starts :: "bytes \<Rightarrow> nat list" where
  "char_starts s = filter (\<lambda>i. s ! i < 0x80 \<or> 0xC0 \<le> s ! i) [0..<length s]"

definition token_prefixes :: "bytes \<Rightarrow> bytes list" where
  "token_prefixes token = map (\<lambda>i. take i token) (drop 1 (char_starts token))"

fun calculate_prefixes :: "bytes list \<Rightarrow> bytes list \<Rightarrow> bytes list" where
  "calculate_prefixes [] found = found"
| "calculate_prefixes (token # tokens) found =
     (if token \<in> set found then calculate_prefixes tokens found
      else calculate_prefixes tokens (fold List.insert (token_prefixes token) (List.insert token found)))"

definition for_each_token :: "SearchValueTokens \<Rightarrow> bool \<Rightarrow> bytes list" where
  "for_each_token tokens is_prefix = (if is_prefix then calculate_prefixes tokens [] else tokens)"

subsection \<open>Terms and filters\<close>

datatype FuzzyDistance = Zero | One | Two

fun fuzzy_distance_try_from :: "byte \<Rightarrow> error + FuzzyDistance" where
  "fuzzy_distance_try_from v = (if v = 0 then Inr Zero else if v = 1 then Inr One else if v = 2 then Inr Two
     else Inl (Bail ''Invalid distance''))"

fun fuzzy_distance_deref :: "FuzzyDistance \<Rightarrow> byte" where
  "fuzzy_distance_deref Zero = 0"
| "fuzzy_distance_deref One = 1"
| "fuzzy_distance_deref Two = 2"

datatype TextQueryTerm = Exact bytes | Fuzzy bytes FuzzyDistance bool

fun fuzzy_params :: "TextQueryTerm \<Rightarrow> bytes \<times> byte \<times> bool" where
  "fuzzy_params (Fuzzy token max_distance is_prefix) = (token, fuzzy_distance_deref max_distance, is_prefix)"
| "fuzzy_params (Exact token) = (token, 0, False)"

record TextQueryTermRead =
  tq_field_path :: field_path
  tq_term :: TextQueryTerm

type_synonym FilterValue = bytes

definition MAX_FILTER_FIELD_LENGTH :: nat where
  "MAX_FILTER_FIELD_LENGTH = 32"

definition from_search_value :: "(bytes \<Rightarrow> bytes) \<Rightarrow> ConvexValue option \<Rightarrow> error + FilterValue" where
  "from_search_value sha256 v =
     and_then (case v of Some v \<Rightarrow> cv_sort_key v | None \<Rightarrow> Inr [UNDEFINED_TAG])
       (\<lambda>k. Inr (if length k < MAX_FILTER_FIELD_LENGTH then k else sha256 k))"

datatype FilterConditionRead = Must field_path FilterValue

subsection \<open>Index keys of a document\<close>

record SearchIndexKeyValue =
  filter_values :: "(field_path, FilterValue) btree_map"
  search_field :: field_path
  search_field_value :: "SearchValueTokens option"

datatype DocumentIndexKeyValue = Standard IndexKeyBytes | Search SearchIndexKeyValue

type_synonym DocumentIndexKeys = "(TabletIndexName, DocumentIndexKeyValue) btree_map"

definition document_index_keys_get :: "DocumentIndexKeys \<Rightarrow> TabletIndexName \<Rightarrow> DocumentIndexKeyValue option" where
  "document_index_keys_get keys n = bt_get keys n"

subsection \<open>Tries of search terms\<close>

type_synonym 't Tries = "(bool \<times> byte, (bytes, ('t, nat) btree_map) btree_map) btree_map"
type_synonym 't SearchTermTries = "(field_path, 't Tries) btree_map"

text \<open>\<^verbatim>\<open>entry(k).or_insert_with(..)\<close> and \<^verbatim>\<open>or_default()\<close>: the value of a key, or the given one.\<close>

definition entry_or :: "'v \<Rightarrow> ('k::linorder, 'v) btree_map \<Rightarrow> 'k \<Rightarrow> 'v" where
  "entry_or d m k = (case bt_get m k of None \<Rightarrow> d | Some v \<Rightarrow> v)"

definition tries_extend_one :: "'t::linorder \<Rightarrow> TextQueryTermRead \<Rightarrow> 't SearchTermTries \<Rightarrow> 't SearchTermTries" where
  "tries_extend_one v q terms =
     (let path = tq_field_path q; (token, max_distance, is_prefix) = fuzzy_params (tq_term q);
          tries = entry_or [] terms path; art = entry_or [] tries (is_prefix, max_distance);
          art' = (case bt_get art token of
                    Some value_to_count \<Rightarrow>
                      bt_insert token (bt_insert v (entry_or 0 value_to_count v + 1) value_to_count) art
                  | None \<Rightarrow> bt_insert token [(v, 1)] art)
      in bt_insert path (bt_insert (is_prefix, max_distance) art' tries) terms)"

definition tries_extend :: "'t::linorder \<Rightarrow> TextQueryTermRead list \<Rightarrow> 't SearchTermTries \<Rightarrow> 't SearchTermTries" where
  "tries_extend v queries terms = fold (tries_extend_one v) queries terms"

definition tries_remove_one ::
  "'t::linorder \<Rightarrow> TextQueryTermRead \<Rightarrow> 't SearchTermTries \<Rightarrow> error + 't SearchTermTries" where
  "tries_remove_one v q terms =
     (let path = tq_field_path q; (token, max_distance, is_prefix) = fuzzy_params (tq_term q) in
      and_then (expect ''Missing tries'' (bt_get terms path)) (\<lambda>tries.
      and_then (expect ''Missing trie'' (bt_get tries (is_prefix, max_distance))) (\<lambda>trie.
      and_then (expect ''Missing values for a token'' (bt_get trie token)) (\<lambda>value_to_count.
      and_then (expect ''Missing count for value!'' (bt_get value_to_count v)) (\<lambda>n.
      if n = 0 then Inl (Panic ''Cannot remove more values than were added'')
      else let counts = (if n - 1 = 0 then bt_remove v value_to_count else bt_insert v (n - 1) value_to_count);
               trie' = (if counts = [] then bt_remove token trie else bt_insert token counts trie)
           in Inr (bt_insert path (bt_insert (is_prefix, max_distance) trie' tries) terms))))))"

fun tries_remove :: "'t::linorder \<Rightarrow> TextQueryTermRead list \<Rightarrow> 't SearchTermTries \<Rightarrow> error + 't SearchTermTries" where
  "tries_remove v [] terms = Inr terms"
| "tries_remove v (q # qs) terms = and_then (tries_remove_one v q terms) (tries_remove v qs)"

definition matching_values :: "'t Tries \<Rightarrow> SearchValueTokens \<Rightarrow> 't list" where
  "matching_values tries tokens =
     concat (map (\<lambda>((is_prefix, _), trie).
       concat (map (\<lambda>token. case bt_get trie token of None \<Rightarrow> [] | Some counts \<Rightarrow> map fst counts)
                 (for_each_token tokens is_prefix))) tries)"

definition tries_overlaps_document :: "(bytes \<Rightarrow> SearchValueTokens) \<Rightarrow> 't SearchTermTries \<Rightarrow> PackedDocument \<Rightarrow> bool" where
  "tries_overlaps_document tokenize terms doc =
     list_ex (\<lambda>(path, tries). case open_path (pd_value doc) path of
         Some (String text) \<Rightarrow> matching_values tries (tokenize text) \<noteq> []
       | _ \<Rightarrow> False) terms"

definition tries_overlaps_index_key_value :: "'t SearchTermTries \<Rightarrow> SearchIndexKeyValue \<Rightarrow> bool" where
  "tries_overlaps_index_key_value terms kv =
     (case search_field_value kv of
        None \<Rightarrow> False
      | Some tokens \<Rightarrow>
          (case bt_get terms (search_field kv) of
             None \<Rightarrow> False
           | Some tries \<Rightarrow> matching_values tries tokens \<noteq> []))"

subsection \<open>The reads of a search\<close>

record QueryReads =
  text_queries :: "TextQueryTermRead list"
  filter_conditions :: "FilterConditionRead list"
  fuzzy_terms :: "unit SearchTermTries"

definition query_reads_new :: "TextQueryTermRead list \<Rightarrow> FilterConditionRead list \<Rightarrow> QueryReads" where
  "query_reads_new qs fs = \<lparr>text_queries = qs, filter_conditions = fs, fuzzy_terms = tries_extend () qs []\<rparr>"

definition query_reads_empty :: QueryReads where
  "query_reads_empty = \<lparr>text_queries = [], filter_conditions = [], fuzzy_terms = []\<rparr>"

definition query_reads_merge :: "QueryReads \<Rightarrow> QueryReads \<Rightarrow> QueryReads" where
  "query_reads_merge self other =
     \<lparr>text_queries = text_queries self @ text_queries other,
      filter_conditions = filter_conditions self @ filter_conditions other,
      fuzzy_terms = tries_extend () (text_queries other) (fuzzy_terms self)\<rparr>"

fun filters_match_document ::
  "(bytes \<Rightarrow> bytes) \<Rightarrow> PackedDocument \<Rightarrow> FilterConditionRead list \<Rightarrow> error + bool" where
  "filters_match_document sha256 doc [] = Inr True"
| "filters_match_document sha256 doc (Must path v # fs) =
     and_then (from_search_value sha256 (open_path (pd_value doc) path))
       (\<lambda>dv. if dv \<noteq> v then Inr False else filters_match_document sha256 doc fs)"

definition query_reads_overlaps_document ::
  "(bytes \<Rightarrow> bytes) \<Rightarrow> (bytes \<Rightarrow> SearchValueTokens) \<Rightarrow> QueryReads \<Rightarrow> PackedDocument \<Rightarrow> error + bool" where
  "query_reads_overlaps_document sha256 tokenize reads doc =
     and_then (filters_match_document sha256 doc (filter_conditions reads))
       (\<lambda>ok. if \<not> ok then Inr False
              else if text_queries reads = [] then Inr True
              else Inr (tries_overlaps_document tokenize (fuzzy_terms reads) doc))"

fun filters_match_key_value :: "SearchIndexKeyValue \<Rightarrow> FilterConditionRead list \<Rightarrow> bool" where
  "filters_match_key_value kv [] = True"
| "filters_match_key_value kv (Must path v # fs) =
     (case bt_get (filter_values kv) path of
        None \<Rightarrow> False
      | Some dv \<Rightarrow> if dv \<noteq> v then False else filters_match_key_value kv fs)"

definition overlaps_search_index_key_value :: "QueryReads \<Rightarrow> SearchIndexKeyValue \<Rightarrow> bool" where
  "overlaps_search_index_key_value reads kv =
     (if \<not> filters_match_key_value kv (filter_conditions reads) then False
      else if text_queries reads = [] then True
      else tries_overlaps_index_key_value (fuzzy_terms reads) kv)"

subsection \<open>Prefixes of tokens\<close>

lemma set_drop_filter: "set (drop 1 (filter P xs)) \<subseteq> {x \<in> set (drop 1 xs). P x}"
  by (cases xs) (auto dest: in_set_dropD)

lemma filter_less_upt: "filter (\<lambda>j. j < i) [0..<n] = [0..<min n i]"
proof (induction n)
  case (Suc n)
  then show ?case by (cases "n < i") (simp_all add: min_def)
qed simp

lemma char_starts_take: "char_starts (take i s) = filter (\<lambda>j. j < i) (char_starts s)"
proof -
  have "filter (\<lambda>j. j < i) (filter (\<lambda>j. s ! j < 0x80 \<or> 0xC0 \<le> s ! j) [0..<length s])
      = filter (\<lambda>j. s ! j < 0x80 \<or> 0xC0 \<le> s ! j) (filter (\<lambda>j. j < i) [0..<length s])"
    by (simp add: conj_commute)
  also have "filter (\<lambda>j. j < i) [0..<length s] = [0..<min (length s) i]"
    by (rule filter_less_upt)
  finally show ?thesis by (auto simp: char_starts_def intro!: filter_cong)
qed

lemma token_prefixes_closed: "p \<in> set (token_prefixes t) \<Longrightarrow> set (token_prefixes p) \<subseteq> set (token_prefixes t)"
  using set_drop_filter [of _ "char_starts t"]
  by (fastforce simp: token_prefixes_def char_starts_take min_def)

lemma set_fold_insert: "set (fold List.insert xs ys) = set xs \<union> set ys"
  by (induction xs arbitrary: ys) auto

lemma set_calculate_prefixes:
  assumes "\<And>t. t \<in> set found \<Longrightarrow> set (token_prefixes t) \<subseteq> set found"
  shows "set (calculate_prefixes tokens found) = set found \<union> (\<Union>t \<in> set tokens. insert t (set (token_prefixes t)))"
  using assms
proof (induction tokens found rule: calculate_prefixes.induct)
  case (2 token tokens found)
  show ?case
  proof (cases "token \<in> set found")
    case True
    with 2 show ?thesis by auto
  next
    case False
    have "set (token_prefixes t) \<subseteq> set (fold List.insert (token_prefixes token) (List.insert token found))"
      if "t \<in> set (fold List.insert (token_prefixes token) (List.insert token found))" for t
      using that 2(3) [of t] token_prefixes_closed [of t token] by (auto simp: set_fold_insert)
    from 2(2) [OF False this] False show ?thesis by (auto simp: set_fold_insert)
  qed
qed simp

lemma set_for_each_token:
  "set (for_each_token tokens is_prefix) =
     (if is_prefix then (\<Union>t \<in> set tokens. insert t (set (token_prefixes t))) else set tokens)"
  using set_calculate_prefixes [of "[]" tokens] by (simp add: for_each_token_def)

subsection \<open>Tries as counted sets of terms\<close>

lemma entry_or_simps [simp]:
  "entry_or d [] k = d"
  "entry_or d (bt_insert k v m) k' = (if k' = k then v else entry_or d m k')"
  "entry_or d (bt_remove k m) k' = (if k' = k then d else entry_or d m k')"
  by (simp_all add: entry_or_def)

lemma entry_or_get: "bt_get m k = Some v \<Longrightarrow> entry_or d m k = v" "bt_get m k = None \<Longrightarrow> entry_or d m k = d"
  by (simp_all add: entry_or_def)

text \<open>The place of a term in the tries: its field, its prefix flag and distance, and its token.\<close>

type_synonym term_key = "field_path \<times> (bool \<times> byte) \<times> bytes"

definition term_key :: "TextQueryTermRead \<Rightarrow> term_key" where
  "term_key q = (case fuzzy_params (tq_term q) of (token, max_distance, is_prefix) \<Rightarrow>
     (tq_field_path q, (is_prefix, max_distance), token))"

fun term_counts :: "'t SearchTermTries \<Rightarrow> term_key \<Rightarrow> ('t, nat) btree_map" where
  "term_counts terms (path, k, token) = entry_or [] (entry_or [] (entry_or [] terms path) k) token"

definition term_count :: "'t::linorder SearchTermTries \<Rightarrow> term_key \<Rightarrow> 't \<Rightarrow> nat" where
  "term_count terms key v = entry_or 0 (term_counts terms key) v"

definition occurrences :: "TextQueryTermRead list \<Rightarrow> term_key \<Rightarrow> nat" where
  "occurrences qs key = length (filter (\<lambda>q. term_key q = key) qs)"

text \<open>Ordered maps at the levels that are iterated, and no count of zero.\<close>

definition wf_terms :: "'t::linorder SearchTermTries \<Rightarrow> bool" where
  "wf_terms terms \<longleftrightarrow> bt_wf terms \<and> (\<forall>path. bt_wf (entry_or [] terms path))
     \<and> (\<forall>key v. bt_get (term_counts terms key) v \<noteq> Some 0)"

lemma wf_termsD: "wf_terms terms \<Longrightarrow> bt_get (term_counts terms key) v \<noteq> Some 0"
  unfolding wf_terms_def by blast

lemma wf_terms_Nil [simp]: "wf_terms []"
  by (auto simp: wf_terms_def)

lemma term_count_Nil [simp]: "term_count [] key v = 0"
  by (cases key) (simp add: term_count_def)

lemma term_count_pos:
  assumes "wf_terms terms"
  shows "0 < term_count terms key v \<longleftrightarrow> v \<in> fst ` set (term_counts terms key)"
proof -
  have "bt_get (term_counts terms key) v \<noteq> Some 0" using assms by (rule wf_termsD)
  moreover have "v \<in> fst ` set (term_counts terms key) \<longleftrightarrow> bt_get (term_counts terms key) v \<noteq> None"
    by (simp add: bt_get_None_iff)
  ultimately show ?thesis
    by (cases "bt_get (term_counts terms key) v") (auto simp: term_count_def entry_or_def)
qed

lemma tries_extend_one_eq:
  assumes "term_key q = (path, k, token)"
  shows "tries_extend_one v q terms =
    (let tries = entry_or [] terms path; art = entry_or [] tries k; counts = entry_or [] art token
     in bt_insert path (bt_insert k (bt_insert token (bt_insert v (entry_or 0 counts v + 1) counts) art) tries) terms)"
proof -
  obtain md p where q: "fuzzy_params (tq_term q) = (token, md, p)" "k = (p, md)" "tq_field_path q = path"
    using assms by (auto simp: term_key_def split: prod.splits)
  have "[(v, 1)] = bt_insert v (entry_or 0 [] v + 1) ([] :: ('a, nat) btree_map)" by (simp add: bt_insert_def)
  with q show ?thesis
    by (auto simp: tries_extend_one_def entry_or_get Let_def split: option.splits)
qed

lemma wf_terms_extend_one: "wf_terms terms \<Longrightarrow> wf_terms (tries_extend_one v q terms)"
  by (cases "term_key q") (auto simp: wf_terms_def tries_extend_one_eq Let_def)

lemma term_count_extend_one:
  "term_count (tries_extend_one v q terms) key w
     = term_count terms key w + (if key = term_key q \<and> w = v then 1 else 0)"
  by (cases "term_key q"; cases key) (auto simp: term_count_def tries_extend_one_eq Let_def)

lemma occurrences_simps [simp]:
  "occurrences [] key = 0"
  "occurrences (q # qs) key = (if term_key q = key then 1 else 0) + occurrences qs key"
  by (simp_all add: occurrences_def)

lemma tries_extend_correct:
  assumes "wf_terms terms"
  shows "wf_terms (tries_extend v qs terms)"
    and "term_count (tries_extend v qs terms) key w
      = term_count terms key w + (if w = v then occurrences qs key else 0)"
proof -
  show "wf_terms (tries_extend v qs terms)"
    using assms unfolding tries_extend_def
    by (induction qs arbitrary: terms) (simp_all add: wf_terms_extend_one)
  show "term_count (tries_extend v qs terms) key w
      = term_count terms key w + (if w = v then occurrences qs key else 0)"
    unfolding tries_extend_def
    by (induction qs arbitrary: terms) (auto simp: term_count_extend_one)
qed

lemma tries_remove_one_correct:
  assumes wf: "wf_terms terms" and pos: "0 < term_count terms (term_key q) v"
  obtains terms' where "tries_remove_one v q terms = Inr terms'" "wf_terms terms'"
    "\<And>key w. term_count terms' key w = term_count terms key w - (if key = term_key q \<and> w = v then 1 else 0)"
proof -
  obtain path p md token where q: "fuzzy_params (tq_term q) = (token, md, p)" "term_key q = (path, (p, md), token)"
    "tq_field_path q = path"
    by (cases "fuzzy_params (tq_term q)") (simp add: term_key_def)
  obtain tries where tries: "bt_get terms path = Some tries"
    using pos by (cases "bt_get terms path") (simp_all add: q term_count_def entry_or_get)
  obtain art where art: "bt_get tries (p, md) = Some art"
    using pos tries by (cases "bt_get tries (p, md)") (simp_all add: q term_count_def entry_or_get)
  obtain counts where counts: "bt_get art token = Some counts"
    using pos tries art by (cases "bt_get art token") (simp_all add: q term_count_def entry_or_get)
  obtain n where n: "bt_get counts v = Some n" "0 < n"
    using pos tries art counts by (cases "bt_get counts v") (simp_all add: q term_count_def entry_or_get)
  define counts' where "counts' = (if n - 1 = 0 then bt_remove v counts else bt_insert v (n - 1) counts)"
  define art' where "art' = (if counts' = [] then bt_remove token art else bt_insert token counts' art)"
  define terms' where "terms' = bt_insert path (bt_insert (p, md) art' tries) terms"
  have "tries_remove_one v q terms = Inr terms'"
    using n by (simp add: tries_remove_one_def q tries art counts Let_def counts'_def art'_def terms'_def)
  moreover have tc: "term_counts terms' key = (if key = term_key q then counts' else term_counts terms key)" for key
    by (cases key) (auto simp: terms'_def q art'_def entry_or_get(1) [OF tries] entry_or_get(1) [OF art])
  moreover have old: "term_counts terms (term_key q) = counts"
    by (simp add: q entry_or_get(1) [OF tries] entry_or_get(1) [OF art] entry_or_get(1) [OF counts])
  moreover have "wf_terms terms'"
    unfolding wf_terms_def
  proof (intro conjI allI)
    show "bt_wf terms'" using wf by (auto simp: wf_terms_def terms'_def)
    have "bt_wf tries" using wf entry_or_get(1) [OF tries, of "[]"] unfolding wf_terms_def by metis
    then show "bt_wf (entry_or [] terms' path')" for path' using wf by (auto simp: wf_terms_def terms'_def)
    show "bt_get (term_counts terms' key) w \<noteq> Some 0" for key w
      using wf_termsD [OF wf, of key w] wf_termsD [OF wf, of "term_key q" w]
      by (auto simp: tc old counts'_def simp del: term_counts.simps)
  qed
  moreover have "term_count terms' key w = term_count terms key w - (if key = term_key q \<and> w = v then 1 else 0)" for key w
    by (auto simp: term_count_def tc old counts'_def entry_or_get(1) [OF n(1)])
  ultimately show ?thesis using that by blast
qed

lemma tries_remove_correct:
  assumes "wf_terms terms" and "\<And>key. occurrences qs key \<le> term_count terms key v"
  shows "\<exists>terms'. tries_remove v qs terms = Inr terms' \<and> wf_terms terms'
    \<and> (\<forall>key w. term_count terms' key w = term_count terms key w - (if w = v then occurrences qs key else 0))"
  using assms
proof (induction qs arbitrary: terms)
  case (Cons q qs)
  have "0 < term_count terms (term_key q) v" using Cons.prems(2) [of "term_key q"] by simp
  with Cons.prems(1) obtain terms1 where t1: "tries_remove_one v q terms = Inr terms1" "wf_terms terms1"
    "\<And>key w. term_count terms1 key w = term_count terms key w - (if key = term_key q \<and> w = v then 1 else 0)"
    by (rule tries_remove_one_correct) blast
  have "occurrences qs key \<le> term_count terms1 key v" for key
    using Cons.prems(2) [of key] by (auto simp: t1(3))
  from Cons.IH [OF t1(2) this] show ?case by (auto simp: t1)
qed simp

lemma set_matching_values:
  "set (matching_values tries tokens) =
     (\<Union>(k, art) \<in> set tries. \<Union>token \<in> set (for_each_token tokens (fst k)). fst ` set (entry_or [] art token))"
proof -
  have "(case bt_get trie token of None \<Rightarrow> [] | Some counts \<Rightarrow> map fst counts) = map fst (entry_or [] trie token)"
    for trie :: "(bytes, ('a, nat) btree_map) btree_map" and token
    by (simp add: entry_or_def split: option.splits)
  then show ?thesis by (simp add: matching_values_def split_beta)
qed

lemma matching_values_iff:
  assumes "wf_terms terms"
  shows "v \<in> set (matching_values (entry_or [] terms path) tokens) \<longleftrightarrow>
    (\<exists>k token. token \<in> set (for_each_token tokens (fst k)) \<and> 0 < term_count terms (path, k, token) v)"
proof -
  let ?tries = "entry_or [] terms path"
  have wf: "bt_wf ?tries" using assms by (simp add: wf_terms_def)
  have "v \<in> set (matching_values ?tries tokens) \<longleftrightarrow>
    (\<exists>k art. (k, art) \<in> set ?tries \<and> (\<exists>token \<in> set (for_each_token tokens (fst k)). v \<in> fst ` set (entry_or [] art token)))"
    unfolding set_matching_values UN_iff split_beta by (metis fst_conv snd_conv surjective_pairing)
  also have "\<dots> \<longleftrightarrow> (\<exists>k token. token \<in> set (for_each_token tokens (fst k))
      \<and> v \<in> fst ` set (entry_or [] (entry_or [] ?tries k) token))"
  proof (intro iffI; elim exE conjE bexE)
    fix k art token
    assume "(k, art) \<in> set ?tries" "token \<in> set (for_each_token tokens (fst k))"
      "v \<in> fst ` set (entry_or [] art token)"
    then show "\<exists>k token. token \<in> set (for_each_token tokens (fst k))
        \<and> v \<in> fst ` set (entry_or [] (entry_or [] ?tries k) token)"
      by (intro exI [of _ k] exI [of _ token]) (simp add: entry_or_get(1) bt_get_iff [OF wf])
  next
    fix k token
    assume t: "token \<in> set (for_each_token tokens (fst k))"
      "v \<in> fst ` set (entry_or [] (entry_or [] ?tries k) token)"
    then obtain art where "bt_get ?tries k = Some art"
      by (cases "bt_get ?tries k") (simp_all add: entry_or_get(2))
    with t show "\<exists>k art. (k, art) \<in> set ?tries
        \<and> (\<exists>token \<in> set (for_each_token tokens (fst k)). v \<in> fst ` set (entry_or [] art token))"
      by (intro exI [of _ k] exI [of _ art]) (auto simp: entry_or_get(1) bt_get_iff [OF wf])
  qed
  finally show ?thesis by (simp only: term_count_pos [OF assms] term_counts.simps)
qed

text \<open>A term matches a list of tokens when one of them, or for a prefix term a prefix of one, is its token.\<close>

definition term_matches :: "TextQueryTerm \<Rightarrow> SearchValueTokens \<Rightarrow> bool" where
  "term_matches t tokens \<longleftrightarrow> (case fuzzy_params t of (token, _, is_prefix) \<Rightarrow>
     (\<exists>d \<in> set tokens. token = d \<or> is_prefix \<and> token \<in> set (token_prefixes d)))"

lemma occurrences_pos: "0 < occurrences qs key \<longleftrightarrow> key \<in> term_key ` set qs"
  by (induction qs) auto

lemma term_key_match:
  assumes "term_key q = (path, k, token)"
  shows "tq_field_path q = path" "term_matches (tq_term q) tokens \<longleftrightarrow> token \<in> set (for_each_token tokens (fst k))"
proof -
  obtain t md p where q: "fuzzy_params (tq_term q) = (t, md, p)" by (cases "fuzzy_params (tq_term q)")
  with assms show "tq_field_path q = path" by (simp add: term_key_def)
  from q assms show "term_matches (tq_term q) tokens \<longleftrightarrow> token \<in> set (for_each_token tokens (fst k))"
    by (auto simp: term_key_def term_matches_def set_for_each_token)
qed

lemma matching_queries:
  assumes "wf_terms terms" and "\<And>key. term_count terms key v = occurrences qs key"
  shows "v \<in> set (matching_values (entry_or [] terms path) tokens) \<longleftrightarrow>
    (\<exists>q \<in> set qs. tq_field_path q = path \<and> term_matches (tq_term q) tokens)"
  unfolding matching_values_iff [OF assms(1)] assms(2) occurrences_pos
proof (intro iffI; elim exE conjE bexE imageE)
  fix k token q
  assume "token \<in> set (for_each_token tokens (fst k))" "(path, k, token) = term_key q" "q \<in> set qs"
  then show "\<exists>q \<in> set qs. tq_field_path q = path \<and> term_matches (tq_term q) tokens"
    using term_key_match(1) [of q path k token] term_key_match(2) [of q path k token tokens] by auto
next
  fix q assume q: "q \<in> set qs" "tq_field_path q = path" "term_matches (tq_term q) tokens"
  obtain p k token where k: "term_key q = (p, k, token)" by (cases "term_key q")
  with q show "\<exists>k token. token \<in> set (for_each_token tokens (fst k)) \<and> (path, k, token) \<in> term_key ` set qs"
    using term_key_match(1) [OF k] term_key_match(2) [OF k, of tokens] by (intro exI [of _ k] exI [of _ token]) (auto intro: rev_image_eqI)
qed

subsection \<open>Consistent reads\<close>

text \<open>The tries of a search's reads hold exactly its text queries.\<close>

definition reads_consistent :: "QueryReads \<Rightarrow> bool" where
  "reads_consistent r \<longleftrightarrow> wf_terms (fuzzy_terms r)
     \<and> (\<forall>key. term_count (fuzzy_terms r) key () = occurrences (text_queries r) key)"

lemma occurrences_append [simp]: "occurrences (qs @ qs') key = occurrences qs key + occurrences qs' key"
  by (simp add: occurrences_def)

lemma reads_consistent_intros [intro, simp]:
  "reads_consistent (query_reads_new qs fs)"
  "reads_consistent query_reads_empty"
  "reads_consistent r \<Longrightarrow> reads_consistent (query_reads_merge r r')"
  by (simp_all add: reads_consistent_def query_reads_new_def query_reads_empty_def query_reads_merge_def
      tries_extend_correct)

lemma filters_match_key_value_iff:
  "filters_match_key_value kv fs \<longleftrightarrow> (\<forall>path v. Must path v \<in> set fs \<longrightarrow> bt_get (filter_values kv) path = Some v)"
  by (induction kv fs rule: filters_match_key_value.induct) (auto split: option.splits)

lemma matching_values_Nil [simp]: "matching_values [] tokens = []"
  by (simp add: matching_values_def)

lemma unit_list: "xs \<noteq> [] \<longleftrightarrow> () \<in> set xs"
  by (cases xs) auto

lemma matching_reads:
  assumes "reads_consistent r"
  shows "matching_values (entry_or [] (fuzzy_terms r) path) tokens \<noteq> [] \<longleftrightarrow>
    (\<exists>q \<in> set (text_queries r). tq_field_path q = path \<and> term_matches (tq_term q) tokens)"
  using assms unfolding unit_list reads_consistent_def by (intro matching_queries) blast+

lemma overlaps_search_index_key_value_iff:
  assumes "reads_consistent r"
  shows "overlaps_search_index_key_value r kv \<longleftrightarrow>
    (\<forall>path v. Must path v \<in> set (filter_conditions r) \<longrightarrow> bt_get (filter_values kv) path = Some v)
    \<and> (text_queries r = [] \<or> (\<exists>tokens. search_field_value kv = Some tokens
         \<and> (\<exists>q \<in> set (text_queries r). tq_field_path q = search_field kv \<and> term_matches (tq_term q) tokens)))"
proof -
  have "tries_overlaps_index_key_value (fuzzy_terms r) kv \<longleftrightarrow>
    (\<exists>tokens. search_field_value kv = Some tokens
       \<and> matching_values (entry_or [] (fuzzy_terms r) (search_field kv)) tokens \<noteq> [])"
    by (auto simp: tries_overlaps_index_key_value_def entry_or_def split: option.splits)
  then show ?thesis
    by (auto simp: overlaps_search_index_key_value_def filters_match_key_value_iff matching_reads [OF assms])
qed

text \<open>Matching a document and matching its key in the search index agree.\<close>

lemma from_search_value_total: "\<exists>k. from_search_value sha256 v = Inr k"
  by (cases v) (simp_all add: from_search_value_def cv_sort_key_def)

lemma text_case:
  "(case v of Some (String str) \<Rightarrow> P str | _ \<Rightarrow> False) \<longleftrightarrow> (\<exists>str. v = Some (String str) \<and> P str)"
  by (auto split: option.splits ConvexValue.splits)

lemma tries_overlaps_document_iff:
  assumes "reads_consistent r"
  shows "tries_overlaps_document tokenize (fuzzy_terms r) doc \<longleftrightarrow>
    (\<exists>q \<in> set (text_queries r). \<exists>str. get_path (pd_value doc) (tq_field_path q) = Some (String str)
       \<and> term_matches (tq_term q) (tokenize str))"
proof -
  let ?str = "\<lambda>path str. get_path (pd_value doc) path = Some (String str)"
  have wf: "bt_wf (fuzzy_terms r)" using assms by (simp add: reads_consistent_def wf_terms_def)
  have "tries_overlaps_document tokenize (fuzzy_terms r) doc \<longleftrightarrow>
    (\<exists>path tries str. (path, tries) \<in> set (fuzzy_terms r) \<and> ?str path str \<and> matching_values tries (tokenize str) \<noteq> [])"
    by (auto simp: tries_overlaps_document_def list_ex_iff open_path_eq text_case Bex_def)
  also have "\<dots> \<longleftrightarrow> (\<exists>path str. ?str path str \<and> matching_values (entry_or [] (fuzzy_terms r) path) (tokenize str) \<noteq> [])"
  proof (intro iffI; elim exE conjE)
    fix path tries str
    assume "(path, tries) \<in> set (fuzzy_terms r)" "?str path str" "matching_values tries (tokenize str) \<noteq> []"
    then show "\<exists>path str. ?str path str \<and> matching_values (entry_or [] (fuzzy_terms r) path) (tokenize str) \<noteq> []"
      using entry_or_get(1) [of "fuzzy_terms r" path tries "[]"] bt_get_iff [OF wf, of path tries]
      by (intro exI [of _ path] exI [of _ str]) simp
  next
    fix path str
    assume t: "?str path str" "matching_values (entry_or [] (fuzzy_terms r) path) (tokenize str) \<noteq> []"
    then obtain tries where "bt_get (fuzzy_terms r) path = Some tries"
      by (cases "bt_get (fuzzy_terms r) path") (simp_all add: entry_or_get)
    with t show "\<exists>path tries str. (path, tries) \<in> set (fuzzy_terms r) \<and> ?str path str
        \<and> matching_values tries (tokenize str) \<noteq> []"
      using bt_get_iff [OF wf, of path tries] by (auto simp: entry_or_get)
  qed
  finally show ?thesis unfolding matching_reads [OF assms] by blast
qed

lemma filters_match_document_eq:
  assumes "\<And>path v. Must path v \<in> set fs
      \<Longrightarrow> from_search_value sha256 (get_path (pd_value doc) path) = Inr v
        \<longleftrightarrow> bt_get (filter_values kv) path = Some v"
  shows "filters_match_document sha256 doc fs = Inr (filters_match_key_value kv fs)"
  using assms
proof (induction fs)
  case (Cons f fs)
  obtain path v where f: "f = Must path v" by (cases f)
  obtain dv where dv: "from_search_value sha256 (get_path (pd_value doc) path) = Inr dv"
    using from_search_value_total by blast
  have "dv = v \<longleftrightarrow> bt_get (filter_values kv) path = Some v" using Cons.prems [of path v] by (simp add: f dv)
  with Cons show ?case by (auto simp: f dv open_path_eq split: option.splits)
qed simp

lemma query_reads_overlaps_document_eq:
  assumes r: "reads_consistent r"
    and filters: "\<And>path v. Must path v \<in> set (filter_conditions r)
      \<Longrightarrow> from_search_value sha256 (get_path (pd_value doc) path) = Inr v
        \<longleftrightarrow> bt_get (filter_values kv) path = Some v"
    and paths: "\<And>q. q \<in> set (text_queries r) \<Longrightarrow> tq_field_path q = search_field kv"
    and tokens: "search_field_value kv = (case get_path (pd_value doc) (search_field kv) of
      Some (String text) \<Rightarrow> Some (tokenize text) | _ \<Rightarrow> None)"
  shows "query_reads_overlaps_document sha256 tokenize r doc = Inr (overlaps_search_index_key_value r kv)"
proof -
  have eq: "search_field_value kv = Some ts \<longleftrightarrow>
      (\<exists>text. get_path (pd_value doc) (search_field kv) = Some (String text) \<and> ts = tokenize text)" for ts
    unfolding tokens by (auto split: option.splits ConvexValue.splits)
  have "tries_overlaps_document tokenize (fuzzy_terms r) doc \<longleftrightarrow>
      (\<exists>tokens. search_field_value kv = Some tokens
         \<and> (\<exists>q \<in> set (text_queries r). tq_field_path q = search_field kv \<and> term_matches (tq_term q) tokens))"
    by (auto simp: tries_overlaps_document_iff [OF r] eq paths)
  then show ?thesis
    using filters_match_document_eq [OF filters]
    by (auto simp: query_reads_overlaps_document_def overlaps_search_index_key_value_iff [OF r]
        filters_match_key_value_iff)
qed

subsection \<open>Merged reads and registered terms\<close>

text \<open>The reads of several searches merged into one, as recording them one after the other does.\<close>

definition merged_reads :: "(TextQueryTermRead list \<times> FilterConditionRead list) list \<Rightarrow> QueryReads" where
  "merged_reads parts = fold (\<lambda>(qs, fs) r. query_reads_merge r (query_reads_new qs fs)) parts query_reads_empty"

text \<open>The tries after a sequence of registrations.\<close>

definition registered_terms :: "('t::linorder \<times> TextQueryTermRead list) list \<Rightarrow> 't SearchTermTries" where
  "registered_terms h = fold (\<lambda>(v, qs). tries_extend v qs) h []"

lemma query_reads_sel [simp]:
  "text_queries (query_reads_new qs fs) = qs" "filter_conditions (query_reads_new qs fs) = fs"
  "text_queries query_reads_empty = []" "filter_conditions query_reads_empty = []"
  "text_queries (query_reads_merge r r') = text_queries r @ text_queries r'"
  "filter_conditions (query_reads_merge r r') = filter_conditions r @ filter_conditions r'"
  by (simp_all add: query_reads_new_def query_reads_empty_def query_reads_merge_def)

lemma merged_reads_correct:
  "reads_consistent (merged_reads parts)"
  "text_queries (merged_reads parts) = concat (map fst parts)"
  "filter_conditions (merged_reads parts) = concat (map snd parts)"
proof -
  let ?merge = "\<lambda>(qs, fs) r. query_reads_merge r (query_reads_new qs fs)"
  have "reads_consistent r \<Longrightarrow> reads_consistent (fold ?merge parts r)" for r
    by (induction parts arbitrary: r) (simp_all add: reads_consistent_intros(3) split_beta)
  moreover have "text_queries (fold ?merge parts r) = text_queries r @ concat (map fst parts)" for r
    by (induction parts arbitrary: r) (simp_all add: split_beta)
  moreover have "filter_conditions (fold ?merge parts r) = filter_conditions r @ concat (map snd parts)" for r
    by (induction parts arbitrary: r) (simp_all add: split_beta)
  ultimately show "reads_consistent (merged_reads parts)"
    "text_queries (merged_reads parts) = concat (map fst parts)"
    "filter_conditions (merged_reads parts) = concat (map snd parts)"
    by (simp_all add: merged_reads_def)
qed

lemma wf_registered_terms: "wf_terms (registered_terms h)"
proof -
  have "wf_terms t \<Longrightarrow> wf_terms (fold (\<lambda>(v, qs). tries_extend v qs) h t)" for t
    by (induction h arbitrary: t) (simp_all add: tries_extend_correct(1) split_beta)
  then show ?thesis by (simp add: registered_terms_def)
qed

subsection \<open>Properties\<close>

text \<open>
  C17: a search read overlaps the index key of a document exactly when every filter condition holds of
  the key's filter values and, unless the search has no text terms, one of its terms on the search
  field occurs among the key's tokens, for a prefix term also as a proper prefix of a token. This
  holds of the reads of any number of searches merged into one, so the tries derived from the terms
  never lose a term nor gain one.
\<close>

theorem search_overlap_exact:
  "overlaps_search_index_key_value (merged_reads parts) kv \<longleftrightarrow>
    (\<forall>path v. Must path v \<in> set (concat (map snd parts)) \<longrightarrow> bt_get (filter_values kv) path = Some v)
    \<and> (concat (map fst parts) = [] \<or> (\<exists>tokens. search_field_value kv = Some tokens
         \<and> (\<exists>q \<in> set (concat (map fst parts)). tq_field_path q = search_field kv
              \<and> (case fuzzy_params (tq_term q) of (token, _, is_prefix) \<Rightarrow>
                   \<exists>d \<in> set tokens. token = d \<or> is_prefix \<and> token \<in> set (token_prefixes d)))))"
  unfolding overlaps_search_index_key_value_iff [OF merged_reads_correct(1)] merged_reads_correct(2,3)
    term_matches_def ..

theorem search_overlap_exact_witness:
  "overlaps_search_index_key_value
     (merged_reads [([\<lparr>tq_field_path = [ascii ''body''], tq_term = Fuzzy (ascii ''he'') Zero True\<rparr>], []),
        ([], [Must [ascii ''owner''] [3]])])
     \<lparr>filter_values = [([ascii ''owner''], [3])], search_field = [ascii ''body''],
      search_field_value = Some [ascii ''hello'']\<rparr>"
  unfolding search_overlap_exact by (simp add: ascii_def) code_simp

text \<open>
  C18: registering a value for the terms of a search and unregistering it again is the identity on
  what the tries match. For tries built by any sequence of registrations, the removal finds every
  entry it expects (none of its panics can be reached) and afterwards a document's tokens match the
  same values as before.
\<close>

theorem search_terms_remove_undoes_extend:
  "\<exists>terms'. tries_remove v qs (tries_extend v qs (registered_terms h)) = Inr terms'
    \<and> (\<forall>path tokens. set (matching_values (entry_or [] terms' path) tokens)
         = set (matching_values (entry_or [] (registered_terms h) path) tokens))"
proof -
  let ?t = "registered_terms h"
  note wf = wf_registered_terms [of h]
  have "occurrences qs key \<le> term_count (tries_extend v qs ?t) key v" for key
    by (simp add: tries_extend_correct(2) [OF wf])
  from tries_remove_correct [OF tries_extend_correct(1) [OF wf] this]
  obtain t' where t': "tries_remove v qs (tries_extend v qs ?t) = Inr t'" "wf_terms t'"
    "\<And>key w. term_count t' key w = term_count (tries_extend v qs ?t) key w - (if w = v then occurrences qs key else 0)"
    by blast
  then have "term_count t' key w = term_count ?t key w" for key w
    by (simp add: tries_extend_correct(2) [OF wf])
  then have "set (matching_values (entry_or [] t' path) tokens)
      = set (matching_values (entry_or [] ?t path) tokens)" for path tokens
    by (intro set_eqI) (simp only: matching_values_iff [OF wf] matching_values_iff [OF t'(2)])
  with t'(1) show ?thesis by blast
qed

end
