(* ===== verification/Timestamps.thy ===== *)
theory Timestamps
  imports Convex_Prelude
begin

text \<open>
  Commit timestamps, nanoseconds since the epoch in a \<^verbatim>\<open>u64\<close>
  (\<^verbatim>\<open>src/crates/convex/sync_types/src/timestamp.rs\<close>), and the timestamps that are known to be
  repeatable (\<^verbatim>\<open>src/crates/common/src/types/timestamp.rs\<close>). A \<^verbatim>\<open>Duration\<close> is its number of
  nanoseconds, which Rust keeps in a \<^verbatim>\<open>u128\<close> and the code casts to \<^verbatim>\<open>u64\<close>.
\<close>

subsection \<open>Timestamps\<close>

type_synonym Timestamp = "64 word"
type_synonym Duration = nat

definition ts_MAX :: Timestamp where
  "ts_MAX = 0x7FFFFFFFFFFFFFFF"

definition ts_MIN :: Timestamp where
  "ts_MIN = 0"

definition succ_opt :: "Timestamp \<Rightarrow> Timestamp option" where
  "succ_opt ts = (if ts_MAX \<le> ts then None else Some (ts + 1))"

definition ts_succ :: "Timestamp \<Rightarrow> error + Timestamp" where
  "ts_succ ts = (case succ_opt ts of None \<Rightarrow> Inl (Bail ''timestamp already at max'') | Some t \<Rightarrow> Inr t)"

definition pred_opt :: "Timestamp \<Rightarrow> Timestamp option" where
  "pred_opt ts = (if ts \<le> ts_MIN then None else Some (ts - 1))"

definition ts_pred :: "Timestamp \<Rightarrow> error + Timestamp" where
  "ts_pred ts = (case pred_opt ts of None \<Rightarrow> Inl (Bail ''timestamp already at min'') | Some t \<Rightarrow> Inr t)"

definition ts_add :: "Timestamp \<Rightarrow> Duration \<Rightarrow> error + Timestamp" where
  "ts_add ts duration = (let nanos = of_nat duration :: 64 word in
     if unat ts + unat nanos \<ge> 2 ^ 64 then Inl (Bail ''overflow u64'')
     else if ts + nanos > ts_MAX then Inl (Bail ''overflow i64'')
     else Inr (ts + nanos))"

definition ts_sub :: "Timestamp \<Rightarrow> Duration \<Rightarrow> error + Timestamp" where
  "ts_sub ts duration = (let nanos = of_nat duration :: 64 word in
     if ts \<le> nanos then Inl (Bail ''timestamp already greater'') else Inr (ts - nanos))"

text \<open>The conversions to and from \<^verbatim>\<open>i64\<close>, \<^verbatim>\<open>u64\<close> and a system time (its nanoseconds since the epoch).\<close>

definition ts_to_i64 :: "Timestamp \<Rightarrow> int" where
  "ts_to_i64 ts = sint ts"

definition ts_try_from_i64 :: "int \<Rightarrow> error + Timestamp" where
  "ts_try_from_i64 v = (if v < 0 then Inl (Bail ''out of range integral type conversion attempted'')
     else Inr (of_int v))"

definition ts_try_from_u64 :: "64 word \<Rightarrow> error + Timestamp" where
  "ts_try_from_u64 v = (if v > ts_MAX then Inl (Bail ''ts too large'') else Inr v)"

definition ts_try_from_system_time :: "int \<Rightarrow> error + Timestamp" where
  "ts_try_from_system_time ns = (if ns < 0 then Inl (Bail ''SystemTime before 1970'')
     else if ns \<ge> 2 ^ 64 then Inl (Bail ''SystemTime past 2262'')
     else ts_try_from_u64 (of_int ns))"

subsection \<open>Repeatable timestamps\<close>

datatype RepeatableTimestamp = RepeatableTimestamp (repeatable_ts: Timestamp)

definition prior_ts :: "RepeatableTimestamp \<Rightarrow> Timestamp \<Rightarrow> error + RepeatableTimestamp" where
  "prior_ts r ts = (if ts \<le> repeatable_ts r then Inr (RepeatableTimestamp ts)
     else Inl (Bail ''ts <= *self''))"

definition repeatable_sub :: "RepeatableTimestamp \<Rightarrow> Duration \<Rightarrow> error + RepeatableTimestamp" where
  "repeatable_sub r duration = and_then (ts_sub (repeatable_ts r) duration) (prior_ts r)"

definition repeatable_pred :: "RepeatableTimestamp \<Rightarrow> error + RepeatableTimestamp" where
  "repeatable_pred r = and_then (ts_pred (repeatable_ts r)) (prior_ts r)"

text \<open>The timestamp of a write: pending writes sort after every committed one.\<close>

datatype WriteTimestamp = Committed Timestamp | Pending

instantiation WriteTimestamp :: linorder
begin

fun less_eq_WriteTimestamp :: "WriteTimestamp \<Rightarrow> WriteTimestamp \<Rightarrow> bool" where
  "Committed a \<le> Committed b \<longleftrightarrow> a \<le> b"
| "Committed a \<le> Pending \<longleftrightarrow> True"
| "Pending \<le> Committed b \<longleftrightarrow> False"
| "Pending \<le> Pending \<longleftrightarrow> True"

definition less_WriteTimestamp :: "WriteTimestamp \<Rightarrow> WriteTimestamp \<Rightarrow> bool" where
  "less_WriteTimestamp a b \<longleftrightarrow> a \<le> b \<and> \<not> b \<le> a"

instance
proof
  fix x y z :: WriteTimestamp
  show "(x < y) = (x \<le> y \<and> \<not> y \<le> x)" by (simp add: less_WriteTimestamp_def)
  show "x \<le> x" by (cases x) auto
  show "x \<le> y \<Longrightarrow> y \<le> z \<Longrightarrow> x \<le> z" by (cases x; cases y; cases z) auto
  show "x \<le> y \<Longrightarrow> y \<le> x \<Longrightarrow> x = y" by (cases x; cases y) auto
  show "x \<le> y \<or> y \<le> x" by (cases x; cases y) auto
qed

end

subsection \<open>Arithmetic without wrap-around\<close>

named_theorems ts_simps \<open>timestamps as natural numbers\<close>

lemma unat_ts_less: "unat (ts :: Timestamp) < 2 ^ 64"
  using unsigned_less [of ts, where 'a = nat] by simp

lemma unat_ts_MAX [ts_simps]: "unat ts_MAX = 2 ^ 63 - 1"
  by (simp add: ts_MAX_def)

lemma succ_opt_Some_iff [ts_simps]:
  "succ_opt a = Some b \<longleftrightarrow> unat a < unat ts_MAX \<and> unat b = unat a + 1"
proof -
  have "unat a < unat ts_MAX \<Longrightarrow> unat (a + 1) = unat a + 1"
    by (simp add: unat_ts_MAX unat_word_ariths)
  then show ?thesis
    by (auto simp: succ_opt_def word_le_nat_alt word_unat_eq_iff)
qed

lemma ts_succ_Inr_iff [ts_simps]:
  "ts_succ a = Inr b \<longleftrightarrow> unat a < unat ts_MAX \<and> unat b = unat a + 1"
  using succ_opt_Some_iff [of a b] by (auto simp: ts_succ_def split: option.splits)

lemma ts_succ_least: "ts_succ a = Inr b \<Longrightarrow> b \<le> t \<longleftrightarrow> a < t"
  by (auto simp: ts_succ_Inr_iff word_le_nat_alt word_less_nat_alt)

lemma pred_opt_Some_iff [ts_simps]: "pred_opt a = Some b \<longleftrightarrow> unat a = unat b + 1"
proof (cases "a = 0")
  case True
  then show ?thesis by (simp add: pred_opt_def ts_MIN_def)
next
  case False
  then have pos: "0 < unat a" by (simp only: unat_gt_0 not_False_eq_True)
  have "pred_opt a = Some (a - 1)" using False by (simp add: pred_opt_def ts_MIN_def)
  then have "pred_opt a = Some b \<longleftrightarrow> unat (a - 1) = unat b"
    by (simp only: option.inject word_unat_eq_iff)
  with pos show ?thesis unfolding unat_minus_one [OF False] by linarith
qed

lemma ts_pred_Inr_iff [ts_simps]: "ts_pred a = Inr b \<longleftrightarrow> unat a = unat b + 1"
  using pred_opt_Some_iff [of a b] by (auto simp: ts_pred_def split: option.splits)

lemma ts_add_Inr_iff [ts_simps]:
  assumes "d < 2 ^ 64"
  shows "ts_add a d = Inr b \<longleftrightarrow> unat b = unat a + d \<and> unat b \<le> unat ts_MAX"
proof -
  have d: "unat (of_nat d :: 64 word) = d"
    using assms by (simp add: unat_of_nat)
  show ?thesis
  proof (cases "unat a + d < 2 ^ 64")
    case True
    then have "unat (a + of_nat d) = unat a + d" by (simp add: unat_word_ariths d)
    with True show ?thesis by (auto simp: ts_add_def d word_less_nat_alt word_unat_eq_iff)
  next
    case False
    then show ?thesis using unat_ts_less [of b] by (auto simp: ts_add_def d)
  qed
qed

lemma ts_sub_Inr_iff [ts_simps]:
  assumes "d < 2 ^ 64"
  shows "ts_sub a d = Inr b \<longleftrightarrow> unat a = unat b + d \<and> 0 < unat b"
proof -
  have d: "unat (of_nat d :: 64 word) = d"
    using assms by (simp add: unat_of_nat)
  have "of_nat d \<le> a \<Longrightarrow> unat (a - of_nat d) = unat a - d"
    by (simp add: unat_sub d)
  then show ?thesis
    by (auto simp: ts_sub_def d word_le_nat_alt word_unat_eq_iff)
qed

lemma ts_sub_less: "ts_sub a d = Inr b \<Longrightarrow> b \<le> a"
  by (auto simp: ts_sub_def Let_def word_le_nat_alt unat_sub split: if_splits)

lemma ts_i64_inverse: "a \<le> ts_MAX \<Longrightarrow> ts_try_from_i64 (ts_to_i64 a) = Inr a"
proof -
  assume "a \<le> ts_MAX"
  then have "unat a < 2 ^ 63"
    by (simp add: word_le_nat_alt unat_ts_MAX)
  then have "int (unat a) < int (2 ^ 63)" by (simp only: of_nat_less_iff)
  then have "uint a < 2 ^ 63" by simp
  moreover have "- (2 ^ 63) \<le> uint a"
    by (rule order_trans [of _ 0]) simp_all
  ultimately have "sint a = uint a"
    by (simp add: sint_uint signed_take_bit_int_eq_self_iff)
  then show "ts_try_from_i64 (ts_to_i64 a) = Inr a"
    by (simp add: ts_try_from_i64_def ts_to_i64_def)
qed

subsection \<open>Properties\<close>

text \<open>
  C37: Timestamp arithmetic never wraps around. On timestamps of the legal range, the successor,
  the predecessor, and the sum and difference with a duration of less than \<^verbatim>\<open>2^64\<close> nanoseconds are
  computed exactly and stay in the range, and each operation fails exactly when the exact result
  leaves the range (a difference also when the result would be zero).
\<close>

theorem timestamp_arithmetic_exact:
  assumes "a \<le> ts_MAX" and "d < 2 ^ 64"
  shows "(ts_succ a = Inr b \<longleftrightarrow> b \<le> ts_MAX \<and> unat b = unat a + 1)
    \<and> (ts_pred a = Inr b \<longleftrightarrow> b \<le> ts_MAX \<and> unat b + 1 = unat a)
    \<and> (ts_add a d = Inr b \<longleftrightarrow> b \<le> ts_MAX \<and> unat b = unat a + d)
    \<and> (ts_sub a d = Inr b \<longleftrightarrow> b \<le> ts_MAX \<and> unat b + d = unat a \<and> b \<noteq> 0)
    \<and> ts_try_from_i64 (ts_to_i64 a) = Inr a"
  using assms ts_i64_inverse [of a]
  by (auto simp: ts_succ_Inr_iff ts_pred_Inr_iff ts_add_Inr_iff ts_sub_Inr_iff word_le_nat_alt
      unat_gt_0)

theorem timestamp_arithmetic_exact_witness:
  "ts_add 5 7 = Inr (12 :: Timestamp) \<and> ts_sub 12 7 = Inr (5 :: Timestamp) \<and> ts_succ 5 = Inr (6 :: Timestamp)"
  using timestamp_arithmetic_exact [of 5 7 6] timestamp_arithmetic_exact [of 5 7 12]
    timestamp_arithmetic_exact [of 12 7 5]
  by (simp add: ts_MAX_def)

end
