(* ===== verification/Reads.thy ===== *)
theory Reads
  imports Interval_Set Search_Reads Timestamps
begin

text \<open>
  Read sets (\<^verbatim>\<open>src/crates/database/src/reads.rs\<close>): what a transaction or a subscription has read, as
  intervals of index keys and text searches, how a transaction records it, and the test whether a
  written document overlaps it. The knobs that limit a transaction are a record; whether stack
  traces are captured, and the trace of the current call, are one optional argument; calls of the
  usage tracker are returned as a list of events. Loops that return early are recursive functions
  over what is left to visit.
\<close>

subsection \<open>Read sets\<close>

type_synonym StackTrace = string
type_synonym WriteSource = "string option"

record IndexReads =
  ir_fields :: "field_path list"
  ir_intervals :: IntervalSet
  ir_stack_traces :: "(interval \<times> StackTrace) list option"

record ReadSet =
  rs_indexed :: "(TabletIndexName, IndexReads) btree_map"
  rs_search :: "(TabletIndexName, QueryReads) btree_map"

definition read_set_empty :: ReadSet where
  "read_set_empty = \<lparr>rs_indexed = [], rs_search = []\<rparr>"

record ConflictingRead =
  cr_index :: TabletIndexName
  cr_id :: ResolvedDocumentId
  cr_stack_traces :: "StackTrace list option"

record ConflictingReadWithWriteSource =
  crw_read :: ConflictingRead
  crw_write_source :: WriteSource
  crw_write_ts :: Timestamp

definition matching_traces :: "IndexReads \<Rightarrow> IndexKeyBytes \<Rightarrow> StackTrace list option" where
  "matching_traces r k = map_option (\<lambda>st. map snd (filter (\<lambda>(i, _). ivl_contains i k) st)) (ir_stack_traces r)"

fun overlaps_indexed_document ::
  "PackedDocument \<Rightarrow> (TabletIndexName \<times> IndexReads) list \<Rightarrow> error + ConflictingRead option" where
  "overlaps_indexed_document doc [] = Inr None"
| "overlaps_indexed_document doc ((index, r) # rest) =
     and_then (pd_index_key doc (ir_fields r))
       (\<lambda>k. if iset_contains (ir_intervals r) k
             then Inr (Some \<lparr>cr_index = index, cr_id = pd_id doc, cr_stack_traces = matching_traces r k\<rparr>)
             else overlaps_indexed_document doc rest)"

fun overlaps_search_document ::
  "(bytes \<Rightarrow> bytes) \<Rightarrow> (bytes \<Rightarrow> SearchValueTokens) \<Rightarrow> PackedDocument \<Rightarrow> (TabletIndexName \<times> QueryReads) list
    \<Rightarrow> error + ConflictingRead option" where
  "overlaps_search_document sha256 tokenize doc [] = Inr None"
| "overlaps_search_document sha256 tokenize doc ((index, r) # rest) =
     and_then (query_reads_overlaps_document sha256 tokenize r doc)
       (\<lambda>hit. if hit then Inr (Some \<lparr>cr_index = index, cr_id = pd_id doc, cr_stack_traces = None\<rparr>)
               else overlaps_search_document sha256 tokenize doc rest)"

definition overlaps_document ::
  "(bytes \<Rightarrow> bytes) \<Rightarrow> (bytes \<Rightarrow> SearchValueTokens) \<Rightarrow> ReadSet \<Rightarrow> PackedDocument \<Rightarrow> error + ConflictingRead option" where
  "overlaps_document sha256 tokenize reads doc =
     (let t = tablet_id (pd_id doc) in
      and_then (overlaps_indexed_document doc (iter_indexes_for_table (rs_indexed reads) t))
        (\<lambda>c. if c \<noteq> None then Inr c
              else overlaps_search_document sha256 tokenize doc (iter_indexes_for_table (rs_search reads) t)))"

fun overlaps_indexed_keys ::
  "ResolvedDocumentId \<Rightarrow> DocumentIndexKeys \<Rightarrow> (TabletIndexName \<times> IndexReads) list \<Rightarrow> ConflictingRead option" where
  "overlaps_indexed_keys did keys [] = None"
| "overlaps_indexed_keys did keys ((index, r) # rest) =
     (case document_index_keys_get keys index of
        Some (Standard k) \<Rightarrow>
          (if iset_contains (ir_intervals r) k
           then Some \<lparr>cr_index = index, cr_id = did, cr_stack_traces = matching_traces r k\<rparr>
           else overlaps_indexed_keys did keys rest)
      | _ \<Rightarrow> overlaps_indexed_keys did keys rest)"

fun overlaps_search_keys ::
  "ResolvedDocumentId \<Rightarrow> DocumentIndexKeys \<Rightarrow> (TabletIndexName \<times> QueryReads) list \<Rightarrow> ConflictingRead option" where
  "overlaps_search_keys did keys [] = None"
| "overlaps_search_keys did keys ((index, r) # rest) =
     (case document_index_keys_get keys index of
        Some (Search kv) \<Rightarrow>
          (if overlaps_search_index_key_value r kv
           then Some \<lparr>cr_index = index, cr_id = did, cr_stack_traces = None\<rparr>
           else overlaps_search_keys did keys rest)
      | _ \<Rightarrow> overlaps_search_keys did keys rest)"

definition overlaps_index_keys :: "ReadSet \<Rightarrow> ResolvedDocumentId \<Rightarrow> DocumentIndexKeys \<Rightarrow> ConflictingRead option" where
  "overlaps_index_keys reads did keys =
     (case overlaps_indexed_keys did keys (iter_indexes_for_table (rs_indexed reads) (tablet_id did)) of
        Some c \<Rightarrow> Some c
      | None \<Rightarrow> overlaps_search_keys did keys (iter_indexes_for_table (rs_search reads) (tablet_id did)))"

subsection \<open>Writes against reads\<close>

text \<open>The updates of a commit: full documents for pending writes, index keys in the write log.\<close>

record PackedDocumentUpdate =
  pdu_id :: ResolvedDocumentId
  pdu_old_document :: "PackedDocument option"
  pdu_new_document :: "PackedDocument option"

record DocumentIndexKeysUpdate =
  iku_id :: ResolvedDocumentId
  iku_old_document_keys :: "DocumentIndexKeys option"
  iku_new_document_keys :: "DocumentIndexKeys option"

datatype RefreshableTabletUpdate = RefreshableTabletUpdate "PackedDocument option"

type_synonym OrderedDocumentWrites = "(ResolvedDocumentId \<times> PackedDocumentUpdate) list"
type_synonym OrderedIndexKeyWrites =
  "(ResolvedDocumentId \<times> DocumentIndexKeysUpdate \<times> RefreshableTabletUpdate option) list"

definition overlaps_optional_document ::
  "(bytes \<Rightarrow> bytes) \<Rightarrow> (bytes \<Rightarrow> SearchValueTokens) \<Rightarrow> ReadSet \<Rightarrow> PackedDocument option
    \<Rightarrow> error + ConflictingRead option" where
  "overlaps_optional_document sha256 tokenize reads d =
     (case d of None \<Rightarrow> Inr None | Some doc \<Rightarrow> overlaps_document sha256 tokenize reads doc)"

fun updates_overlap_docs ::
  "(bytes \<Rightarrow> bytes) \<Rightarrow> (bytes \<Rightarrow> SearchValueTokens) \<Rightarrow> ReadSet \<Rightarrow> OrderedDocumentWrites
    \<Rightarrow> error + ConflictingRead option" where
  "updates_overlap_docs sha256 tokenize reads [] = Inr None"
| "updates_overlap_docs sha256 tokenize reads ((_, u) # us) =
     and_then (overlaps_optional_document sha256 tokenize reads (pdu_new_document u)) (\<lambda>c.
       if c \<noteq> None then Inr c
       else and_then (overlaps_optional_document sha256 tokenize reads (pdu_old_document u)) (\<lambda>c'.
         if c' \<noteq> None then Inr c' else updates_overlap_docs sha256 tokenize reads us))"

fun writes_overlap_docs ::
  "(bytes \<Rightarrow> bytes) \<Rightarrow> (bytes \<Rightarrow> SearchValueTokens) \<Rightarrow> ReadSet \<Rightarrow> (Timestamp \<times> OrderedDocumentWrites \<times> WriteSource) list
    \<Rightarrow> error + ConflictingReadWithWriteSource option" where
  "writes_overlap_docs sha256 tokenize reads [] = Inr None"
| "writes_overlap_docs sha256 tokenize reads ((ts, us, source) # rest) =
     and_then (updates_overlap_docs sha256 tokenize reads us) (\<lambda>c. case c of
         Some r \<Rightarrow> Inr (Some \<lparr>crw_read = r, crw_write_source = source, crw_write_ts = ts\<rparr>)
       | None \<Rightarrow> writes_overlap_docs sha256 tokenize reads rest)"

definition overlaps_optional_keys ::
  "ReadSet \<Rightarrow> ResolvedDocumentId \<Rightarrow> DocumentIndexKeys option \<Rightarrow> ConflictingRead option" where
  "overlaps_optional_keys reads did k = (case k of None \<Rightarrow> None | Some keys \<Rightarrow> overlaps_index_keys reads did keys)"

fun updates_overlap_index_keys :: "ReadSet \<Rightarrow> OrderedIndexKeyWrites \<Rightarrow> ConflictingRead option" where
  "updates_overlap_index_keys reads [] = None"
| "updates_overlap_index_keys reads ((did, u, _) # us) =
     (case overlaps_optional_keys reads did (iku_new_document_keys u) of
        Some c \<Rightarrow> Some c
      | None \<Rightarrow> (case overlaps_optional_keys reads did (iku_old_document_keys u) of
            Some c \<Rightarrow> Some c
          | None \<Rightarrow> updates_overlap_index_keys reads us))"

fun writes_overlap_index_keys ::
  "ReadSet \<Rightarrow> (Timestamp \<times> OrderedIndexKeyWrites \<times> WriteSource) list \<Rightarrow> ConflictingReadWithWriteSource option" where
  "writes_overlap_index_keys reads [] = None"
| "writes_overlap_index_keys reads ((ts, us, source) # rest) =
     (case updates_overlap_index_keys reads us of
        Some r \<Rightarrow> Some \<lparr>crw_read = r, crw_write_source = source, crw_write_ts = ts\<rparr>
      | None \<Rightarrow> writes_overlap_index_keys reads rest)"

subsection \<open>The read set of a transaction\<close>

record TransactionReadSize =
  total_document_size :: nat
  total_document_count :: nat

definition read_size_zero :: TransactionReadSize where
  "read_size_zero = \<lparr>total_document_size = 0, total_document_count = 0\<rparr>"

definition read_size_add :: "TransactionReadSize \<Rightarrow> TransactionReadSize \<Rightarrow> TransactionReadSize" where
  "read_size_add a b = \<lparr>total_document_size = total_document_size a + total_document_size b,
     total_document_count = total_document_count a + total_document_count b\<rparr>"

record TransactionReadSet =
  trs_read_set :: ReadSet
  trs_num_intervals :: nat
  trs_user_tx_size :: TransactionReadSize
  trs_system_tx_size :: TransactionReadSize

record ReadLimits =
  TRANSACTION_MAX_READ_SIZE_ROWS :: nat
  TRANSACTION_MAX_READ_SIZE_BYTES :: nat
  TRANSACTION_MAX_READ_SET_INTERVALS :: nat

definition transaction_read_set_new :: TransactionReadSet where
  "transaction_read_set_new = \<lparr>trs_read_set = read_set_empty, trs_num_intervals = 0,
     trs_user_tx_size = read_size_zero, trs_system_tx_size = read_size_zero\<rparr>"

fun add_intervals ::
  "StackTrace option \<Rightarrow> interval list \<Rightarrow> IntervalSet \<Rightarrow> (interval \<times> StackTrace) list option
    \<Rightarrow> error + IntervalSet \<times> (interval \<times> StackTrace) list option" where
  "add_intervals trace [] s st = Inr (s, st)"
| "add_intervals trace (i # is) s st =
     and_then (iset_add s i) (\<lambda>s'.
       add_intervals trace is s' (case trace of None \<Rightarrow> st | Some t \<Rightarrow> map_option (\<lambda>l. l @ [(i, t)]) st))"

definition record_indexed ::
  "StackTrace option \<Rightarrow> TransactionReadSet \<Rightarrow> TabletIndexName \<Rightarrow> field_path list \<Rightarrow> interval list
    \<Rightarrow> error + TransactionReadSet \<times> nat \<times> nat" where
  "record_indexed trace trs index paths is =
     (let reads = entry_or \<lparr>ir_fields = paths, ir_intervals = iset_new,
                           ir_stack_traces = (if trace = None then None else Some [])\<rparr>
                    (rs_indexed (trs_read_set trs)) index
      in if ir_fields reads \<noteq> paths then Inl (Panic ''trying to change index fields'')
         else and_then (add_intervals trace is (ir_intervals reads) (ir_stack_traces reads)) (\<lambda>(s, st).
           Inr (trs\<lparr>trs_read_set := (trs_read_set trs)\<lparr>rs_indexed :=
                  bt_insert index (reads\<lparr>ir_intervals := s, ir_stack_traces := st\<rparr>) (rs_indexed (trs_read_set trs))\<rparr>\<rparr>,
                iset_len (ir_intervals reads), iset_len s)))"

definition record_indexed_derived ::
  "StackTrace option \<Rightarrow> TransactionReadSet \<Rightarrow> TabletIndexName \<Rightarrow> field_path list \<Rightarrow> interval
    \<Rightarrow> error + TransactionReadSet" where
  "record_indexed_derived trace trs index paths i =
     and_then (record_indexed trace trs index paths [i]) (\<lambda>(trs', _, _). Inr trs')"

definition record_search :: "TransactionReadSet \<Rightarrow> TabletIndexName \<Rightarrow> QueryReads \<Rightarrow> TransactionReadSet" where
  "record_search trs index reads =
     trs\<lparr>trs_read_set := (trs_read_set trs)\<lparr>rs_search :=
       bt_insert index (query_reads_merge (entry_or query_reads_empty (rs_search (trs_read_set trs)) index) reads)
         (rs_search (trs_read_set trs))\<rparr>\<rparr>"

fun merge_indexed ::
  "StackTrace option \<Rightarrow> (TabletIndexName \<times> IndexReads) list \<Rightarrow> TransactionReadSet \<Rightarrow> error + TransactionReadSet" where
  "merge_indexed trace [] trs = Inr trs"
| "merge_indexed trace ((index, r) # rest) trs =
     and_then (record_indexed trace trs index (ir_fields r) (iset_iter (ir_intervals r)))
       (\<lambda>(trs', _, _). merge_indexed trace rest trs')"

definition trs_merge ::
  "StackTrace option \<Rightarrow> TransactionReadSet \<Rightarrow> ReadSet \<Rightarrow> nat \<Rightarrow> TransactionReadSize \<Rightarrow> TransactionReadSize
    \<Rightarrow> error + TransactionReadSet" where
  "trs_merge trace trs reads n user_size system_size =
     and_then (merge_indexed trace (rs_indexed reads) trs) (\<lambda>trs1.
       let trs2 = fold (\<lambda>(index, r) t. record_search t index r) (rs_search reads) trs1
       in Inr (trs2\<lparr>trs_num_intervals := trs_num_intervals trs2 + n,
                    trs_user_tx_size := read_size_add (trs_user_tx_size trs2) user_size,
                    trs_system_tx_size := read_size_add (trs_system_tx_size trs2) system_size\<rparr>))"

text \<open>
  Reading a document is counted and limited. The result is returned with the state, because the
  sizes are updated before the limits are checked.
\<close>

datatype UsageEvent =
    DatabaseEgress "bytes list" bytes nat bool
  | DatabaseEgressRows "bytes list" bytes nat bool

definition record_read_document ::
  "ReadLimits \<Rightarrow> TransactionReadSet \<Rightarrow> bytes list \<Rightarrow> bytes \<Rightarrow> nat \<Rightarrow> bool
    \<Rightarrow> (error + unit) \<times> TransactionReadSet \<times> UsageEvent list" where
  "record_read_document limits trs component_path table_name document_size is_virtual_table =
     (let is_system_table = table_name_is_system table_name \<and> \<not> is_virtual_table;
          events = [DatabaseEgress component_path table_name document_size is_system_table,
                    DatabaseEgressRows component_path table_name 1 is_system_table];
          old = (if is_system_table then trs_system_tx_size trs else trs_user_tx_size trs);
          tx_size = \<lparr>total_document_size = total_document_size old + document_size,
                     total_document_count = total_document_count old + 1\<rparr>;
          trs' = (if is_system_table then trs\<lparr>trs_system_tx_size := tx_size\<rparr> else trs\<lparr>trs_user_tx_size := tx_size\<rparr>);
          result = (if is_system_table then Inr ()
                    else if total_document_count tx_size > TRANSACTION_MAX_READ_SIZE_ROWS limits
                    then Inl (PaginationLimit ''TooManyDocumentsRead'')
                    else if total_document_size tx_size > TRANSACTION_MAX_READ_SIZE_BYTES limits
                    then Inl (PaginationLimit ''TooManyBytesRead'')
                    else Inr ())
      in (result, trs', events))"

definition record_read_system_document :: "TransactionReadSet \<Rightarrow> nat \<Rightarrow> TransactionReadSet" where
  "record_read_system_document trs document_size =
     trs\<lparr>trs_system_tx_size := \<lparr>total_document_size = total_document_size (trs_system_tx_size trs) + document_size,
                             total_document_count = total_document_count (trs_system_tx_size trs) + 1\<rparr>\<rparr>"

definition record_indexed_directly ::
  "StackTrace option \<Rightarrow> ReadLimits \<Rightarrow> TransactionReadSet \<Rightarrow> TabletIndexName \<Rightarrow> field_path list \<Rightarrow> interval
    \<Rightarrow> (error + unit) \<times> TransactionReadSet" where
  "record_indexed_directly trace limits trs index paths i =
     (case record_indexed trace trs index paths [i] of
        Inl e \<Rightarrow> (Inl e, trs)
      | Inr (trs', before, after) \<Rightarrow>
          let n = trs_num_intervals trs' - before + after
          in (if n > TRANSACTION_MAX_READ_SET_INTERVALS limits then Inl (PaginationLimit ''TooManyReads'') else Inr (),
              trs'\<lparr>trs_num_intervals := n\<rparr>))"

text \<open>The three indexes with the most intervals, most first (sorted by length, reversed).\<close>

definition top_three_intervals :: "TransactionReadSet \<Rightarrow> (nat \<times> TabletIndexName) list" where
  "top_three_intervals trs =
     take 3 (rev (sort_key fst (map (\<lambda>(index, r). (iset_len (ir_intervals r), index)) (rs_indexed (trs_read_set trs)))))"

subsection \<open>Well-formed read sets\<close>

definition wf_reads :: "ReadSet \<Rightarrow> bool" where
  "wf_reads rs \<longleftrightarrow> bt_wf (rs_indexed rs) \<and> bt_wf (rs_search rs)
     \<and> (\<forall>n r. bt_get (rs_indexed rs) n = Some r \<longrightarrow> valid_index_name n \<and> wf_iset (ir_intervals r))
     \<and> (\<forall>n q. bt_get (rs_search rs) n = Some q \<longrightarrow> valid_index_name n \<and> reads_consistent q)"

lemma wf_readsD:
  assumes "wf_reads rs"
  shows "bt_wf (rs_indexed rs)" "bt_wf (rs_search rs)"
    "bt_get (rs_indexed rs) n = Some r \<Longrightarrow> valid_index_name n"
    "bt_get (rs_indexed rs) n = Some r \<Longrightarrow> wf_iset (ir_intervals r)"
    "bt_get (rs_search rs) n = Some q \<Longrightarrow> valid_index_name n"
    "bt_get (rs_search rs) n = Some q \<Longrightarrow> reads_consistent q"
  using assms unfolding wf_reads_def by blast+

lemma wf_reads_empty: "wf_reads read_set_empty"
  by (simp add: wf_reads_def read_set_empty_def)

text \<open>The entries of a table, whichever map they are in.\<close>

lemma set_iter_indexes:
  assumes "bt_wf m" "\<And>n v. bt_get m n = Some v \<Longrightarrow> valid_index_name n"
  shows "(n, v) \<in> set (iter_indexes_for_table m t) \<longleftrightarrow> bt_get m n = Some v \<and> index_table n = t"
  using iter_indexes_for_table_eq [OF assms(1), of t] assms(2) bt_get_iff [OF assms(1)] by auto

subsection \<open>Overlap as membership\<close>

definition valid_document :: "PackedDocument \<Rightarrow> bool" where
  "valid_document doc \<longleftrightarrow> length (dev_internal_id (developer_id (pd_id doc))) = 16"

definition index_hit :: "PackedDocument \<Rightarrow> IndexReads \<Rightarrow> bool" where
  "index_hit doc r \<longleftrightarrow> (\<exists>k. pd_index_key doc (ir_fields r) = Inr k \<and> iset_contains (ir_intervals r) k)"

definition search_hit :: "(bytes \<Rightarrow> bytes) \<Rightarrow> (bytes \<Rightarrow> SearchValueTokens) \<Rightarrow> PackedDocument \<Rightarrow> QueryReads \<Rightarrow> bool" where
  "search_hit sha256 tokenize doc q \<longleftrightarrow> query_reads_overlaps_document sha256 tokenize q doc = Inr True"

definition document_hit :: "(bytes \<Rightarrow> bytes) \<Rightarrow> (bytes \<Rightarrow> SearchValueTokens) \<Rightarrow> ReadSet \<Rightarrow> PackedDocument \<Rightarrow> bool" where
  "document_hit sha256 tokenize rs doc \<longleftrightarrow>
     (\<exists>n r. bt_get (rs_indexed rs) n = Some r \<and> index_table n = tablet_id (pd_id doc) \<and> index_hit doc r)
     \<or> (\<exists>n q. bt_get (rs_search rs) n = Some q \<and> index_table n = tablet_id (pd_id doc) \<and> search_hit sha256 tokenize doc q)"

lemma overlaps_indexed_document_iff:
  assumes "valid_document doc"
  shows "\<exists>c. overlaps_indexed_document doc rs = Inr c \<and> (c \<noteq> None \<longleftrightarrow> (\<exists>(n, r) \<in> set rs. index_hit doc r))"
proof (induction rs)
  case (Cons e rs)
  obtain n r where e: "e = (n, r)" by (cases e)
  obtain k where k: "pd_index_key doc (ir_fields r) = Inr k"
    using pd_index_key_total [of doc] assms by (auto simp: valid_document_def)
  with Cons show ?case by (auto simp: e index_hit_def)
qed simp

lemma filters_match_document_total: "\<exists>b. filters_match_document sha256 doc fs = Inr b"
proof (induction fs)
  case (Cons f fs)
  obtain path v where f: "f = Must path v" by (cases f)
  obtain dv where "from_search_value sha256 (open_path (pd_value doc) path) = Inr dv"
    using from_search_value_total by blast
  with Cons show ?case by (auto simp: f)
qed (auto intro: exI [of _ True])

lemma query_reads_overlaps_document_total: "\<exists>b. query_reads_overlaps_document sha256 tokenize q doc = Inr b"
  using filters_match_document_total [of sha256 doc "filter_conditions q"]
  by (auto simp: query_reads_overlaps_document_def)

lemma overlaps_search_document_iff:
  "\<exists>c. overlaps_search_document sha256 tokenize doc rs = Inr c
     \<and> (c \<noteq> None \<longleftrightarrow> (\<exists>(n, q) \<in> set rs. search_hit sha256 tokenize doc q))"
proof (induction rs)
  case (Cons e rs)
  obtain n q where e: "e = (n, q)" by (cases e)
  obtain b where "query_reads_overlaps_document sha256 tokenize q doc = Inr b"
    using query_reads_overlaps_document_total by blast
  with Cons show ?case by (auto simp: e search_hit_def)
qed simp

lemma overlaps_document_iff:
  assumes "wf_reads rs" "valid_document doc"
  shows "\<exists>c. overlaps_document sha256 tokenize rs doc = Inr c \<and> (c \<noteq> None \<longleftrightarrow> document_hit sha256 tokenize rs doc)"
proof -
  let ?t = "tablet_id (pd_id doc)"
  have i: "(n, r) \<in> set (iter_indexes_for_table (rs_indexed rs) ?t) \<longleftrightarrow>
      bt_get (rs_indexed rs) n = Some r \<and> index_table n = ?t" for n r
    using wf_readsD(1,3) [OF assms(1)] by (rule set_iter_indexes)
  have s: "(n, q) \<in> set (iter_indexes_for_table (rs_search rs) ?t) \<longleftrightarrow>
      bt_get (rs_search rs) n = Some q \<and> index_table n = ?t" for n q
    using wf_readsD(2,5) [OF assms(1)] by (rule set_iter_indexes)
  obtain c where c: "overlaps_indexed_document doc (iter_indexes_for_table (rs_indexed rs) ?t) = Inr c"
    "c \<noteq> None \<longleftrightarrow> (\<exists>(n, r) \<in> set (iter_indexes_for_table (rs_indexed rs) ?t). index_hit doc r)"
    using overlaps_indexed_document_iff [OF assms(2)] by blast
  obtain d where d: "overlaps_search_document sha256 tokenize doc (iter_indexes_for_table (rs_search rs) ?t) = Inr d"
    "d \<noteq> None \<longleftrightarrow> (\<exists>(n, q) \<in> set (iter_indexes_for_table (rs_search rs) ?t). search_hit sha256 tokenize doc q)"
    using overlaps_search_document_iff [of sha256 tokenize doc "iter_indexes_for_table (rs_search rs) ?t"] by blast
  have "(c \<noteq> None \<or> d \<noteq> None) \<longleftrightarrow> document_hit sha256 tokenize rs doc"
    unfolding c(2) d(2) document_hit_def by (simp add: Bex_def i s)
  then show ?thesis by (auto simp: overlaps_document_def c(1) d(1))
qed

subsection \<open>Recording intervals\<close>

lemma add_intervals_correct:
  assumes "wf_iset s"
  shows "\<exists>s' st'. add_intervals trace is s st = Inr (s', st') \<and> wf_iset s'
    \<and> (\<forall>k. iset_contains s' k \<longleftrightarrow> iset_contains s k \<or> (\<exists>i \<in> set is. ivl_contains i k))"
proof -
  have "\<exists>st'. add_intervals trace is s st = (case iset.add_all s is of Inl e \<Rightarrow> Inl e | Inr s' \<Rightarrow> Inr (s', st'))"
    by (induction "is" arbitrary: s st) (auto simp: and_then_def split: sum.splits)
  moreover obtain s' where "iset.add_all s is = Inr s'" "wf_iset s'"
    "\<forall>k. iset_contains s' k \<longleftrightarrow> iset_contains s k \<or> (\<exists>i \<in> set is. ivl_contains i k)"
    using iset.add_all_correct [OF assms] by blast
  ultimately show ?thesis by auto
qed

text \<open>The keys that a read set covers in an index.\<close>

definition read_keys :: "ReadSet \<Rightarrow> TabletIndexName \<Rightarrow> bytes set" where
  "read_keys rs n = (case bt_get (rs_indexed rs) n of None \<Rightarrow> {} | Some r \<Rightarrow> {k. iset_contains (ir_intervals r) k})"

definition read_fields :: "ReadSet \<Rightarrow> TabletIndexName \<Rightarrow> field_path list option" where
  "read_fields rs n = map_option ir_fields (bt_get (rs_indexed rs) n)"

lemma record_indexed_correct:
  assumes wf: "wf_reads (trs_read_set trs)" and n: "valid_index_name n"
    and rec: "record_indexed trace trs n paths is = Inr (trs', before, after)"
  shows "wf_reads (trs_read_set trs')"
    and "read_fields (trs_read_set trs) n \<in> {None, Some paths}"
    and "read_fields (trs_read_set trs') n' = (if n' = n then Some paths else read_fields (trs_read_set trs) n')"
    and "read_keys (trs_read_set trs') n' =
      (if n' = n then read_keys (trs_read_set trs) n \<union> (\<Union>i \<in> set is. {k. ivl_contains i k}) else read_keys (trs_read_set trs) n')"
    and "rs_search (trs_read_set trs') = rs_search (trs_read_set trs)"
proof -
  let ?m = "rs_indexed (trs_read_set trs)"
  define r where "r = entry_or \<lparr>ir_fields = paths, ir_intervals = iset_new,
      ir_stack_traces = (if trace = None then None else Some [])\<rparr> ?m n"
  from rec have paths: "ir_fields r = paths"
    by (auto simp: record_indexed_def Let_def r_def split: if_splits)
  have wfr: "wf_iset (ir_intervals r)"
    using wf_readsD(4) [OF wf] iset.invar_new by (auto simp: r_def entry_or_def split: option.splits)
  obtain s' st' where add: "add_intervals trace is (ir_intervals r) (ir_stack_traces r) = Inr (s', st')" "wf_iset s'"
    "\<And>k. iset_contains s' k \<longleftrightarrow> iset_contains (ir_intervals r) k \<or> (\<exists>i \<in> set is. ivl_contains i k)"
    using add_intervals_correct [OF wfr] by blast
  have trs': "trs_read_set trs' = (trs_read_set trs)\<lparr>rs_indexed :=
      bt_insert n (r\<lparr>ir_intervals := s', ir_stack_traces := st'\<rparr>) ?m\<rparr>"
    using rec paths add(1) by (auto simp: record_indexed_def Let_def r_def [symmetric])
  have keys: "{k. iset_contains (ir_intervals r) k} = read_keys (trs_read_set trs) n"
    using iset.member_new by (simp add: r_def entry_or_def read_keys_def split: option.splits)
  show "wf_reads (trs_read_set trs')"
    using wf n add(2) by (auto simp: wf_reads_def trs')
  show "read_fields (trs_read_set trs) n \<in> {None, Some paths}"
    using paths by (auto simp: r_def entry_or_def read_fields_def split: option.splits)
  show "read_fields (trs_read_set trs') n' = (if n' = n then Some paths else read_fields (trs_read_set trs) n')"
    using paths by (simp add: read_fields_def trs')
  show "read_keys (trs_read_set trs') n' =
      (if n' = n then read_keys (trs_read_set trs) n \<union> (\<Union>i \<in> set is. {k. ivl_contains i k}) else read_keys (trs_read_set trs) n')"
    unfolding keys [symmetric] by (auto simp: read_keys_def trs' add(3))
  show "rs_search (trs_read_set trs') = rs_search (trs_read_set trs)" by (simp add: trs')
qed

subsection \<open>What a transaction has recorded\<close>

text \<open>
  The history of a read set: the index ranges and the searches it was told about, in order. The
  errors that leave the read set changed (a limit that is exceeded) are steps too.
\<close>

datatype RecordedRead =
    IndexRange TabletIndexName "field_path list" interval
  | TextSearch TabletIndexName "TextQueryTermRead list" "FilterConditionRead list"

inductive recorded :: "TransactionReadSet \<Rightarrow> RecordedRead list \<Rightarrow> bool" where
  recorded_new: "recorded transaction_read_set_new []"
| recorded_derived: "recorded trs h \<Longrightarrow> valid_index_name n
    \<Longrightarrow> record_indexed_derived trace trs n paths i = Inr trs'
    \<Longrightarrow> recorded trs' (h @ [IndexRange n paths i])"
| recorded_directly: "recorded trs h \<Longrightarrow> valid_index_name n
    \<Longrightarrow> record_indexed_directly trace limits trs n paths i = (result, trs')
    \<Longrightarrow> (\<forall>msg. result \<noteq> Inl (Panic msg)) \<Longrightarrow> recorded trs' (h @ [IndexRange n paths i])"
| recorded_search: "recorded trs h \<Longrightarrow> valid_index_name n
    \<Longrightarrow> recorded (record_search trs n (query_reads_new qs fs)) (h @ [TextSearch n qs fs])"
| recorded_document: "recorded trs h
    \<Longrightarrow> record_read_document limits trs component table sz is_virtual = (result, trs', events) \<Longrightarrow> recorded trs' h"
| recorded_system_document: "recorded trs h \<Longrightarrow> recorded (record_read_system_document trs sz) h"
| recorded_merge: "recorded trs h \<Longrightarrow> recorded trs2 h2
    \<Longrightarrow> trs_merge trace trs (trs_read_set trs2) num user_size system_size = Inr trs'
    \<Longrightarrow> recorded trs' (h @ h2)"

text \<open>The ranges and the searches of a history on an index.\<close>

definition ranges :: "RecordedRead list \<Rightarrow> TabletIndexName \<Rightarrow> (field_path list \<times> interval) list" where
  "ranges h n = concat (map (\<lambda>e. case e of IndexRange n' p i \<Rightarrow> if n' = n then [(p, i)] else [] | _ \<Rightarrow> []) h)"

definition searches :: "RecordedRead list \<Rightarrow> TabletIndexName \<Rightarrow> (TextQueryTermRead list \<times> FilterConditionRead list) list" where
  "searches h n = concat (map (\<lambda>e. case e of TextSearch n' qs fs \<Rightarrow> if n' = n then [(qs, fs)] else [] | _ \<Rightarrow> []) h)"

lemma history_simps [simp]:
  "ranges [] n = []" "searches [] n = []"
  "ranges (h @ h') n = ranges h n @ ranges h' n" "searches (h @ h') n = searches h n @ searches h' n"
  "ranges [IndexRange n' p i] n = (if n' = n then [(p, i)] else [])" "ranges [TextSearch n' qs fs] n = []"
  "searches [TextSearch n' qs fs] n = (if n' = n then [(qs, fs)] else [])" "searches [IndexRange n' p i] n = []"
  by (simp_all add: ranges_def searches_def)

lemma ranges_iff: "(p, i) \<in> set (ranges h n) \<longleftrightarrow> IndexRange n p i \<in> set h"
  by (induction h) (auto simp: ranges_def split: RecordedRead.splits)

text \<open>A read set represents a history.\<close>

definition represents :: "ReadSet \<Rightarrow> RecordedRead list \<Rightarrow> bool" where
  "represents rs h \<longleftrightarrow> wf_reads rs
     \<and> (\<forall>n. (read_fields rs n = None \<longleftrightarrow> ranges h n = []) \<and> (\<forall>(p, i) \<in> set (ranges h n). read_fields rs n = Some p)
           \<and> read_keys rs n = (\<Union>(p, i) \<in> set (ranges h n). {k. ivl_contains i k}))
     \<and> (\<forall>n. (bt_get (rs_search rs) n = None \<longleftrightarrow> searches h n = [])
           \<and> (\<forall>q. bt_get (rs_search rs) n = Some q \<longrightarrow> text_queries q = concat (map fst (searches h n))
                \<and> filter_conditions q = concat (map snd (searches h n))))"

lemma representsD:
  assumes "represents rs h"
  shows "wf_reads rs" "read_fields rs n = None \<longleftrightarrow> ranges h n = []"
    "(p, i) \<in> set (ranges h n) \<Longrightarrow> read_fields rs n = Some p"
    "read_keys rs n = (\<Union>(p, i) \<in> set (ranges h n). {k. ivl_contains i k})"
    "bt_get (rs_search rs) n = None \<longleftrightarrow> searches h n = []"
    "bt_get (rs_search rs) n = Some q \<Longrightarrow> text_queries q = concat (map fst (searches h n))"
    "bt_get (rs_search rs) n = Some q \<Longrightarrow> filter_conditions q = concat (map snd (searches h n))"
  using assms unfolding represents_def by blast+

lemma represents_empty: "represents read_set_empty []"
  by (simp add: represents_def wf_reads_empty read_fields_def read_keys_def)
    (simp add: read_set_empty_def)

lemma represents_range:
  assumes rep: "represents (trs_read_set trs) h" and n: "valid_index_name n"
    and rec: "record_indexed trace trs n paths [i] = Inr (trs', before, after)"
  shows "represents (trs_read_set trs') (h @ [IndexRange n paths i])"
proof -
  note r = record_indexed_correct [OF representsD(1) [OF rep] n rec]
  show ?thesis
    unfolding represents_def r(3-5)
    using r(1,2) rep representsD(3) [OF rep, of _ _ n] by (fastforce simp: represents_def)
qed

lemma represents_search:
  assumes rep: "represents (trs_read_set trs) h" and n: "valid_index_name n" and q: "reads_consistent q"
    and parts: "parts \<noteq> []" "text_queries q = concat (map fst parts)" "filter_conditions q = concat (map snd parts)"
    and h': "\<And>m. ranges h' m = ranges h m" "\<And>m. searches h' m = searches h m @ (if m = n then parts else [])"
  shows "represents (trs_read_set (record_search trs n q)) h'"
proof -
  let ?rs = "trs_read_set trs" and ?rs' = "trs_read_set (record_search trs n q)"
  let ?old = "entry_or query_reads_empty (rs_search ?rs) n"
  have old: "reads_consistent ?old" "text_queries ?old = concat (map fst (searches h n))"
    "filter_conditions ?old = concat (map snd (searches h n))"
    using representsD(5,6,7) [OF rep, of n] wf_readsD(6) [OF representsD(1) [OF rep], of n]
    by (auto simp: entry_or_def split: option.splits)
  have get: "bt_get (rs_search ?rs') m = (if m = n then Some (query_reads_merge ?old q) else bt_get (rs_search ?rs) m)" for m
    by (simp add: record_search_def)
  have same: "rs_indexed ?rs' = rs_indexed ?rs" by (simp add: record_search_def)
  have "wf_reads ?rs'"
    using representsD(1) [OF rep] n old(1)
    by (auto simp: wf_reads_def same get reads_consistent_intros(3)) (simp add: record_search_def bt_wf_insert)
  with rep show ?thesis
    by (simp add: represents_def read_fields_def read_keys_def same get h' old parts)
qed

lemma represents_cong:
  assumes "\<And>n. ranges h n = ranges h' n" "\<And>n. searches h n = searches h' n"
  shows "represents rs h \<longleftrightarrow> represents rs h'"
  by (simp add: represents_def assms)

lemma iset_iter_contains:
  assumes "wf_iset s"
  shows "(\<Union>i \<in> set (iset_iter s). {k. ivl_contains i k}) = {k. iset_contains s k}"
  using assms ivl_all_points
  by (cases s) (auto simp: iset_contains_points ivl_points_def [symmetric] ivl_points_entry)

lemma merge_indexed_correct:
  assumes "wf_reads (trs_read_set trs)" "bt_wf es"
    and "\<And>n r. (n, r) \<in> set es \<Longrightarrow> valid_index_name n \<and> wf_iset (ir_intervals r)"
    and "merge_indexed trace es trs = Inr trs'"
  shows "wf_reads (trs_read_set trs') \<and> rs_search (trs_read_set trs') = rs_search (trs_read_set trs)
    \<and> (\<forall>n. read_fields (trs_read_set trs') n = (case bt_get es n of None \<Rightarrow> read_fields (trs_read_set trs) n
          | Some r \<Rightarrow> Some (ir_fields r))
        \<and> (\<forall>r. bt_get es n = Some r \<longrightarrow> read_fields (trs_read_set trs) n \<in> {None, Some (ir_fields r)})
        \<and> read_keys (trs_read_set trs') n = read_keys (trs_read_set trs) n
            \<union> (case bt_get es n of None \<Rightarrow> {} | Some r \<Rightarrow> {k. iset_contains (ir_intervals r) k}))"
  using assms
proof (induction es arbitrary: trs)
  case (Cons e es)
  obtain n r where e: "e = (n, r)" by (cases e)
  obtain trs1 before after where rec: "record_indexed trace trs n (ir_fields r) (iset_iter (ir_intervals r)) = Inr (trs1, before, after)"
    and rest: "merge_indexed trace es trs1 = Inr trs'"
    using Cons.prems(4) by (auto simp: e and_then_Inr_iff)
  have n: "valid_index_name n" "wf_iset (ir_intervals r)" using Cons.prems(3) [of n r] by (auto simp: e)
  note r = record_indexed_correct [OF Cons.prems(1) n(1) rec]
  have wf: "bt_wf es" and fresh: "bt_get es n = None"
    using Cons.prems(2) by (auto simp: e bt_wf_Cons bt_get_None_iff)
  have es: "valid_index_name m \<and> wf_iset (ir_intervals q)" if "(m, q) \<in> set es" for m q
    using Cons.prems(3) [of m q] that by simp
  note ih = Cons.IH [OF r(1) wf es rest]
  show ?case
  proof (intro conjI allI)
    show "wf_reads (trs_read_set trs')" "rs_search (trs_read_set trs') = rs_search (trs_read_set trs)"
      using ih by (simp_all add: r(5))
    fix m
    note ih = ih [THEN conjunct2, THEN conjunct2, THEN spec, of m]
    show "read_fields (trs_read_set trs') m = (case bt_get (e # es) m of None \<Rightarrow> read_fields (trs_read_set trs) m
        | Some r \<Rightarrow> Some (ir_fields r))"
      using ih fresh by (cases "bt_get es m") (auto simp: e r(3))
    show "bt_get (e # es) m = Some q \<longrightarrow> read_fields (trs_read_set trs) m \<in> {None, Some (ir_fields q)}" for q
      using ih r(2) fresh by (cases "m = n") (auto simp: e r(3))
    show "read_keys (trs_read_set trs') m = read_keys (trs_read_set trs) m
        \<union> (case bt_get (e # es) m of None \<Rightarrow> {} | Some r \<Rightarrow> {k. iset_contains (ir_intervals r) k})"
      using ih fresh by (cases "bt_get es m") (auto simp: e r(4) iset_iter_contains [OF n(2)])
  qed
qed simp

lemma merge_searches_correct:
  assumes "represents (trs_read_set trs) h" "bt_wf es"
    and "\<And>n q. (n, q) \<in> set es \<Longrightarrow> valid_index_name n \<and> reads_consistent q \<and> P n \<noteq> []
        \<and> text_queries q = concat (map fst (P n)) \<and> filter_conditions q = concat (map snd (P n))"
    and "\<And>m. ranges h' m = ranges h m"
    and "\<And>m. searches h' m = searches h m @ (if bt_get es m = None then [] else P m)"
  shows "represents (trs_read_set (fold (\<lambda>(n, q) t. record_search t n q) es trs)) h'"
  using assms
proof (induction es arbitrary: trs h)
  case Nil
  then show ?case using represents_cong [of h h'] by simp
next
  case (Cons e es)
  obtain n q where e: "e = (n, q)" by (cases e)
  define h1 where "h1 = h @ map (\<lambda>(qs, fs). TextSearch n qs fs) (P n)"
  have h1: "ranges h1 m = ranges h m" "searches h1 m = searches h m @ (if m = n then P n else [])" for m
  proof -
    have "concat (map (\<lambda>(qs, fs). if n = m then [(qs, fs)] else []) ps) = (if m = n then ps else [])" for ps
      by (induction ps) auto
    then show "ranges h1 m = ranges h m" "searches h1 m = searches h m @ (if m = n then P n else [])"
      by (simp_all add: h1_def ranges_def searches_def o_def case_prod_unfold)
  qed
  have q: "valid_index_name n" "reads_consistent q" "P n \<noteq> []" "text_queries q = concat (map fst (P n))"
    "filter_conditions q = concat (map snd (P n))"
    using Cons.prems(3) [of n q] by (auto simp: e)
  have wf: "bt_wf es" and fresh: "bt_get es n = None"
    using Cons.prems(2) by (auto simp: e bt_wf_Cons bt_get_None_iff)
  have "represents (trs_read_set (record_search trs n q)) h1"
    using Cons.prems(1) q h1 by (intro represents_search [where parts = "P n"]) auto
  then have "represents (trs_read_set (fold (\<lambda>(n, q) t. record_search t n q) es (record_search trs n q))) h'"
  proof (rule Cons.IH [OF _ wf])
    show "ranges h' m = ranges h1 m" for m using Cons.prems(4) by (simp add: h1)
    show "searches h' m = searches h1 m @ (if bt_get es m = None then [] else P m)" for m
      using Cons.prems(5) [of m] fresh by (cases "m = n") (simp_all add: e h1)
  qed (use Cons.prems(3) in auto)
  then show ?case by (simp add: e)
qed

lemma record_indexed_error:
  assumes "wf_reads (trs_read_set trs)" "record_indexed trace trs n paths is = Inl e"
  shows "e = Panic ''trying to change index fields''"
proof -
  define r where "r = entry_or \<lparr>ir_fields = paths, ir_intervals = iset_new,
      ir_stack_traces = (if trace = None then None else Some [])\<rparr> (rs_indexed (trs_read_set trs)) n"
  have "wf_iset (ir_intervals r)"
    using wf_readsD(4) [OF assms(1)] iset.invar_new by (auto simp: r_def entry_or_def split: option.splits)
  then obtain s' st' where "add_intervals trace is (ir_intervals r) (ir_stack_traces r) = Inr (s', st')"
    using add_intervals_correct by blast
  with assms(2) show ?thesis
    by (auto simp: record_indexed_def Let_def r_def [symmetric] split: if_splits)
qed

lemma represents_merge:
  assumes rep: "represents (trs_read_set trs) h" and rep2: "represents rs2 h2"
    and merge: "merge_indexed trace (rs_indexed rs2) trs = Inr trs1"
  shows "represents (trs_read_set (fold (\<lambda>(n, q) t. record_search t n q) (rs_search rs2) trs1)) (h @ h2)"
proof -
  note wf2 = wf_readsD [OF representsD(1) [OF rep2]]
  have ok: "valid_index_name n \<and> wf_iset (ir_intervals r)" if "(n, r) \<in> set (rs_indexed rs2)" for n r
    using that wf2(3,4) [of n r] by (simp add: bt_get_iff [OF wf2(1)])
  note m = merge_indexed_correct [OF representsD(1) [OF rep] wf2(1) ok merge]
  define h1 where "h1 = h @ filter (\<lambda>e. case e of IndexRange _ _ _ \<Rightarrow> True | _ \<Rightarrow> False) h2"
  have h1: "ranges h1 n = ranges h n @ ranges h2 n" "searches h1 n = searches h n" for n
    unfolding h1_def by (induction h2) (auto simp: ranges_def searches_def split: RecordedRead.splits)
  have "represents (trs_read_set trs1) h1"
    unfolding represents_def
  proof (intro conjI allI)
    fix n
    note m = m [THEN conjunct2, THEN conjunct2, THEN spec, of n]
    have f: "read_fields (trs_read_set trs1) n
        = (case read_fields rs2 n of None \<Rightarrow> read_fields (trs_read_set trs) n | Some p \<Rightarrow> Some p)"
      and c: "read_fields rs2 n = Some p \<Longrightarrow> read_fields (trs_read_set trs) n \<in> {None, Some p}"
      and k: "read_keys (trs_read_set trs1) n = read_keys (trs_read_set trs) n \<union> read_keys rs2 n" for p
      using m by (auto simp: read_fields_def [of rs2] read_keys_def [of rs2] split: option.splits)
    show "read_fields (trs_read_set trs1) n = None \<longleftrightarrow> ranges h1 n = []"
      using representsD(2) [OF rep, of n] representsD(2) [OF rep2, of n] by (auto simp: f h1 split: option.splits)
    show "\<forall>(p, i) \<in> set (ranges h1 n). read_fields (trs_read_set trs1) n = Some p"
      using representsD(2) [OF rep, of n] representsD(3) [OF rep, of _ _ n] representsD(3) [OF rep2, of _ _ n] c
      by (fastforce simp: f h1 split: option.splits)
    show "read_keys (trs_read_set trs1) n = (\<Union>(p, i) \<in> set (ranges h1 n). {k. ivl_contains i k})"
      by (simp add: k h1 representsD(4) [OF rep] representsD(4) [OF rep2] Un_commute)
  qed (use m representsD(5,6,7) [OF rep] in \<open>simp_all add: h1\<close>)
  then show ?thesis
  proof (rule merge_searches_correct [where P = "searches h2"])
    show "bt_wf (rs_search rs2)" by (rule wf2)
    show "ranges (h @ h2) n = ranges h1 n" for n by (simp add: h1)
    show "searches (h @ h2) n = searches h1 n @ (if bt_get (rs_search rs2) n = None then [] else searches h2 n)" for n
      using representsD(5) [OF rep2, of n] by (simp add: h1)
    show "valid_index_name n \<and> reads_consistent q \<and> searches h2 n \<noteq> []
        \<and> text_queries q = concat (map fst (searches h2 n)) \<and> filter_conditions q = concat (map snd (searches h2 n))"
      if "(n, q) \<in> set (rs_search rs2)" for n q
      using that wf2(5,6) [of n q] representsD(5,6,7) [OF rep2, of n] by (simp add: bt_get_iff [OF wf2(2), symmetric])
  qed
qed

lemma recorded_represents: "recorded trs h \<Longrightarrow> represents (trs_read_set trs) h"
proof (induction rule: recorded.induct)
  case recorded_new
  then show ?case by (simp add: transaction_read_set_new_def represents_empty)
next
  case (recorded_derived trs h n trace paths i trs')
  then show ?case
    by (auto simp: record_indexed_derived_def and_then_Inr_iff intro: represents_range)
next
  case (recorded_directly trs h n trace limits paths i result trs')
  show ?case
  proof (cases "record_indexed trace trs n paths [i]")
    case (Inl e)
    then have "\<exists>msg. e = Panic msg"
      using record_indexed_error [OF representsD(1) [OF recorded_directly(5)]] by blast
    with Inl recorded_directly show ?thesis by (auto simp: record_indexed_directly_def)
  next
    case (Inr b)
    obtain t before after where b: "b = (t, before, after)" by (cases b)
    with represents_range [OF recorded_directly(5,2)] Inr recorded_directly(3) show ?thesis
      by (auto simp: record_indexed_directly_def Let_def)
  qed
next
  case (recorded_search trs h n qs fs)
  then show ?case by (intro represents_search [where parts = "[(qs, fs)]"]) auto
next
  case (recorded_document trs h limits component table sz is_virtual result trs' events)
  then show ?case by (auto simp: record_read_document_def Let_def split: if_splits)
next
  case (recorded_system_document trs h sz)
  then show ?case by (simp add: record_read_system_document_def)
next
  case (recorded_merge trs h trs2 h2 trace num user_size system_size trs')
  then obtain trs1 where "merge_indexed trace (rs_indexed (trs_read_set trs2)) trs = Inr trs1"
    and trs': "trs_read_set trs' = trs_read_set (fold (\<lambda>(n, q) t. record_search t n q) (rs_search (trs_read_set trs2)) trs1)"
    by (auto simp: trs_merge_def and_then_Inr_iff Let_def)
  with represents_merge [OF recorded_merge(4,5)] show ?case by simp
qed

subsection \<open>Searches of a history\<close>

text \<open>What a search read stands for: its filter conditions and its terms, on a document.\<close>

definition search_matches ::
  "(bytes \<Rightarrow> bytes) \<Rightarrow> (bytes \<Rightarrow> SearchValueTokens) \<Rightarrow> PackedDocument \<Rightarrow> TextQueryTermRead list \<Rightarrow> FilterConditionRead list
    \<Rightarrow> bool" where
  "search_matches sha256 tokenize doc qs fs \<longleftrightarrow>
     (\<forall>path v. Must path v \<in> set fs \<longrightarrow> from_search_value sha256 (get_path (pd_value doc) path) = Inr v)
     \<and> (qs = [] \<or> (\<exists>q \<in> set qs. \<exists>str. get_path (pd_value doc) (tq_field_path q) = Some (String str)
          \<and> term_matches (tq_term q) (tokenize str)))"

lemma filters_match_document_iff:
  "filters_match_document sha256 doc fs = Inr True \<longleftrightarrow>
    (\<forall>path v. Must path v \<in> set fs \<longrightarrow> from_search_value sha256 (get_path (pd_value doc) path) = Inr v)"
proof (induction fs)
  case (Cons f fs)
  obtain path v where f: "f = Must path v" by (cases f)
  obtain dv where "from_search_value sha256 (get_path (pd_value doc) path) = Inr dv"
    using from_search_value_total by blast
  with Cons show ?case by (auto simp: f open_path_eq)
qed simp

lemma search_hit_iff:
  assumes "reads_consistent q"
  shows "search_hit sha256 tokenize doc q \<longleftrightarrow> search_matches sha256 tokenize doc (text_queries q) (filter_conditions q)"
proof -
  obtain b where b: "filters_match_document sha256 doc (filter_conditions q) = Inr b"
    using filters_match_document_total by blast
  have "b \<longleftrightarrow> (\<forall>path v. Must path v \<in> set (filter_conditions q)
      \<longrightarrow> from_search_value sha256 (get_path (pd_value doc) path) = Inr v)"
    unfolding filters_match_document_iff [symmetric] b by simp
  then show ?thesis
    by (simp add: search_hit_def search_matches_def query_reads_overlaps_document_def b
        tries_overlaps_document_iff [OF assms])
qed

text \<open>A recorded history, hit by a document.\<close>

definition range_hit :: "RecordedRead list \<Rightarrow> PackedDocument \<Rightarrow> bool" where
  "range_hit h doc \<longleftrightarrow> (\<exists>n p i k. IndexRange n p i \<in> set h \<and> index_table n = tablet_id (pd_id doc)
     \<and> pd_index_key doc p = Inr k \<and> ivl_contains i k)"

lemma represents_index_hit:
  assumes "represents rs h"
  shows "(\<exists>n r. bt_get (rs_indexed rs) n = Some r \<and> index_table n = tablet_id (pd_id doc) \<and> index_hit doc r)
    \<longleftrightarrow> range_hit h doc"
proof
  assume "\<exists>n r. bt_get (rs_indexed rs) n = Some r \<and> index_table n = tablet_id (pd_id doc) \<and> index_hit doc r"
  then obtain n r k where r: "bt_get (rs_indexed rs) n = Some r" "index_table n = tablet_id (pd_id doc)"
    "pd_index_key doc (ir_fields r) = Inr k" "iset_contains (ir_intervals r) k"
    by (auto simp: index_hit_def)
  then have "k \<in> read_keys rs n" by (simp add: read_keys_def)
  then obtain p i where i: "(p, i) \<in> set (ranges h n)" "ivl_contains i k"
    unfolding representsD(4) [OF assms] by auto
  with r(1) representsD(3) [OF assms i(1)] have "p = ir_fields r" by (simp add: read_fields_def)
  with r i show "range_hit h doc" by (auto simp: range_hit_def ranges_iff)
next
  assume "range_hit h doc"
  then obtain n p i k where i: "(p, i) \<in> set (ranges h n)" "index_table n = tablet_id (pd_id doc)"
    "pd_index_key doc p = Inr k" "ivl_contains i k"
    by (auto simp: range_hit_def ranges_iff)
  then have "k \<in> read_keys rs n" unfolding representsD(4) [OF assms] by auto
  moreover have "read_fields rs n = Some p" by (rule representsD(3) [OF assms i(1)])
  ultimately show "\<exists>n r. bt_get (rs_indexed rs) n = Some r \<and> index_table n = tablet_id (pd_id doc) \<and> index_hit doc r"
    using i(2,3) by (auto simp: read_keys_def read_fields_def index_hit_def split: option.splits)
qed

lemma represents_search_hit:
  assumes "represents rs h"
  shows "(\<exists>q. bt_get (rs_search rs) n = Some q \<and> search_hit sha256 tokenize doc q) \<longleftrightarrow>
    searches h n \<noteq> []
    \<and> search_matches sha256 tokenize doc (concat (map fst (searches h n))) (concat (map snd (searches h n)))"
  using representsD(5-7) [OF assms, of n] wf_readsD(6) [OF representsD(1) [OF assms], of n]
  by (cases "bt_get (rs_search rs) n") (auto simp: search_hit_iff)

lemma document_hit_iff:
  assumes "represents rs h"
  shows "document_hit sha256 tokenize rs doc \<longleftrightarrow> range_hit h doc
    \<or> (\<exists>n. searches h n \<noteq> [] \<and> index_table n = tablet_id (pd_id doc)
         \<and> search_matches sha256 tokenize doc (concat (map fst (searches h n))) (concat (map snd (searches h n))))"
  using represents_index_hit [OF assms, of doc] represents_search_hit [OF assms, of _ sha256 tokenize doc]
  unfolding document_hit_def by blast

lemma second_search_hides:
  assumes "valid_document doc" "valid_index_name n"
    and "\<not> search_matches sha256 tokenize doc [] [Must path v, Must path w]"
  shows "overlaps_document sha256 tokenize (trs_read_set (record_search
      (record_search transaction_read_set_new n (query_reads_new [] [Must path v])) n (query_reads_new [] [Must path w]))) doc
    = Inr None"
proof -
  let ?h = "[TextSearch n [] [Must path v], TextSearch n [] [Must path w]]"
  let ?rs = "trs_read_set (record_search (record_search transaction_read_set_new n (query_reads_new [] [Must path v]))
      n (query_reads_new [] [Must path w]))"
  have rep: "represents ?rs ?h"
    using recorded_represents [OF recorded_search [OF recorded_search [OF recorded_new assms(2)] assms(2)]] by fastforce
  have "searches ?h m = (if n = m then [([], [Must path v]), ([], [Must path w])] else [])" for m
    by (simp add: searches_def)
  with assms(3) have "\<not> document_hit sha256 tokenize ?rs doc"
    unfolding document_hit_iff [OF rep] by (simp add: range_hit_def)
  then show ?thesis
    using overlaps_document_iff [OF representsD(1) [OF rep] assms(1), of sha256 tokenize] by auto
qed

subsection \<open>Documents and index keys\<close>

text \<open>
  Checking a document against a read set and checking its index keys agree, conflict and stack
  traces included, when the keys are those of the document for the indexes that were read.
\<close>

definition keys_agree ::
  "(bytes \<Rightarrow> bytes) \<Rightarrow> (bytes \<Rightarrow> SearchValueTokens) \<Rightarrow> ReadSet \<Rightarrow> PackedDocument \<Rightarrow> DocumentIndexKeys \<Rightarrow> bool" where
  "keys_agree sha256 tokenize rs doc keys \<longleftrightarrow>
     (\<forall>(n, r) \<in> set (iter_indexes_for_table (rs_indexed rs) (tablet_id (pd_id doc))).
        \<exists>k. document_index_keys_get keys n = Some (Standard k) \<and> pd_index_key doc (ir_fields r) = Inr k)
     \<and> (\<forall>(n, q) \<in> set (iter_indexes_for_table (rs_search rs) (tablet_id (pd_id doc))).
        \<exists>kv. document_index_keys_get keys n = Some (Search kv)
          \<and> query_reads_overlaps_document sha256 tokenize q doc = Inr (overlaps_search_index_key_value q kv))"

lemma overlaps_indexed_agree:
  assumes "\<forall>(n, r) \<in> set rs. \<exists>k. document_index_keys_get keys n = Some (Standard k) \<and> pd_index_key doc (ir_fields r) = Inr k"
  shows "overlaps_indexed_document doc rs = Inr (overlaps_indexed_keys (pd_id doc) keys rs)"
  using assms by (induction rs) auto

lemma overlaps_search_agree:
  assumes "\<forall>(n, q) \<in> set rs. \<exists>kv. document_index_keys_get keys n = Some (Search kv)
    \<and> query_reads_overlaps_document sha256 tokenize q doc = Inr (overlaps_search_index_key_value q kv)"
  shows "overlaps_search_document sha256 tokenize doc rs = Inr (overlaps_search_keys (pd_id doc) keys rs)"
  using assms by (induction rs) auto

lemma overlaps_agree:
  assumes "keys_agree sha256 tokenize rs doc keys"
  shows "overlaps_document sha256 tokenize rs doc = Inr (overlaps_index_keys rs (pd_id doc) keys)"
  using assms unfolding keys_agree_def
  by (auto simp: overlaps_document_def overlaps_index_keys_def Let_def overlaps_indexed_agree overlaps_search_agree
      split: option.splits)

text \<open>An update of documents and the update of index keys that the write log keeps for it.\<close>

definition update_agrees ::
  "(bytes \<Rightarrow> bytes) \<Rightarrow> (bytes \<Rightarrow> SearchValueTokens) \<Rightarrow> ReadSet \<Rightarrow> PackedDocumentUpdate \<Rightarrow> DocumentIndexKeysUpdate \<Rightarrow> bool" where
  "update_agrees sha256 tokenize rs u k \<longleftrightarrow>
     rel_option (\<lambda>doc keys. pd_id doc = iku_id k \<and> keys_agree sha256 tokenize rs doc keys)
       (pdu_old_document u) (iku_old_document_keys k)
     \<and> rel_option (\<lambda>doc keys. pd_id doc = iku_id k \<and> keys_agree sha256 tokenize rs doc keys)
       (pdu_new_document u) (iku_new_document_keys k)"

lemma overlaps_optional_agree:
  assumes "rel_option (\<lambda>doc keys. pd_id doc = did \<and> keys_agree sha256 tokenize rs doc keys) d k"
  shows "overlaps_optional_document sha256 tokenize rs d = Inr (overlaps_optional_keys rs did k)"
  using assms by (auto simp: overlaps_optional_document_def overlaps_optional_keys_def overlaps_agree option_rel_Some1
      split: option.splits)

lemma updates_overlap_agree:
  assumes "list_all2 (\<lambda>(d, u) (d', k, _). d' = iku_id k \<and> update_agrees sha256 tokenize rs u k) us ks"
  shows "updates_overlap_docs sha256 tokenize rs us = Inr (updates_overlap_index_keys rs ks)"
  using assms
  by (induction rule: list_all2_induct)
    (auto simp: update_agrees_def overlaps_optional_agree split: option.splits)

lemma writes_overlap_agree:
  assumes "list_all2 (\<lambda>(ts, us, src) (ts', ks, src'). ts = ts' \<and> src = src'
     \<and> list_all2 (\<lambda>(d, u) (d', k, _). d' = iku_id k \<and> update_agrees sha256 tokenize rs u k) us ks) ws kws"
  shows "writes_overlap_docs sha256 tokenize rs ws = Inr (writes_overlap_index_keys rs kws)"
  using assms
  by (induction rule: list_all2_induct) (auto simp: updates_overlap_agree split: option.splits)

subsection \<open>The limits on what a transaction reads\<close>

record ReadDocument =
  read_component :: "bytes list"
  read_table :: bytes
  read_document_size :: nat
  read_virtual :: bool

text \<open>The state after a sequence of reads, whether or not they exceeded a limit.\<close>

definition read_documents :: "ReadLimits \<Rightarrow> ReadDocument list \<Rightarrow> TransactionReadSet" where
  "read_documents limits ds = fold (\<lambda>d trs.
     fst (snd (record_read_document limits trs (read_component d) (read_table d) (read_document_size d) (read_virtual d))))
     ds transaction_read_set_new"

definition counted :: "ReadDocument \<Rightarrow> bool" where
  "counted d \<longleftrightarrow> \<not> table_name_is_system (read_table d) \<or> read_virtual d"

lemma read_documents_sizes:
  "trs_user_tx_size (read_documents limits ds)
     = \<lparr>total_document_size = sum_list (map read_document_size (filter counted ds)),
        total_document_count = length (filter counted ds)\<rparr>"
  "trs_system_tx_size (read_documents limits ds)
     = \<lparr>total_document_size = sum_list (map read_document_size (filter (\<lambda>d. \<not> counted d) ds)),
        total_document_count = length (filter (\<lambda>d. \<not> counted d) ds)\<rparr>"
  by (induction ds rule: rev_induct)
    (auto simp: read_documents_def transaction_read_set_new_def read_size_zero_def record_read_document_def
      Let_def counted_def)

subsection \<open>Properties\<close>

text \<open>
  C2: the read set of a transaction is exact. Whatever sequence of index reads, searches and merges
  built it, checking a document against it never fails, and it reports a conflict exactly when the
  document's key in an index of its table lies in a range that was recorded for that index, or the
  document matches the terms and filters recorded for a search index of its table.
\<close>

theorem recorded_reads_exact:
  assumes "recorded trs h" and "valid_document doc"
  shows "\<exists>c. overlaps_document sha256 tokenize (trs_read_set trs) doc = Inr c
    \<and> (c \<noteq> None \<longleftrightarrow>
        (\<exists>n p i k. IndexRange n p i \<in> set h \<and> index_table n = tablet_id (pd_id doc)
           \<and> pd_index_key doc p = Inr k \<and> ivl_contains i k)
        \<or> (\<exists>n. searches h n \<noteq> [] \<and> index_table n = tablet_id (pd_id doc)
             \<and> search_matches sha256 tokenize doc (concat (map fst (searches h n))) (concat (map snd (searches h n)))))"
  using overlaps_document_iff [OF representsD(1) [OF recorded_represents [OF assms(1)]] assms(2), of sha256 tokenize]
  unfolding document_hit_iff [OF recorded_represents [OF assms(1)]] range_hit_def .

theorem recorded_reads_exact_witness:
  "\<exists>c. overlaps_document id (\<lambda>s. [s])
      (trs_read_set (record_search transaction_read_set_new (by_id [7]) (query_reads_new [] [])))
      \<lparr>pd_value = object_empty, pd_id = \<lparr>tablet_id = [7], developer_id = \<lparr>dev_table = 1, dev_internal_id = replicate 16 3\<rparr>\<rparr>\<rparr> = Inr c
    \<and> c \<noteq> None"
proof -
  let ?n = "by_id [7] :: TabletIndexName"
  let ?doc = "\<lparr>pd_value = object_empty,
    pd_id = \<lparr>tablet_id = [7], developer_id = \<lparr>dev_table = 1, dev_internal_id = replicate 16 3\<rparr>\<rparr>\<rparr>"
  have doc: "valid_document ?doc" by (simp add: valid_document_def)
  have hit: "searches ([] @ [TextSearch ?n [] []]) ?n \<noteq> [] \<and> index_table ?n = tablet_id (pd_id ?doc)
      \<and> search_matches id (\<lambda>s. [s]) ?doc (concat (map fst (searches ([] @ [TextSearch ?n [] []]) ?n)))
           (concat (map snd (searches ([] @ [TextSearch ?n [] []]) ?n)))"
    by (simp add: search_matches_def by_id_def)
  show ?thesis
    using recorded_reads_exact [OF recorded_search [OF recorded_new valid_reserved_names(1) [of "[7]"], of "[]" "[]"] doc,
        of id "\<lambda>s. [s]"] hit by blast
qed

text \<open>
  C20: a transaction that has read any sequence of documents can read one more exactly as long as the
  user documents read stay within the row limit and the byte limit, the new one included; reading a
  document of a system table that is not read through a virtual table never fails and counts towards
  neither limit.
\<close>

theorem read_limits_enforced:
  "fst (record_read_document limits (read_documents limits ds) (read_component d) (read_table d)
      (read_document_size d) (read_virtual d)) =
    (if table_name_is_system (read_table d) \<and> \<not> read_virtual d then Inr ()
     else if length (filter counted (ds @ [d])) > TRANSACTION_MAX_READ_SIZE_ROWS limits
     then Inl (PaginationLimit ''TooManyDocumentsRead'')
     else if sum_list (map read_document_size (filter counted (ds @ [d]))) > TRANSACTION_MAX_READ_SIZE_BYTES limits
     then Inl (PaginationLimit ''TooManyBytesRead'')
     else Inr ())"
  by (simp add: record_read_document_def Let_def read_documents_sizes counted_def)

text \<open>
  C27: merging the reads of two searches of the same index makes their filter conditions a
  conjunction. A document that conflicts with a search on the value of one of its fields no longer
  conflicts once the transaction has searched the same index for any other value of that field, in
  whatever order the searches are recorded.
\<close>

theorem merged_searches_lose_conflict:
  assumes "valid_document doc" and "valid_index_name n" and "index_table n = tablet_id (pd_id doc)"
    and "from_search_value sha256 (get_path (pd_value doc) path) = Inr v" and "v \<noteq> w"
  shows "(\<exists>c. overlaps_document sha256 tokenize
       (trs_read_set (record_search transaction_read_set_new n (query_reads_new [] [Must path v]))) doc = Inr (Some c))
    \<and> overlaps_document sha256 tokenize (trs_read_set (record_search
        (record_search transaction_read_set_new n (query_reads_new [] [Must path v])) n (query_reads_new [] [Must path w]))) doc
      = Inr None
    \<and> overlaps_document sha256 tokenize (trs_read_set (record_search
        (record_search transaction_read_set_new n (query_reads_new [] [Must path w])) n (query_reads_new [] [Must path v]))) doc
      = Inr None"
proof -
  let ?one = "record_search transaction_read_set_new n (query_reads_new [] [Must path v])"
  have one: "represents (trs_read_set ?one) [TextSearch n [] [Must path v]]"
    using recorded_represents [OF recorded_search [OF recorded_new assms(2)]] by fastforce
  have "document_hit sha256 tokenize (trs_read_set ?one) doc"
    unfolding document_hit_iff [OF one] using assms(3,4)
    by (intro disjI2 exI [of _ n]) (simp add: search_matches_def)
  then have "\<exists>c. overlaps_document sha256 tokenize (trs_read_set ?one) doc = Inr (Some c)"
    using overlaps_document_iff [OF representsD(1) [OF one] assms(1), of sha256 tokenize] by auto
  moreover have "\<not> search_matches sha256 tokenize doc [] [Must path v, Must path w]"
    "\<not> search_matches sha256 tokenize doc [] [Must path w, Must path v]"
    using assms(4,5) by (auto simp: search_matches_def)
  ultimately show ?thesis using second_search_hides [OF assms(1,2)] by blast
qed

theorem merged_searches_lose_conflict_witness:
  "\<exists>v. (\<exists>c. overlaps_document id (\<lambda>s. [s])
       (trs_read_set (record_search transaction_read_set_new (by_id [7]) (query_reads_new [] [Must [] v])))
       \<lparr>pd_value = object_empty, pd_id = \<lparr>tablet_id = [7], developer_id = \<lparr>dev_table = 1, dev_internal_id = replicate 16 3\<rparr>\<rparr>\<rparr>
       = Inr (Some c))
    \<and> overlaps_document id (\<lambda>s. [s]) (trs_read_set (record_search (record_search transaction_read_set_new (by_id [7])
         (query_reads_new [] [Must [] v])) (by_id [7]) (query_reads_new [] [Must [] (v @ [1])])))
       \<lparr>pd_value = object_empty, pd_id = \<lparr>tablet_id = [7], developer_id = \<lparr>dev_table = 1, dev_internal_id = replicate 16 3\<rparr>\<rparr>\<rparr>
       = Inr None"
proof -
  let ?doc = "\<lparr>pd_value = object_empty,
    pd_id = \<lparr>tablet_id = [7], developer_id = \<lparr>dev_table = 1, dev_internal_id = replicate 16 3\<rparr>\<rparr>\<rparr>"
  obtain v where "from_search_value id (get_path (pd_value ?doc) []) = Inr v" using from_search_value_total by blast
  from merged_searches_lose_conflict [OF _ valid_reserved_names(1) [of "[7]"] _ this, of "v @ [1]" "\<lambda>s. [s]"]
  show ?thesis by (auto simp: valid_document_def by_id_def)
qed

text \<open>\<^verbatim>\<open>num_intervals\<close> is not the sum of the sizes of the interval sets: derived reads are not counted.\<close>

lemma derived_reads_not_counted:
  "\<exists>trs. record_indexed_derived None transaction_read_set_new (by_id []) [] ivl_all = Inr trs
    \<and> trs_num_intervals trs = 0
    \<and> sum_list (map (\<lambda>(_, r). iset_len (ir_intervals r)) (rs_indexed (trs_read_set trs))) = 1"
proof -
  have "iset_add iset_new ivl_all = Inr AllKeys" by code_simp
  then show ?thesis
    by (simp add: record_indexed_derived_def record_indexed_def transaction_read_set_new_def read_set_empty_def
        entry_or_def bt_insert_def)
qed

end
