(* ===== verification/Index_Config.thy ===== *)
theory Index_Config
  imports Document_Keys Timestamps
begin

text \<open>
  The metadata of indexes (\<^verbatim>\<open>src/crates/common/src/bootstrap_model/index\<close>): what an index is over (its
  spec), how far it is built (its state), and the operations on both. A set of field paths
  (\<^verbatim>\<open>BTreeSet\<close>) is its sorted list.
\<close>

subsection \<open>Database indexes\<close>

type_synonym ObjectKey = bytes
type_synonym IndexedFields = "field_path list"

record DatabaseIndexBackfillState =
  index_created_lower_bound :: Timestamp
  retention_started :: bool
  db_staged :: bool

datatype DatabaseIndexState = Backfilling DatabaseIndexBackfillState | Backfilled bool | Enabled

fun db_is_staged :: "DatabaseIndexState \<Rightarrow> bool" where
  "db_is_staged (Backfilling st) = db_staged st"
| "db_is_staged (Backfilled staged) = staged"
| "db_is_staged Enabled = False"

fun db_set_staged :: "bool \<Rightarrow> DatabaseIndexState \<Rightarrow> DatabaseIndexState" where
  "db_set_staged new (Backfilling st) = Backfilling (st\<lparr>db_staged := new\<rparr>)"
| "db_set_staged new (Backfilled _) = Backfilled new"
| "db_set_staged new Enabled = Enabled"

datatype DatabaseIndexSpec = DatabaseIndexSpec (db_fields: IndexedFields)

definition MAX_INDEX_FIELDS_SIZE :: nat where
  "MAX_INDEX_FIELDS_SIZE = 16"

definition ID_FIELD_PATH :: field_path where
  "ID_FIELD_PATH = [ascii ''_id'']"

definition CREATION_TIME_FIELD :: field_name where
  "CREATION_TIME_FIELD = ascii ''_creationTime''"

definition fields_by_id :: IndexedFields where
  "fields_by_id = []"

definition fields_creation_time :: IndexedFields where
  "fields_creation_time = [[CREATION_TIME_FIELD]]"

definition fields_iter_with_id :: "IndexedFields \<Rightarrow> field_path list" where
  "fields_iter_with_id paths = paths @ [ID_FIELD_PATH]"

fun first_duplicate :: "field_path list \<Rightarrow> field_path list \<Rightarrow> field_path option" where
  "first_duplicate seen [] = None"
| "first_duplicate seen (p # ps) = (if p \<in> set seen then Some p else first_duplicate (p # seen) ps)"

definition indexed_fields_try_from :: "field_path list \<Rightarrow> error + IndexedFields" where
  "indexed_fields_try_from paths =
     (if length paths > MAX_INDEX_FIELDS_SIZE then Inl (BadRequest ''IndexTooManyFields'')
      else if ID_FIELD_PATH \<in> set paths then Inl (BadRequest ''IndexFieldsContainId'')
      else if first_duplicate [] paths \<noteq> None then Inl (BadRequest ''FieldsNotUniqueWithinIndex'')
      else Inr paths)"

subsection \<open>Text indexes\<close>

record FragmentedTextSegment =
  fts_segment_key :: ObjectKey
  fts_id_tracker_key :: ObjectKey
  fts_deleted_terms_table_key :: ObjectKey
  fts_alive_bitset_key :: ObjectKey
  fts_num_indexed_documents :: "64 word"
  fts_num_deleted_documents :: "64 word"
  fts_size_bytes_total :: "64 word"
  fts_id :: bytes

record TextBackfillCursor =
  tbc_cursor :: "bytes option"
  tbc_backfill_snapshot_ts :: "Timestamp option"
  tbc_last_segment_ts :: "Timestamp option"

record TextIndexBackfillState =
  tib_segments :: "FragmentedTextSegment list"
  tib_cursor :: "TextBackfillCursor option"
  tib_staged :: bool

definition text_backfill_state_new :: "bool \<Rightarrow> TextIndexBackfillState" where
  "text_backfill_state_new staged = \<lparr>tib_segments = [], tib_cursor = None, tib_staged = staged\<rparr>"

datatype TextIndexSnapshotData = TextMultiSegment "FragmentedTextSegment list" | TextUnknown ConvexObject

datatype TextSnapshotVersion = V0 | V1MissingAsUndefined | V2UseStringIds

fun version_to_code :: "TextSnapshotVersion \<Rightarrow> int" where
  "version_to_code V0 = 0"
| "version_to_code V1MissingAsUndefined = 1"
| "version_to_code V2UseStringIds = 2"

definition version_from_code :: "int \<Rightarrow> error + TextSnapshotVersion" where
  "version_from_code code = (if code = 0 then Inr V0 else if code = 1 then Inr V1MissingAsUndefined
     else if code = 2 then Inr V2UseStringIds else Inl (Bail ''unrecognized search snapshot version''))"

record TextIndexSnapshot =
  tis_data :: TextIndexSnapshotData
  tis_ts :: Timestamp
  tis_version :: TextSnapshotVersion

datatype TextIndexState =
    TextBackfilling TextIndexBackfillState
  | TextBackfilled TextIndexSnapshot bool
  | TextSnapshottedAt TextIndexSnapshot

fun text_is_staged :: "TextIndexState \<Rightarrow> bool" where
  "text_is_staged (TextBackfilling st) = tib_staged st"
| "text_is_staged (TextBackfilled _ staged) = staged"
| "text_is_staged (TextSnapshottedAt _) = False"

fun text_set_staged :: "bool \<Rightarrow> TextIndexState \<Rightarrow> TextIndexState" where
  "text_set_staged new (TextBackfilling st) = TextBackfilling (st\<lparr>tib_staged := new\<rparr>)"
| "text_set_staged new (TextBackfilled snapshot _) = TextBackfilled snapshot new"
| "text_set_staged new (TextSnapshottedAt snapshot) = TextSnapshottedAt snapshot"

record TextIndexSpec =
  text_search_field :: field_path
  text_filter_fields :: "field_path list"

subsection \<open>Vector indexes\<close>

type_synonym VectorDimensions = "32 word"

definition MIN_VECTOR_DIMENSIONS :: "32 word" where
  "MIN_VECTOR_DIMENSIONS = 2"

definition MAX_VECTOR_DIMENSIONS :: "32 word" where
  "MAX_VECTOR_DIMENSIONS = 4096"

definition dimensions_try_from :: "32 word \<Rightarrow> error + VectorDimensions" where
  "dimensions_try_from v = (if MIN_VECTOR_DIMENSIONS \<le> v \<and> v \<le> MAX_VECTOR_DIMENSIONS then Inr v
     else Inl (BadRequest ''InvalidVectorDimensionError''))"

record FragmentedVectorSegment =
  fvs_segment_key :: ObjectKey
  fvs_id_tracker_key :: ObjectKey
  fvs_deleted_bitset_key :: ObjectKey
  fvs_num_vectors :: "32 word"
  fvs_num_deleted :: "32 word"
  fvs_id :: bytes

definition checked_mul :: "64 word \<Rightarrow> 64 word \<Rightarrow> 64 word option" where
  "checked_mul a b = (if unat a * unat b < 2 ^ 64 then Some (a * b) else None)"

definition non_deleted_vectors :: "FragmentedVectorSegment \<Rightarrow> error + 64 word" where
  "non_deleted_vectors s =
     (if fvs_num_vectors s < fvs_num_deleted s then Inr 0 else Inr (ucast (fvs_num_vectors s - fvs_num_deleted s)))"

definition vector_size_bytes :: "64 word \<Rightarrow> VectorDimensions \<Rightarrow> error + 64 word" where
  "vector_size_bytes estimated_vectors dimensions =
     (case Option.bind (checked_mul estimated_vectors (ucast dimensions)) (\<lambda>v. checked_mul v 4) of
        None \<Rightarrow> Inl (Bail ''Overflowed size calculation!'') | Some n \<Rightarrow> Inr n)"

definition non_deleted_size_bytes :: "VectorDimensions \<Rightarrow> FragmentedVectorSegment \<Rightarrow> error + 64 word" where
  "non_deleted_size_bytes dimensions s = and_then (non_deleted_vectors s) (\<lambda>n. vector_size_bytes n dimensions)"

definition total_size_bytes :: "VectorDimensions \<Rightarrow> FragmentedVectorSegment \<Rightarrow> error + 64 word" where
  "total_size_bytes dimensions s = vector_size_bytes (ucast (fvs_num_vectors s)) dimensions"

record VectorIndexBackfillState =
  vib_segments :: "FragmentedVectorSegment list"
  vib_cursor :: "bytes option"
  vib_backfill_snapshot_ts :: "Timestamp option"
  vib_staged :: bool
  vib_last_segment_ts :: "Timestamp option"

definition vector_backfill_state_new :: "bool \<Rightarrow> VectorIndexBackfillState" where
  "vector_backfill_state_new staged = \<lparr>vib_segments = [], vib_cursor = None, vib_backfill_snapshot_ts = None,
     vib_staged = staged, vib_last_segment_ts = None\<rparr>"

datatype VectorIndexSnapshotData = VectorMultiSegment "FragmentedVectorSegment list" | VectorUnknown ConvexObject

record VectorIndexSnapshot =
  vis_data :: VectorIndexSnapshotData
  vis_ts :: Timestamp

datatype VectorIndexState =
    VectorBackfilling VectorIndexBackfillState
  | VectorBackfilled VectorIndexSnapshot bool
  | VectorSnapshottedAt VectorIndexSnapshot

fun vector_is_staged :: "VectorIndexState \<Rightarrow> bool" where
  "vector_is_staged (VectorBackfilling st) = vib_staged st"
| "vector_is_staged (VectorBackfilled _ staged) = staged"
| "vector_is_staged (VectorSnapshottedAt _) = False"

fun vector_set_staged :: "bool \<Rightarrow> VectorIndexState \<Rightarrow> VectorIndexState" where
  "vector_set_staged new (VectorBackfilling st) = VectorBackfilling (st\<lparr>vib_staged := new\<rparr>)"
| "vector_set_staged new (VectorBackfilled snapshot _) = VectorBackfilled snapshot new"
| "vector_set_staged new (VectorSnapshottedAt snapshot) = VectorSnapshottedAt snapshot"

definition snapshot_segments :: "VectorIndexSnapshot \<Rightarrow> error + FragmentedVectorSegment list" where
  "snapshot_segments snapshot = (case vis_data snapshot of
     VectorMultiSegment segments \<Rightarrow> Inr segments | VectorUnknown _ \<Rightarrow> Inl (Bail ''Unknown snapshot data!''))"

fun vector_segments :: "VectorIndexState \<Rightarrow> error + FragmentedVectorSegment list" where
  "vector_segments (VectorBackfilling st) = Inr (vib_segments st)"
| "vector_segments (VectorBackfilled snapshot _) = snapshot_segments snapshot"
| "vector_segments (VectorSnapshottedAt snapshot) = snapshot_segments snapshot"

record VectorIndexSpec =
  vector_dimensions :: VectorDimensions
  vector_field :: field_path
  vector_filter_fields :: "field_path list"

subsection \<open>Configurations\<close>

datatype IndexConfig =
    Database DatabaseIndexSpec DatabaseIndexState
  | Text TextIndexSpec TextIndexState
  | Vector VectorIndexSpec VectorIndexState

fun is_staged :: "IndexConfig \<Rightarrow> bool" where
  "is_staged (Database _ st) = db_is_staged st"
| "is_staged (Text _ st) = text_is_staged st"
| "is_staged (Vector _ st) = vector_is_staged st"

fun set_staged :: "bool \<Rightarrow> IndexConfig \<Rightarrow> IndexConfig" where
  "set_staged new (Database spec st) = Database spec (db_set_staged new st)"
| "set_staged new (Text spec st) = Text spec (text_set_staged new st)"
| "set_staged new (Vector spec st) = Vector spec (vector_set_staged new st)"

fun is_enabled :: "IndexConfig \<Rightarrow> bool" where
  "is_enabled (Database _ Enabled) = True"
| "is_enabled (Text _ (TextSnapshottedAt _)) = True"
| "is_enabled (Vector _ (VectorSnapshottedAt _)) = True"
| "is_enabled _ = False"

fun is_backfilling :: "IndexConfig \<Rightarrow> bool" where
  "is_backfilling (Database _ (Backfilling _)) = True"
| "is_backfilling (Text _ (TextBackfilling _)) = True"
| "is_backfilling (Vector _ (VectorBackfilling _)) = True"
| "is_backfilling _ = False"

fun is_backfilled :: "IndexConfig \<Rightarrow> bool" where
  "is_backfilled (Database _ (Backfilled _)) = True"
| "is_backfilled (Text _ (TextBackfilled _ _)) = True"
| "is_backfilled (Vector _ (VectorBackfilled _ _)) = True"
| "is_backfilled _ = False"

fun same_spec :: "IndexConfig \<Rightarrow> IndexConfig \<Rightarrow> bool" where
  "same_spec (Database spec _) (Database spec' _) = (spec = spec')"
| "same_spec (Text spec _) (Text spec' _) = (spec = spec')"
| "same_spec (Vector spec _) (Vector spec' _) = (spec = spec')"
| "same_spec _ _ = False"

text \<open>Summing results: the first error ends the sum, an overflow of the sum panics.\<close>

fun sum_results :: "64 word \<Rightarrow> (error + 64 word) list \<Rightarrow> error + 64 word" where
  "sum_results acc [] = Inr acc"
| "sum_results acc (r # rs) = and_then r (\<lambda>n.
     if unat acc + unat n < 2 ^ 64 then sum_results (acc + n) rs else Inl (Panic ''attempt to add with overflow''))"

fun estimate_pricing_size_bytes :: "IndexConfig \<Rightarrow> error + 64 word" where
  "estimate_pricing_size_bytes (Database _ _) = Inl (Bail ''Not supported for database indexes!'')"
| "estimate_pricing_size_bytes (Text _ (TextSnapshottedAt snapshot)) = (case tis_data snapshot of
     TextMultiSegment segments \<Rightarrow> sum_results 0 (map (Inr \<circ> fts_size_bytes_total) segments)
   | TextUnknown _ \<Rightarrow> Inr 0)"
| "estimate_pricing_size_bytes (Text _ _) = Inr 0"
| "estimate_pricing_size_bytes (Vector spec (VectorSnapshottedAt snapshot)) = (case vis_data snapshot of
     VectorMultiSegment segments \<Rightarrow> sum_results 0 (map (non_deleted_size_bytes (vector_dimensions spec)) segments)
   | VectorUnknown _ \<Rightarrow> Inr 0)"
| "estimate_pricing_size_bytes (Vector _ _) = Inr 0"

subsection \<open>Metadata\<close>

datatype 't IndexMetadata = IndexMetadata (index_name: "'t GenericIndexName") (config: IndexConfig)

type_synonym TabletIndexMetadata = "tablet_id IndexMetadata"

definition new_backfilling_with ::
  "Timestamp \<Rightarrow> 't GenericIndexName \<Rightarrow> IndexedFields \<Rightarrow> bool \<Rightarrow> 't IndexMetadata" where
  "new_backfilling_with lower_bound name paths staged =
     IndexMetadata name (Database (DatabaseIndexSpec paths) (Backfilling
       \<lparr>index_created_lower_bound = lower_bound, retention_started = False, db_staged = staged\<rparr>))"

definition new_backfilling :: "Timestamp \<Rightarrow> 't GenericIndexName \<Rightarrow> IndexedFields \<Rightarrow> 't IndexMetadata" where
  "new_backfilling lower_bound name paths = new_backfilling_with lower_bound name paths False"

definition new_staged_backfilling :: "Timestamp \<Rightarrow> 't GenericIndexName \<Rightarrow> IndexedFields \<Rightarrow> 't IndexMetadata" where
  "new_staged_backfilling lower_bound name paths = new_backfilling_with lower_bound name paths True"

definition new_text_index :: "'t GenericIndexName \<Rightarrow> TextIndexSpec \<Rightarrow> TextIndexState \<Rightarrow> 't IndexMetadata" where
  "new_text_index name spec st = IndexMetadata name (Text spec st)"

definition new_backfilling_text_index :: "'t GenericIndexName \<Rightarrow> field_path \<Rightarrow> field_path list \<Rightarrow> 't IndexMetadata" where
  "new_backfilling_text_index name search filters =
     new_text_index name \<lparr>text_search_field = search, text_filter_fields = filters\<rparr>
       (TextBackfilling (text_backfill_state_new False))"

definition new_staged_backfilling_text_index ::
  "'t GenericIndexName \<Rightarrow> field_path \<Rightarrow> field_path list \<Rightarrow> 't IndexMetadata" where
  "new_staged_backfilling_text_index name search filters =
     new_text_index name \<lparr>text_search_field = search, text_filter_fields = filters\<rparr>
       (TextBackfilling (text_backfill_state_new True))"

definition new_backfilling_vector_index ::
  "'t GenericIndexName \<Rightarrow> field_path \<Rightarrow> VectorDimensions \<Rightarrow> field_path list \<Rightarrow> 't IndexMetadata" where
  "new_backfilling_vector_index name path dimensions filters = IndexMetadata name
     (Vector \<lparr>vector_dimensions = dimensions, vector_field = path, vector_filter_fields = filters\<rparr>
       (VectorBackfilling (vector_backfill_state_new False)))"

definition new_staged_backfilling_vector_index ::
  "'t GenericIndexName \<Rightarrow> field_path \<Rightarrow> VectorDimensions \<Rightarrow> field_path list \<Rightarrow> 't IndexMetadata" where
  "new_staged_backfilling_vector_index name path dimensions filters = IndexMetadata name
     (Vector \<lparr>vector_dimensions = dimensions, vector_field = path, vector_filter_fields = filters\<rparr>
       (VectorBackfilling (vector_backfill_state_new True)))"

definition new_enabled :: "'t GenericIndexName \<Rightarrow> IndexedFields \<Rightarrow> 't IndexMetadata" where
  "new_enabled name paths = IndexMetadata name (Database (DatabaseIndexSpec paths) Enabled)"

fun is_database_index :: "'t IndexMetadata \<Rightarrow> bool" where
  "is_database_index (IndexMetadata _ (Database _ _)) = True"
| "is_database_index (IndexMetadata _ _) = False"

fun is_text_index :: "'t IndexMetadata \<Rightarrow> bool" where
  "is_text_index (IndexMetadata _ (Text _ _)) = True"
| "is_text_index (IndexMetadata _ _) = False"

fun is_vector_index :: "'t IndexMetadata \<Rightarrow> bool" where
  "is_vector_index (IndexMetadata _ (Vector _ _)) = True"
| "is_vector_index (IndexMetadata _ _) = False"

definition metadata_map_table :: "('t \<Rightarrow> 'e + 'u) \<Rightarrow> 't IndexMetadata \<Rightarrow> 'e + 'u IndexMetadata" where
  "metadata_map_table f m = (case map_table f (index_name m) of Inl e \<Rightarrow> Inl e | Inr n \<Rightarrow> Inr (IndexMetadata n (config m)))"

subsection \<open>Lemmas\<close>

lemma first_duplicate_None: "first_duplicate seen ps = None \<longleftrightarrow> distinct ps \<and> set ps \<inter> set seen = {}"
  by (induction ps arbitrary: seen) auto

lemma indexed_fields_try_from_iff:
  "indexed_fields_try_from paths = Inr paths' \<longleftrightarrow>
    paths' = paths \<and> length paths \<le> 16 \<and> ID_FIELD_PATH \<notin> set paths \<and> distinct paths"
  by (auto simp: indexed_fields_try_from_def first_duplicate_None MAX_INDEX_FIELDS_SIZE_def)

lemma config_states: "is_enabled c \<or> is_backfilling c \<or> is_backfilled c"
  "\<not> (is_enabled c \<and> is_backfilling c)" "\<not> (is_enabled c \<and> is_backfilled c)" "\<not> (is_backfilling c \<and> is_backfilled c)"
  by (cases c rule: is_enabled.cases; simp)+

lemma enabled_not_staged: "is_enabled c \<Longrightarrow> \<not> is_staged c"
  by (cases c rule: is_enabled.cases) auto

lemma set_staged_correct [simp]:
  "is_staged (set_staged b c) \<longleftrightarrow> b \<and> \<not> is_enabled c" "is_enabled (set_staged b c) = is_enabled c"
  "is_backfilling (set_staged b c) = is_backfilling c" "is_backfilled (set_staged b c) = is_backfilled c"
  "same_spec c (set_staged b c)"
  by (cases c rule: is_enabled.cases; simp)+

lemma same_spec_equiv: "same_spec c c" "same_spec c d \<Longrightarrow> same_spec d c"
  "same_spec c d \<Longrightarrow> same_spec d e \<Longrightarrow> same_spec c e"
  by (cases c; cases d; cases e; simp)+

text \<open>The size of a vector segment never overflows: the estimate is exact.\<close>

lemma unat_le_MAX_dimensions: "dimensions_try_from d = Inr d' \<Longrightarrow> unat d' \<le> 4096"
  by (auto simp: dimensions_try_from_def MAX_VECTOR_DIMENSIONS_def word_le_nat_alt split: if_splits)

lemma unat_ucast_dimensions: "unat (ucast (d :: 32 word) :: 64 word) = unat d"
  using unsigned_less [of d, where ?'a = nat] by (simp add: unsigned_ucast_eq take_bit_nat_eq_self)

lemma vector_size_bytes_exact:
  assumes "unat n < 2 ^ 32" "unat d \<le> 4096"
  shows "vector_size_bytes n d = Inr (n * ucast d * 4) \<and> unat (n * ucast d * 4) = 4 * unat d * unat n"
proof -
  have le: "unat n * unat d < 2 ^ 32 * 4097"
    using assms by (intro mult_strict_mono) auto
  have one: "unat n * unat (ucast d :: 64 word) < 2 ^ 64" and two: "unat n * unat d * 4 < 2 ^ 64"
    using le by (simp_all add: unat_ucast_dimensions)
  have m: "unat (n * ucast d) = unat n * unat d"
    using one by (simp add: unat_word_ariths unat_ucast_dimensions)
  have "unat (n * ucast d * 4) = 4 * unat d * unat n"
    using two by (simp add: unat_word_ariths m unat_ucast_dimensions mult.commute)
  with one two show ?thesis by (simp add: vector_size_bytes_def checked_mul_def m)
qed

end
