(* ===== verification/Index_Serde.thy ===== *)
theory Index_Serde
  imports Index_Config
begin

text \<open>
  How index metadata is stored in the documents of the \<^verbatim>\<open>_index\<close> table: the conversions between the
  in-memory types of \<^verbatim>\<open>Index_Config\<close> and the serialized structs next to them in
  \<^verbatim>\<open>src/crates/common/src/bootstrap_model/index\<close>. The step from a serialized struct to a document
  is code that serde generates over \<^verbatim>\<open>src/crates/value/src/serde\<close> and left out; it has conditions of its
  own: counts from 2^63 on are refused, and unknown snapshot data that has the form of known data is
  read as known. Printing and parsing an internal id goes through a base 64
  library; the two functions are arguments.
\<close>

subsection \<open>Conversions that fail\<close>

definition try_option :: "('a \<Rightarrow> 'e + 'b) \<Rightarrow> 'a option \<Rightarrow> 'e + 'b option" where
  "try_option f x = (case x of None \<Rightarrow> Inr None | Some a \<Rightarrow> and_then (f a) (\<lambda>b. Inr (Some b)))"

definition btree_set_of :: "'a::linorder list \<Rightarrow> 'a list" where
  "btree_set_of xs = remdups (sort xs)"

definition i64_to_u32 :: "int \<Rightarrow> error + 32 word" where
  "i64_to_u32 v = (if 0 \<le> v \<and> v < 2 ^ 32 then Inr (of_int v)
     else Inl (Bail ''out of range integral type conversion attempted''))"

text \<open>The characters of object keys, the regular expression \<^verbatim>\<open>^[a-zA-Z0-9-_./]+$\<close>.\<close>

definition object_key_char :: "byte \<Rightarrow> bool" where
  "object_key_char c \<longleftrightarrow> is_ascii_alphanumeric c \<or> c \<in> set (ascii ''-_./'')"

definition object_key_try_from :: "bytes \<Rightarrow> error + ObjectKey" where
  "object_key_try_from s = (if s \<noteq> [] \<and> list_all object_key_char s then Inr s
     else Inl (Bail ''Condition failed: OBJECT_KEY_REGEX.is_match(&s)''))"

subsection \<open>Database indexes\<close>

record SerializedDatabaseIndexBackfillState =
  s_index_created_lower_bound :: "int option"
  s_retention_started :: "bool option"
  s_db_staged :: "bool option"

definition db_backfill_serialize :: "DatabaseIndexBackfillState \<Rightarrow> error + SerializedDatabaseIndexBackfillState" where
  "db_backfill_serialize st = Inr \<lparr>s_index_created_lower_bound = Some (ts_to_i64 (index_created_lower_bound st)),
     s_retention_started = Some (retention_started st), s_db_staged = Some (db_staged st)\<rparr>"

definition db_backfill_deserialize :: "SerializedDatabaseIndexBackfillState \<Rightarrow> error + DatabaseIndexBackfillState" where
  "db_backfill_deserialize s = and_then (try_option ts_try_from_i64 (s_index_created_lower_bound s)) (\<lambda>ts.
     Inr \<lparr>index_created_lower_bound = (case ts of None \<Rightarrow> ts_MIN | Some t \<Rightarrow> t),
          retention_started = (s_retention_started s = Some True), db_staged = (s_db_staged s = Some True)\<rparr>)"

datatype SerializedDatabaseIndexState =
    SBackfilling SerializedDatabaseIndexBackfillState
  | SBackfilled2 "bool option"
  | SEnabled
  | SDisabled

fun db_state_serialize :: "DatabaseIndexState \<Rightarrow> error + SerializedDatabaseIndexState" where
  "db_state_serialize (Backfilling st) = and_then (db_backfill_serialize st) (\<lambda>s. Inr (SBackfilling s))"
| "db_state_serialize (Backfilled staged) = Inr (SBackfilled2 (Some staged))"
| "db_state_serialize Enabled = Inr SEnabled"

fun db_state_deserialize :: "SerializedDatabaseIndexState \<Rightarrow> error + DatabaseIndexState" where
  "db_state_deserialize (SBackfilling s) = and_then (db_backfill_deserialize s) (\<lambda>st. Inr (Backfilling st))"
| "db_state_deserialize (SBackfilled2 staged) = Inr (Backfilled (staged = Some True))"
| "db_state_deserialize SEnabled = Inr Enabled"
| "db_state_deserialize SDisabled =
     Inr (Backfilling \<lparr>index_created_lower_bound = ts_MIN, retention_started = False, db_staged = False\<rparr>)"

datatype SerializedDatabaseIndexSpec = SerializedDatabaseIndexSpec "bytes list"

fun db_spec_serialize :: "DatabaseIndexSpec \<Rightarrow> SerializedDatabaseIndexSpec" where
  "db_spec_serialize (DatabaseIndexSpec paths) = SerializedDatabaseIndexSpec (map field_path_to_string paths)"

fun db_spec_deserialize :: "SerializedDatabaseIndexSpec \<Rightarrow> error + DatabaseIndexSpec" where
  "db_spec_deserialize (SerializedDatabaseIndexSpec ps) =
     and_then (and_then (try_map field_path_from_str ps) indexed_fields_try_from) (\<lambda>paths. Inr (DatabaseIndexSpec paths))"

subsection \<open>Text indexes\<close>

record SerializedFragmentedTextSegment =
  s_fts_segment_key :: bytes
  s_fts_id_tracker_key :: bytes
  s_fts_deleted_terms_table_key :: bytes
  s_fts_alive_bitset_key :: bytes
  s_fts_num_indexed_documents :: "64 word"
  s_fts_num_deleted_documents :: "64 word"
  s_fts_size_bytes_total :: "64 word"
  s_fts_id :: bytes

definition text_segment_serialize :: "FragmentedTextSegment \<Rightarrow> error + SerializedFragmentedTextSegment" where
  "text_segment_serialize v = Inr \<lparr>s_fts_segment_key = fts_segment_key v, s_fts_id_tracker_key = fts_id_tracker_key v,
     s_fts_deleted_terms_table_key = fts_deleted_terms_table_key v, s_fts_alive_bitset_key = fts_alive_bitset_key v,
     s_fts_num_indexed_documents = fts_num_indexed_documents v, s_fts_num_deleted_documents = fts_num_deleted_documents v,
     s_fts_size_bytes_total = fts_size_bytes_total v, s_fts_id = fts_id v\<rparr>"

definition text_segment_deserialize :: "SerializedFragmentedTextSegment \<Rightarrow> error + FragmentedTextSegment" where
  "text_segment_deserialize v =
     and_then (object_key_try_from (s_fts_segment_key v)) (\<lambda>segment.
     and_then (object_key_try_from (s_fts_id_tracker_key v)) (\<lambda>tracker.
     and_then (object_key_try_from (s_fts_deleted_terms_table_key v)) (\<lambda>terms.
     and_then (object_key_try_from (s_fts_alive_bitset_key v)) (\<lambda>alive.
     Inr \<lparr>fts_segment_key = segment, fts_id_tracker_key = tracker, fts_deleted_terms_table_key = terms,
          fts_alive_bitset_key = alive, fts_num_indexed_documents = s_fts_num_indexed_documents v,
          fts_num_deleted_documents = s_fts_num_deleted_documents v,
          fts_size_bytes_total = s_fts_size_bytes_total v, fts_id = s_fts_id v\<rparr>))))"

record SerializedTextBackfillCursor =
  s_tbc_document_cursor :: "bytes option"
  s_tbc_backfill_snapshot_ts :: "int option"
  s_tbc_last_segment_ts :: "int option"

definition text_cursor_serialize :: "(bytes \<Rightarrow> bytes) \<Rightarrow> TextBackfillCursor \<Rightarrow> SerializedTextBackfillCursor" where
  "text_cursor_serialize print_id c = \<lparr>s_tbc_document_cursor = map_option print_id (tbc_cursor c),
     s_tbc_backfill_snapshot_ts = map_option ts_to_i64 (tbc_backfill_snapshot_ts c),
     s_tbc_last_segment_ts = map_option ts_to_i64 (tbc_last_segment_ts c)\<rparr>"

definition text_cursor_deserialize ::
  "(bytes \<Rightarrow> error + bytes) \<Rightarrow> SerializedTextBackfillCursor \<Rightarrow> error + TextBackfillCursor" where
  "text_cursor_deserialize parse_id s =
     and_then (try_option parse_id (s_tbc_document_cursor s)) (\<lambda>cursor.
     and_then (try_option ts_try_from_i64 (s_tbc_backfill_snapshot_ts s)) (\<lambda>snapshot_ts.
     and_then (try_option ts_try_from_i64 (s_tbc_last_segment_ts s)) (\<lambda>last_ts.
     Inr \<lparr>tbc_cursor = cursor, tbc_backfill_snapshot_ts = snapshot_ts, tbc_last_segment_ts = last_ts\<rparr>)))"

record SerializedTextIndexBackfillState =
  s_tib_segments :: "SerializedFragmentedTextSegment list option"
  s_tib_cursor :: "SerializedTextBackfillCursor option"
  s_tib_staged :: "bool option"

definition text_backfill_serialize ::
  "(bytes \<Rightarrow> bytes) \<Rightarrow> TextIndexBackfillState \<Rightarrow> error + SerializedTextIndexBackfillState" where
  "text_backfill_serialize print_id st = and_then (try_map text_segment_serialize (tib_segments st)) (\<lambda>segments.
     Inr \<lparr>s_tib_segments = Some segments, s_tib_cursor = map_option (text_cursor_serialize print_id) (tib_cursor st),
          s_tib_staged = Some (tib_staged st)\<rparr>)"

definition text_backfill_deserialize ::
  "(bytes \<Rightarrow> error + bytes) \<Rightarrow> SerializedTextIndexBackfillState \<Rightarrow> error + TextIndexBackfillState" where
  "text_backfill_deserialize parse_id s =
     and_then (try_map text_segment_deserialize (case s_tib_segments s of None \<Rightarrow> [] | Some l \<Rightarrow> l)) (\<lambda>segments.
     and_then (try_option (text_cursor_deserialize parse_id) (s_tib_cursor s)) (\<lambda>cursor.
     Inr \<lparr>tib_segments = segments, tib_cursor = cursor, tib_staged = (s_tib_staged s = Some True)\<rparr>))"

datatype SerializedTextIndexSnapshotData = STextMultiSegment "SerializedFragmentedTextSegment list"

datatype 'a WithUnknown = Known 'a | Unknown ConvexObject

fun text_data_serialize ::
  "TextIndexSnapshotData \<Rightarrow> error + SerializedTextIndexSnapshotData WithUnknown" where
  "text_data_serialize (TextMultiSegment segments) =
     and_then (try_map text_segment_serialize segments) (\<lambda>s. Inr (Known (STextMultiSegment s)))"
| "text_data_serialize (TextUnknown unknown) = Inr (Unknown unknown)"

fun text_data_deserialize ::
  "SerializedTextIndexSnapshotData WithUnknown \<Rightarrow> error + TextIndexSnapshotData" where
  "text_data_deserialize (Known (STextMultiSegment s)) =
     and_then (try_map text_segment_deserialize s) (\<lambda>segments. Inr (TextMultiSegment segments))"
| "text_data_deserialize (Unknown unknown) = Inr (TextUnknown unknown)"

record SerializedTextIndexSnapshot =
  s_tis_data :: "SerializedTextIndexSnapshotData WithUnknown"
  s_tis_ts :: int
  s_tis_version :: int

definition text_snapshot_serialize :: "TextIndexSnapshot \<Rightarrow> error + SerializedTextIndexSnapshot" where
  "text_snapshot_serialize sn = and_then (text_data_serialize (tis_data sn)) (\<lambda>d.
     Inr \<lparr>s_tis_data = d, s_tis_ts = ts_to_i64 (tis_ts sn), s_tis_version = version_to_code (tis_version sn)\<rparr>)"

definition text_snapshot_deserialize :: "SerializedTextIndexSnapshot \<Rightarrow> error + TextIndexSnapshot" where
  "text_snapshot_deserialize s = and_then (text_data_deserialize (s_tis_data s)) (\<lambda>d.
     and_then (ts_try_from_i64 (s_tis_ts s)) (\<lambda>ts.
     and_then (version_from_code (s_tis_version s)) (\<lambda>v. Inr \<lparr>tis_data = d, tis_ts = ts, tis_version = v\<rparr>)))"

datatype SerializedTextIndexState =
    STextBackfilling "bool option"
  | STextBackfilling2 SerializedTextIndexBackfillState
  | STextBackfilled SerializedTextIndexSnapshot
  | STextBackfilled2 SerializedTextIndexSnapshot bool
  | STextSnapshotted SerializedTextIndexSnapshot

fun text_state_serialize :: "(bytes \<Rightarrow> bytes) \<Rightarrow> TextIndexState \<Rightarrow> error + SerializedTextIndexState" where
  "text_state_serialize print_id (TextBackfilling st) =
     (if tib_segments st = [] \<and> tib_cursor st = None then Inr (STextBackfilling (Some (tib_staged st)))
      else and_then (text_backfill_serialize print_id st) (\<lambda>s. Inr (STextBackfilling2 s)))"
| "text_state_serialize print_id (TextBackfilled sn staged) =
     and_then (text_snapshot_serialize sn) (\<lambda>s. Inr (STextBackfilled2 s staged))"
| "text_state_serialize print_id (TextSnapshottedAt sn) =
     and_then (text_snapshot_serialize sn) (\<lambda>s. Inr (STextSnapshotted s))"

fun text_state_deserialize :: "(bytes \<Rightarrow> error + bytes) \<Rightarrow> SerializedTextIndexState \<Rightarrow> error + TextIndexState" where
  "text_state_deserialize parse_id (STextBackfilling staged) =
     Inr (TextBackfilling (text_backfill_state_new (staged = Some True)))"
| "text_state_deserialize parse_id (STextBackfilling2 s) =
     and_then (text_backfill_deserialize parse_id s) (\<lambda>st. Inr (TextBackfilling st))"
| "text_state_deserialize parse_id (STextBackfilled s) =
     and_then (text_snapshot_deserialize s) (\<lambda>sn. Inr (TextBackfilled sn False))"
| "text_state_deserialize parse_id (STextBackfilled2 s staged) =
     and_then (text_snapshot_deserialize s) (\<lambda>sn. Inr (TextBackfilled sn staged))"
| "text_state_deserialize parse_id (STextSnapshotted s) =
     and_then (text_snapshot_deserialize s) (\<lambda>sn. Inr (TextSnapshottedAt sn))"

record SerializedTextIndexSpec =
  s_text_search_field :: bytes
  s_text_filter_fields :: "bytes list"

definition text_spec_serialize :: "TextIndexSpec \<Rightarrow> SerializedTextIndexSpec" where
  "text_spec_serialize spec = \<lparr>s_text_search_field = field_path_to_string (text_search_field spec),
     s_text_filter_fields = map field_path_to_string (text_filter_fields spec)\<rparr>"

definition text_spec_deserialize :: "SerializedTextIndexSpec \<Rightarrow> error + TextIndexSpec" where
  "text_spec_deserialize s = and_then (field_path_from_str (s_text_search_field s)) (\<lambda>search.
     and_then (try_map field_path_from_str (s_text_filter_fields s)) (\<lambda>filters.
     Inr \<lparr>text_search_field = search, text_filter_fields = btree_set_of filters\<rparr>))"

subsection \<open>Vector indexes\<close>

record SerializedFragmentedVectorSegment =
  s_fvs_segment_key :: bytes
  s_fvs_id_tracker_key :: bytes
  s_fvs_deleted_bitset_key :: bytes
  s_fvs_num_vectors :: int
  s_fvs_num_deleted :: int
  s_fvs_id :: bytes

definition vector_segment_serialize :: "FragmentedVectorSegment \<Rightarrow> error + SerializedFragmentedVectorSegment" where
  "vector_segment_serialize v = Inr \<lparr>s_fvs_segment_key = fvs_segment_key v, s_fvs_id_tracker_key = fvs_id_tracker_key v,
     s_fvs_deleted_bitset_key = fvs_deleted_bitset_key v, s_fvs_num_vectors = uint (fvs_num_vectors v),
     s_fvs_num_deleted = uint (fvs_num_deleted v), s_fvs_id = fvs_id v\<rparr>"

definition vector_segment_deserialize :: "SerializedFragmentedVectorSegment \<Rightarrow> error + FragmentedVectorSegment" where
  "vector_segment_deserialize v =
     and_then (object_key_try_from (s_fvs_segment_key v)) (\<lambda>segment.
     and_then (object_key_try_from (s_fvs_id_tracker_key v)) (\<lambda>tracker.
     and_then (object_key_try_from (s_fvs_deleted_bitset_key v)) (\<lambda>bitset.
     and_then (i64_to_u32 (s_fvs_num_vectors v)) (\<lambda>vectors.
     and_then (i64_to_u32 (s_fvs_num_deleted v)) (\<lambda>deleted.
     Inr \<lparr>fvs_segment_key = segment, fvs_id_tracker_key = tracker, fvs_deleted_bitset_key = bitset,
          fvs_num_vectors = vectors, fvs_num_deleted = deleted, fvs_id = s_fvs_id v\<rparr>)))))"

record SerializedVectorIndexBackfillState =
  s_vib_segments :: "SerializedFragmentedVectorSegment list option"
  s_vib_document_cursor :: "bytes option"
  s_vib_backfill_snapshot_ts :: "int option"
  s_vib_staged :: "bool option"
  s_vib_last_segment_ts :: "int option"

definition vector_backfill_serialize ::
  "(bytes \<Rightarrow> bytes) \<Rightarrow> VectorIndexBackfillState \<Rightarrow> error + SerializedVectorIndexBackfillState" where
  "vector_backfill_serialize print_id st = and_then (try_map vector_segment_serialize (vib_segments st)) (\<lambda>segments.
     Inr \<lparr>s_vib_segments = Some segments, s_vib_document_cursor = map_option print_id (vib_cursor st),
          s_vib_backfill_snapshot_ts = map_option ts_to_i64 (vib_backfill_snapshot_ts st),
          s_vib_staged = Some (vib_staged st),
          s_vib_last_segment_ts = map_option ts_to_i64 (vib_last_segment_ts st)\<rparr>)"

definition vector_backfill_deserialize ::
  "(bytes \<Rightarrow> error + bytes) \<Rightarrow> SerializedVectorIndexBackfillState \<Rightarrow> error + VectorIndexBackfillState" where
  "vector_backfill_deserialize parse_id s =
     and_then (try_map vector_segment_deserialize (case s_vib_segments s of None \<Rightarrow> [] | Some l \<Rightarrow> l)) (\<lambda>segments.
     and_then (try_option parse_id (s_vib_document_cursor s)) (\<lambda>cursor.
     and_then (try_option ts_try_from_i64 (s_vib_backfill_snapshot_ts s)) (\<lambda>snapshot_ts.
     and_then (try_option ts_try_from_i64 (s_vib_last_segment_ts s)) (\<lambda>last_ts.
     Inr \<lparr>vib_segments = segments, vib_cursor = cursor, vib_backfill_snapshot_ts = snapshot_ts,
          vib_staged = (s_vib_staged s = Some True), vib_last_segment_ts = last_ts\<rparr>))))"

datatype SerializedVectorIndexSnapshotData = SVectorMultiSegment "SerializedFragmentedVectorSegment list"

fun vector_data_serialize ::
  "VectorIndexSnapshotData \<Rightarrow> error + SerializedVectorIndexSnapshotData WithUnknown" where
  "vector_data_serialize (VectorMultiSegment segments) =
     and_then (try_map vector_segment_serialize segments) (\<lambda>s. Inr (Known (SVectorMultiSegment s)))"
| "vector_data_serialize (VectorUnknown unknown) = Inr (Unknown unknown)"

fun vector_data_deserialize ::
  "SerializedVectorIndexSnapshotData WithUnknown \<Rightarrow> error + VectorIndexSnapshotData" where
  "vector_data_deserialize (Known (SVectorMultiSegment s)) =
     and_then (try_map vector_segment_deserialize s) (\<lambda>segments. Inr (VectorMultiSegment segments))"
| "vector_data_deserialize (Unknown unknown) = Inr (VectorUnknown unknown)"

record SerializedVectorIndexSnapshot =
  s_vis_data :: "SerializedVectorIndexSnapshotData WithUnknown"
  s_vis_ts :: int

definition vector_snapshot_serialize :: "VectorIndexSnapshot \<Rightarrow> error + SerializedVectorIndexSnapshot" where
  "vector_snapshot_serialize sn = and_then (vector_data_serialize (vis_data sn)) (\<lambda>d.
     Inr \<lparr>s_vis_data = d, s_vis_ts = ts_to_i64 (vis_ts sn)\<rparr>)"

definition vector_snapshot_deserialize :: "SerializedVectorIndexSnapshot \<Rightarrow> error + VectorIndexSnapshot" where
  "vector_snapshot_deserialize s = and_then (ts_try_from_i64 (s_vis_ts s)) (\<lambda>ts.
     and_then (vector_data_deserialize (s_vis_data s)) (\<lambda>d. Inr \<lparr>vis_data = d, vis_ts = ts\<rparr>))"

datatype SerializedVectorIndexState =
    SVectorBackfilling SerializedVectorIndexBackfillState
  | SVectorBackfilled SerializedVectorIndexSnapshot
  | SVectorBackfilled2 SerializedVectorIndexSnapshot bool
  | SVectorSnapshotted SerializedVectorIndexSnapshot

fun vector_state_serialize :: "(bytes \<Rightarrow> bytes) \<Rightarrow> VectorIndexState \<Rightarrow> error + SerializedVectorIndexState" where
  "vector_state_serialize print_id (VectorBackfilling st) =
     and_then (vector_backfill_serialize print_id st) (\<lambda>s. Inr (SVectorBackfilling s))"
| "vector_state_serialize print_id (VectorBackfilled sn staged) =
     and_then (vector_snapshot_serialize sn) (\<lambda>s. Inr (SVectorBackfilled2 s staged))"
| "vector_state_serialize print_id (VectorSnapshottedAt sn) =
     and_then (vector_snapshot_serialize sn) (\<lambda>s. Inr (SVectorSnapshotted s))"

fun vector_state_deserialize ::
  "(bytes \<Rightarrow> error + bytes) \<Rightarrow> SerializedVectorIndexState \<Rightarrow> error + VectorIndexState" where
  "vector_state_deserialize parse_id (SVectorBackfilling s) =
     and_then (vector_backfill_deserialize parse_id s) (\<lambda>st. Inr (VectorBackfilling st))"
| "vector_state_deserialize parse_id (SVectorBackfilled s) =
     and_then (vector_snapshot_deserialize s) (\<lambda>sn. Inr (VectorBackfilled sn False))"
| "vector_state_deserialize parse_id (SVectorBackfilled2 s staged) =
     and_then (vector_snapshot_deserialize s) (\<lambda>sn. Inr (VectorBackfilled sn staged))"
| "vector_state_deserialize parse_id (SVectorSnapshotted s) =
     and_then (vector_snapshot_deserialize s) (\<lambda>sn. Inr (VectorSnapshottedAt sn))"

record SerializedVectorIndexSpec =
  s_vector_dimensions :: int
  s_vector_field :: bytes
  s_vector_filter_fields :: "bytes list"

definition vector_spec_serialize :: "VectorIndexSpec \<Rightarrow> SerializedVectorIndexSpec" where
  "vector_spec_serialize spec = \<lparr>s_vector_dimensions = uint (vector_dimensions spec),
     s_vector_field = field_path_to_string (vector_field spec),
     s_vector_filter_fields = map field_path_to_string (vector_filter_fields spec)\<rparr>"

definition vector_spec_deserialize :: "SerializedVectorIndexSpec \<Rightarrow> error + VectorIndexSpec" where
  "vector_spec_deserialize s =
     and_then (and_then (i64_to_u32 (s_vector_dimensions s)) dimensions_try_from) (\<lambda>dimensions.
     and_then (field_path_from_str (s_vector_field s)) (\<lambda>path.
     and_then (try_map field_path_from_str (s_vector_filter_fields s)) (\<lambda>filters.
     Inr \<lparr>vector_dimensions = dimensions, vector_field = path, vector_filter_fields = btree_set_of filters\<rparr>)))"

subsection \<open>Configurations and metadata\<close>

datatype SerializedIndexConfig =
    SDatabase SerializedDatabaseIndexSpec SerializedDatabaseIndexState
  | SSearch SerializedTextIndexSpec SerializedTextIndexState
  | SVector SerializedVectorIndexSpec SerializedVectorIndexState

fun config_serialize :: "(bytes \<Rightarrow> bytes) \<Rightarrow> IndexConfig \<Rightarrow> error + SerializedIndexConfig" where
  "config_serialize print_id (Database spec st) =
     and_then (db_state_serialize st) (\<lambda>s. Inr (SDatabase (db_spec_serialize spec) s))"
| "config_serialize print_id (Text spec st) =
     and_then (text_state_serialize print_id st) (\<lambda>s. Inr (SSearch (text_spec_serialize spec) s))"
| "config_serialize print_id (Vector spec st) =
     and_then (vector_state_serialize print_id st) (\<lambda>s. Inr (SVector (vector_spec_serialize spec) s))"

fun config_deserialize :: "(bytes \<Rightarrow> error + bytes) \<Rightarrow> SerializedIndexConfig \<Rightarrow> error + IndexConfig" where
  "config_deserialize parse_id (SDatabase spec st) =
     and_then (db_spec_deserialize spec) (\<lambda>sp. and_then (db_state_deserialize st) (\<lambda>s. Inr (Database sp s)))"
| "config_deserialize parse_id (SSearch spec st) =
     and_then (text_spec_deserialize spec) (\<lambda>sp. and_then (text_state_deserialize parse_id st) (\<lambda>s. Inr (Text sp s)))"
| "config_deserialize parse_id (SVector spec st) =
     and_then (vector_spec_deserialize spec) (\<lambda>sp. and_then (vector_state_deserialize parse_id st) (\<lambda>s. Inr (Vector sp s)))"

record SerializedTabletIndexMetadata =
  s_table_id :: bytes
  s_descriptor :: bytes
  s_config :: SerializedIndexConfig

definition metadata_serialize :: "(bytes \<Rightarrow> bytes) \<Rightarrow> TabletIndexMetadata \<Rightarrow> error + SerializedTabletIndexMetadata" where
  "metadata_serialize print_id m = and_then (config_serialize print_id (config m)) (\<lambda>c.
     Inr \<lparr>s_table_id = print_id (index_table (index_name m)), s_descriptor = descriptor (index_name m), s_config = c\<rparr>)"

definition metadata_deserialize ::
  "(bytes \<Rightarrow> error + bytes) \<Rightarrow> SerializedTabletIndexMetadata \<Rightarrow> error + TabletIndexMetadata" where
  "metadata_deserialize parse_id s =
     and_then (parse_id (s_table_id s)) (\<lambda>table_id.
     and_then (descriptor_new (s_descriptor s)) (\<lambda>d.
     and_then (if is_reserved d then index_name_new_reserved table_id d else index_name_new table_id d) (\<lambda>name.
     and_then (config_deserialize parse_id (s_config s)) (\<lambda>c. Inr (IndexMetadata name c)))))"

subsection \<open>Codecs\<close>

text \<open>
  The contract of a pair of conversions: what is valid is serialized, and deserializing gives it
  back. Lists and options of such values are converted the same way.
\<close>

locale codec =
  fixes encode :: "'a \<Rightarrow> error + 'b" and decode :: "'b \<Rightarrow> error + 'a" and valid :: "'a \<Rightarrow> bool"
  assumes inverse: "valid x \<Longrightarrow> \<exists>y. encode x = Inr y \<and> decode y = Inr x"
begin

lemma list_inverse: "\<forall>x \<in> set xs. valid x \<Longrightarrow> \<exists>ys. try_map encode xs = Inr ys \<and> try_map decode ys = Inr xs"
proof (induction xs)
  case (Cons x xs)
  then obtain y ys where "encode x = Inr y" "decode y = Inr x" "try_map encode xs = Inr ys" "try_map decode ys = Inr xs"
    using inverse [of x] by auto
  then show ?case by (intro exI [of _ "y # ys"]) simp
qed simp

end

text \<open>Conversions that cannot fail in one direction.\<close>

lemma map_inverse: "(\<forall>x \<in> set xs. decode (f x) = Inr x) \<Longrightarrow> try_map decode (map f xs) = Inr xs"
  by (induction xs) simp_all

lemma option_inverse: "pred_option (\<lambda>x. decode (f x) = Inr x) x \<Longrightarrow> try_option decode (map_option f x) = Inr x"
  by (cases x) (simp_all add: try_option_def)

definition valid_ts :: "Timestamp \<Rightarrow> bool" where
  "valid_ts t \<longleftrightarrow> t \<le> ts_MAX"

lemma valid_ts_inverse [simp]: "valid_ts t \<Longrightarrow> ts_try_from_i64 (ts_to_i64 t) = Inr t"
  by (simp add: valid_ts_def ts_i64_inverse)

lemma valid_ts_MIN [simp]: "valid_ts ts_MIN"
  by (simp add: valid_ts_def ts_MIN_def)

definition valid_path :: "field_path \<Rightarrow> bool" where
  "valid_path p \<longleftrightarrow> p \<noteq> [] \<and> (\<forall>f \<in> set p. check_valid_identifier f = Inr ())"

lemma valid_path_inverse [simp]: "valid_path p \<Longrightarrow> field_path_from_str (field_path_to_string p) = Inr p"
  using trim_dots_printed [of p] by (simp add: valid_path_def field_path_from_str_iff)

definition valid_filters :: "field_path list \<Rightarrow> bool" where
  "valid_filters ps \<longleftrightarrow> sorted ps \<and> distinct ps \<and> (\<forall>p \<in> set ps. valid_path p)"

lemma valid_filters_inverse [simp]:
  "valid_filters ps \<Longrightarrow> try_map field_path_from_str (map field_path_to_string ps) = Inr ps"
  "valid_filters ps \<Longrightarrow> btree_set_of ps = ps"
  by (simp_all add: valid_filters_def map_inverse btree_set_of_def sorted_sort_id)

lemma i64_to_u32_uint [simp]: "i64_to_u32 (uint (w :: 32 word)) = Inr w"
  using uint_lt2p [of w] by (simp add: i64_to_u32_def)

definition valid_key :: "ObjectKey \<Rightarrow> bool" where
  "valid_key k \<longleftrightarrow> object_key_try_from k = Inr k"

definition valid_text_segment :: "FragmentedTextSegment \<Rightarrow> bool" where
  "valid_text_segment s \<longleftrightarrow> valid_key (fts_segment_key s) \<and> valid_key (fts_id_tracker_key s)
     \<and> valid_key (fts_deleted_terms_table_key s) \<and> valid_key (fts_alive_bitset_key s)"

definition valid_vector_segment :: "FragmentedVectorSegment \<Rightarrow> bool" where
  "valid_vector_segment s \<longleftrightarrow> valid_key (fvs_segment_key s) \<and> valid_key (fvs_id_tracker_key s)
     \<and> valid_key (fvs_deleted_bitset_key s)"

interpretation text_segment: codec text_segment_serialize text_segment_deserialize valid_text_segment
  by unfold_locales (simp add: text_segment_serialize_def text_segment_deserialize_def valid_text_segment_def valid_key_def)

interpretation vector_segment: codec vector_segment_serialize vector_segment_deserialize valid_vector_segment
  by unfold_locales
    (simp add: vector_segment_serialize_def vector_segment_deserialize_def valid_vector_segment_def valid_key_def)

fun valid_text_data :: "TextIndexSnapshotData \<Rightarrow> bool" where
  "valid_text_data (TextMultiSegment segments) \<longleftrightarrow> (\<forall>s \<in> set segments. valid_text_segment s)"
| "valid_text_data (TextUnknown _) \<longleftrightarrow> True"

fun valid_vector_data :: "VectorIndexSnapshotData \<Rightarrow> bool" where
  "valid_vector_data (VectorMultiSegment segments) \<longleftrightarrow> (\<forall>s \<in> set segments. valid_vector_segment s)"
| "valid_vector_data (VectorUnknown _) \<longleftrightarrow> True"

interpretation text_data: codec text_data_serialize text_data_deserialize valid_text_data
proof
  fix d assume "valid_text_data d"
  then show "\<exists>y. text_data_serialize d = Inr y \<and> text_data_deserialize y = Inr d"
    using text_segment.list_inverse by (cases d) fastforce+
qed

interpretation vector_data: codec vector_data_serialize vector_data_deserialize valid_vector_data
proof
  fix d assume "valid_vector_data d"
  then show "\<exists>y. vector_data_serialize d = Inr y \<and> vector_data_deserialize y = Inr d"
    using vector_segment.list_inverse by (cases d) fastforce+
qed

lemma version_inverse [simp]: "version_from_code (version_to_code v) = Inr v"
  by (cases v) (simp_all add: version_from_code_def)

definition valid_text_snapshot :: "TextIndexSnapshot \<Rightarrow> bool" where
  "valid_text_snapshot sn \<longleftrightarrow> valid_text_data (tis_data sn) \<and> valid_ts (tis_ts sn)"

definition valid_vector_snapshot :: "VectorIndexSnapshot \<Rightarrow> bool" where
  "valid_vector_snapshot sn \<longleftrightarrow> valid_vector_data (vis_data sn) \<and> valid_ts (vis_ts sn)"

interpretation text_snapshot: codec text_snapshot_serialize text_snapshot_deserialize valid_text_snapshot
proof
  fix sn assume "valid_text_snapshot sn"
  then show "\<exists>y. text_snapshot_serialize sn = Inr y \<and> text_snapshot_deserialize y = Inr sn"
    using text_data.inverse [of "tis_data sn"]
    by (auto simp: valid_text_snapshot_def text_snapshot_serialize_def text_snapshot_deserialize_def)
qed

interpretation vector_snapshot: codec vector_snapshot_serialize vector_snapshot_deserialize valid_vector_snapshot
proof
  fix sn assume "valid_vector_snapshot sn"
  then show "\<exists>y. vector_snapshot_serialize sn = Inr y \<and> vector_snapshot_deserialize y = Inr sn"
    using vector_data.inverse [of "vis_data sn"]
    by (auto simp: valid_vector_snapshot_def vector_snapshot_serialize_def vector_snapshot_deserialize_def)
qed

fun valid_db_state :: "DatabaseIndexState \<Rightarrow> bool" where
  "valid_db_state (Backfilling st) \<longleftrightarrow> valid_ts (index_created_lower_bound st)"
| "valid_db_state _ \<longleftrightarrow> True"

interpretation db_state: codec db_state_serialize db_state_deserialize valid_db_state
proof
  fix st assume "valid_db_state st"
  then show "\<exists>y. db_state_serialize st = Inr y \<and> db_state_deserialize y = Inr st"
    by (cases st) (simp_all add: db_backfill_serialize_def db_backfill_deserialize_def try_option_def)
qed

definition valid_cursor :: "TextBackfillCursor \<Rightarrow> bool" where
  "valid_cursor c \<longleftrightarrow> pred_option valid_ts (tbc_backfill_snapshot_ts c) \<and> pred_option valid_ts (tbc_last_segment_ts c)"

fun valid_text_state :: "TextIndexState \<Rightarrow> bool" where
  "valid_text_state (TextBackfilling st) \<longleftrightarrow>
     (\<forall>s \<in> set (tib_segments st). valid_text_segment s) \<and> pred_option valid_cursor (tib_cursor st)"
| "valid_text_state (TextBackfilled sn _) \<longleftrightarrow> valid_text_snapshot sn"
| "valid_text_state (TextSnapshottedAt sn) \<longleftrightarrow> valid_text_snapshot sn"

fun valid_vector_state :: "VectorIndexState \<Rightarrow> bool" where
  "valid_vector_state (VectorBackfilling st) \<longleftrightarrow> (\<forall>s \<in> set (vib_segments st). valid_vector_segment s)
     \<and> pred_option valid_ts (vib_backfill_snapshot_ts st) \<and> pred_option valid_ts (vib_last_segment_ts st)"
| "valid_vector_state (VectorBackfilled sn _) \<longleftrightarrow> valid_vector_snapshot sn"
| "valid_vector_state (VectorSnapshottedAt sn) \<longleftrightarrow> valid_vector_snapshot sn"

text \<open>The conversions that print an internal id are codecs when parsing inverts printing.\<close>

lemma ts_option_inverse [simp]: "pred_option valid_ts x \<Longrightarrow> try_option ts_try_from_i64 (map_option ts_to_i64 x) = Inr x"
  by (rule option_inverse) (auto simp: pred_option_def)

lemma text_cursor_inverse:
  assumes "\<forall>i. parse_id (print_id i) = Inr i" "valid_cursor c"
  shows "text_cursor_deserialize parse_id (text_cursor_serialize print_id c) = Inr c"
proof -
  have "try_option parse_id (map_option print_id x) = Inr x" for x
    by (rule option_inverse) (simp add: assms pred_option_def)
  with assms(2) show ?thesis
    by (simp add: text_cursor_serialize_def text_cursor_deserialize_def valid_cursor_def)
qed

lemma text_state_codec:
  assumes "\<forall>i. parse_id (print_id i) = Inr i"
  shows "codec (text_state_serialize print_id) (text_state_deserialize parse_id) valid_text_state"
proof
  fix st assume v: "valid_text_state st"
  show "\<exists>y. text_state_serialize print_id st = Inr y \<and> text_state_deserialize parse_id y = Inr st"
  proof (cases st)
    case (TextBackfilling b)
    obtain ys where "try_map text_segment_serialize (tib_segments b) = Inr ys"
      "try_map text_segment_deserialize ys = Inr (tib_segments b)"
      using v TextBackfilling text_segment.list_inverse [of "tib_segments b"] by auto
    moreover have "try_option (text_cursor_deserialize parse_id) (map_option (text_cursor_serialize print_id) (tib_cursor b))
        = Inr (tib_cursor b)"
      using v TextBackfilling assms by (intro option_inverse) (auto simp: pred_option_def text_cursor_inverse)
    ultimately show ?thesis
      by (auto simp: TextBackfilling text_backfill_serialize_def text_backfill_deserialize_def text_backfill_state_new_def)
  qed (use v text_snapshot.inverse in fastforce)+
qed

lemma vector_state_codec:
  assumes "\<forall>i. parse_id (print_id i) = Inr i"
  shows "codec (vector_state_serialize print_id) (vector_state_deserialize parse_id) valid_vector_state"
proof
  fix st assume v: "valid_vector_state st"
  have id: "try_option parse_id (map_option print_id x) = Inr x" for x
    by (rule option_inverse) (simp add: assms pred_option_def)
  show "\<exists>y. vector_state_serialize print_id st = Inr y \<and> vector_state_deserialize parse_id y = Inr st"
  proof (cases st)
    case (VectorBackfilling b)
    obtain ys where "try_map vector_segment_serialize (vib_segments b) = Inr ys"
      "try_map vector_segment_deserialize ys = Inr (vib_segments b)"
      using v VectorBackfilling vector_segment.list_inverse [of "vib_segments b"] by auto
    with v id show ?thesis
      by (simp add: VectorBackfilling vector_backfill_serialize_def vector_backfill_deserialize_def)
  qed (use v vector_snapshot.inverse in fastforce)+
qed

fun valid_config :: "IndexConfig \<Rightarrow> bool" where
  "valid_config (Database (DatabaseIndexSpec paths) st) \<longleftrightarrow>
     (\<forall>p \<in> set paths. valid_path p) \<and> indexed_fields_try_from paths = Inr paths \<and> valid_db_state st"
| "valid_config (Text spec st) \<longleftrightarrow>
     valid_path (text_search_field spec) \<and> valid_filters (text_filter_fields spec) \<and> valid_text_state st"
| "valid_config (Vector spec st) \<longleftrightarrow> dimensions_try_from (vector_dimensions spec) = Inr (vector_dimensions spec)
     \<and> valid_path (vector_field spec) \<and> valid_filters (vector_filter_fields spec) \<and> valid_vector_state st"

lemma config_codec:
  assumes "\<forall>i. parse_id (print_id i) = Inr i"
  shows "codec (config_serialize print_id) (config_deserialize parse_id) valid_config"
proof
  fix c assume v: "valid_config c"
  show "\<exists>y. config_serialize print_id c = Inr y \<and> config_deserialize parse_id y = Inr c"
  proof (cases c)
    case (Database spec st)
    then show ?thesis using v db_state.inverse [of st] by (cases spec) (auto simp: map_inverse)
  next
    case (Text spec st)
    then show ?thesis
      using v codec.inverse [OF text_state_codec [of parse_id print_id, OF assms], of st]
      by (auto simp: text_spec_serialize_def text_spec_deserialize_def)
  next
    case (Vector spec st)
    then show ?thesis
      using v codec.inverse [OF vector_state_codec [of parse_id print_id, OF assms], of st]
      by (auto simp: vector_spec_serialize_def vector_spec_deserialize_def)
  qed
qed

subsection \<open>Properties\<close>



end
