(* ===== verification/Index_Registry.thy ===== *)
theory Index_Registry
  imports Reads Index_Serde
begin

text \<open>
  The registry of indexes (\<^verbatim>\<open>src/crates/indexing/src/index_registry.rs\<close>), the view of the \<^verbatim>\<open>_index\<close>
  table that decides which keys a document has. Loading metadata from a document is the conversion
  of \<^verbatim>\<open>Index_Serde\<close> after a deserializer that serde generates, which is an argument. The ordered set
  of table and descriptor pairs is a map to unit. Iterators that may panic are lists in the result
  type.
\<close>

subsection \<open>Parsed documents\<close>

record 'a ParsedDocument =
  parsed_id :: ResolvedDocumentId
  parsed_creation_time :: "64 word"
  parsed_value :: 'a

definition parse_document :: "(ConvexObject \<Rightarrow> error + 'a) \<Rightarrow> ResolvedDocument \<Rightarrow> error + 'a ParsedDocument" where
  "parse_document conv d = and_then (conv (dd_value (rd_document d))) (\<lambda>v.
     Inr \<lparr>parsed_id = rd_id d, parsed_creation_time = dd_creation_time (rd_document d), parsed_value = v\<rparr>)"

type_synonym metadata_codec = "ConvexObject \<Rightarrow> error + TabletIndexMetadata"
type_synonym ParsedIndexMetadata = "TabletIndexMetadata ParsedDocument"

definition metadata_codec_of ::
  "(ConvexObject \<Rightarrow> error + SerializedTabletIndexMetadata) \<Rightarrow> (bytes \<Rightarrow> error + bytes) \<Rightarrow> metadata_codec" where
  "metadata_codec_of serde parse_id obj = and_then (serde obj) (metadata_deserialize parse_id)"

definition from_document :: "metadata_codec \<Rightarrow> ResolvedDocument \<Rightarrow> error + ParsedIndexMetadata" where
  "from_document conv d = parse_document conv d"

subsection \<open>The registry\<close>

record Index =
  index_id :: bytes
  index_metadata :: ParsedIndexMetadata

definition internal_id_of :: "ResolvedDocumentId \<Rightarrow> bytes" where
  "internal_id_of i = dev_internal_id (developer_id i)"

definition index_new :: "ParsedIndexMetadata \<Rightarrow> Index" where
  "index_new m = \<lparr>index_id = internal_id_of (parsed_id m), index_metadata = m\<rparr>"

abbreviation metadata_name :: "ParsedIndexMetadata \<Rightarrow> TabletIndexName" where
  "metadata_name m \<equiv> index_name (parsed_value m)"

abbreviation metadata_config :: "ParsedIndexMetadata \<Rightarrow> IndexConfig" where
  "metadata_config m \<equiv> config (parsed_value m)"

record IndexRegistry =
  reg_index_table :: tablet_id
  reg_index_table_number :: "32 word"
  enabled_indexes :: "(TabletIndexName, Index) btree_map"
  pending_indexes :: "(TabletIndexName, Index) btree_map"
  reg_indexes_by_table :: "(tablet_id \<times> IndexDescriptor, unit) btree_map"

definition table_key :: "TabletIndexName \<Rightarrow> tablet_id \<times> IndexDescriptor" where
  "table_key n = (index_table n, descriptor n)"

definition registry_insert :: "IndexRegistry \<Rightarrow> Index \<Rightarrow> IndexRegistry \<times> Index option" where
  "registry_insert r i =
     (let name = metadata_name (index_metadata i);
          r' = r\<lparr>reg_indexes_by_table := bt_insert (table_key name) () (reg_indexes_by_table r)\<rparr>
      in if is_enabled (metadata_config (index_metadata i))
         then (r'\<lparr>enabled_indexes := bt_insert name i (enabled_indexes r)\<rparr>, bt_get (enabled_indexes r) name)
         else (r'\<lparr>pending_indexes := bt_insert name i (pending_indexes r)\<rparr>, bt_get (pending_indexes r) name))"

definition registry_remove :: "IndexRegistry \<Rightarrow> ParsedIndexMetadata \<Rightarrow> error + IndexRegistry" where
  "registry_remove r m =
     (let name = metadata_name m; enabled = is_enabled (metadata_config m);
          remove_from = (if enabled then enabled_indexes r else pending_indexes r);
          other = (if enabled then pending_indexes r else enabled_indexes r);
          r' = (if enabled then r\<lparr>enabled_indexes := bt_remove name (enabled_indexes r)\<rparr>
                else r\<lparr>pending_indexes := bt_remove name (pending_indexes r)\<rparr>)
      in case bt_get remove_from name of
           None \<Rightarrow> Inl (Panic ''Tried to remove a non-existent index, or an index in the wrong state'')
         | Some removed \<Rightarrow>
             if index_id removed \<noteq> internal_id_of (parsed_id m)
             then Inl (Panic ''Tried to remove a different index with the same name'')
             else if bt_get other name \<noteq> None then Inr r'
             else if bt_get (reg_indexes_by_table r) (table_key name) = None
             then Inl (Panic ''called `Option::unwrap()` on a `None` value'')
             else Inr (r'\<lparr>reg_indexes_by_table := bt_remove (table_key name) (reg_indexes_by_table r)\<rparr>))"

subsection \<open>Loading the registry\<close>

text \<open>The documents of the index table, split into its own \<^verbatim>\<open>by_id\<close> index and the others.\<close>

fun bootstrap_split ::
  "metadata_codec \<Rightarrow> tablet_id \<Rightarrow> ResolvedDocument list \<Rightarrow> ParsedIndexMetadata option \<Rightarrow> ParsedIndexMetadata list
    \<Rightarrow> error + ParsedIndexMetadata option \<times> ParsedIndexMetadata list" where
  "bootstrap_split conv t [] meta regular = Inr (meta, regular)"
| "bootstrap_split conv t (d # ds) meta regular = and_then (parse_document conv d) (\<lambda>m.
     if tablet_id (parsed_id m) \<noteq> t then Inl (Bail ''Condition failed: metadata.id().tablet_id == index_table'')
     else if metadata_name m = by_id t then
       (if meta \<noteq> None then Inl (Bail ''Condition failed: meta_index.is_none()'')
        else bootstrap_split conv t ds (Some m) regular)
     else bootstrap_split conv t ds meta (regular @ [m]))"

definition registry_bootstrap ::
  "metadata_codec \<Rightarrow> tablet_id \<Rightarrow> 32 word \<Rightarrow> ResolvedDocument list \<Rightarrow> error + IndexRegistry" where
  "registry_bootstrap conv tbl tbl_number docs =
     and_then (bootstrap_split conv tbl docs None []) (\<lambda>(meta, regular).
       case meta of None \<Rightarrow> Inl (Bail ''Missing `by_id` index'')
       | Some m \<Rightarrow> Inr (fold (\<lambda>m r. fst (registry_insert r (index_new m))) (m # regular)
           \<lparr>reg_index_table = tbl, reg_index_table_number = tbl_number,
            enabled_indexes = [], pending_indexes = [], reg_indexes_by_table = []\<rparr>))"

subsection \<open>Updates\<close>

definition existing_is_none_or_equal :: "Index option \<Rightarrow> ParsedIndexMetadata \<Rightarrow> bool" where
  "existing_is_none_or_equal existing m \<longleftrightarrow>
     (case existing of None \<Rightarrow> True | Some i \<Rightarrow> index_id i = internal_id_of (parsed_id m))"

definition verify_index_state :: "Index option \<Rightarrow> Index option \<Rightarrow> ParsedIndexMetadata \<Rightarrow> error + unit" where
  "verify_index_state enabled_index pending_index m =
     (if is_enabled (metadata_config m) then
        (if existing_is_none_or_equal enabled_index m then Inr ()
         else Inl (Bail ''Cannot create a second enabled index''))
      else if existing_is_none_or_equal pending_index m then Inr ()
      else Inl (Bail ''Cannot create a second pending index''))"

definition verify_replace :: "metadata_codec \<Rightarrow> IndexRegistry \<Rightarrow> ResolvedDocument \<Rightarrow> ResolvedDocument \<Rightarrow> error + unit" where
  "verify_replace conv r old new =
     (if rd_id old \<noteq> rd_id new then Inl (Bail ''Condition failed: old_document.id() == new_document.id()'')
      else if dev_table (dd_id (rd_document old)) \<noteq> dev_table (dd_id (rd_document new))
      then Inl (Bail ''Condition failed: old_document.table() == new_document.table()'')
      else if rd_tablet_id old \<noteq> reg_index_table r then Inr ()
      else and_then (from_document conv old) (\<lambda>old_m. and_then (from_document conv new) (\<lambda>new_m.
        if index_table (metadata_name old_m) \<noteq> index_table (metadata_name new_m)
        then Inl (Bail ''Can't change indexed table'')
        else if is_by_id_or_creation_time (metadata_name old_m) \<and> metadata_name old_m \<noteq> metadata_name new_m
        then Inl (Bail ''Can't rename system defined index'')
        else if \<not> same_spec (metadata_config old_m) (metadata_config new_m)
        then Inl (Bail ''Can't modify index spec for existing indexes'')
        else Inr ())))"

definition verify_old :: "metadata_codec \<Rightarrow> IndexRegistry \<Rightarrow> ResolvedDocument \<Rightarrow> error + unit" where
  "verify_old conv r old =
     and_then (if rd_tablet_id old \<noteq> reg_index_table r then Inr ()
       else and_then (from_document conv old) (\<lambda>m.
         if bt_get (enabled_indexes r) (metadata_name m) = None \<and> bt_get (pending_indexes r) (metadata_name m) = None
         then Inl (Bail ''Updating nonexistent index'') else Inr ()))
     (\<lambda>_. if bt_get (reg_indexes_by_table r) (rd_tablet_id old, INDEX_BY_ID_DESCRIPTOR) = None
          then Inl (Bail ''Removing document that doesn't exist in index'') else Inr ())"

definition verify_by_id_enabled :: "ParsedIndexMetadata \<Rightarrow> error + unit" where
  "verify_by_id_enabled m =
     (if \<not> is_by_id (metadata_name m) then Inr ()
      else case metadata_config m of
          Database _ st \<Rightarrow> if st = Enabled then Inr () else Inl (Bail ''All `by_id` indexes should be enabled'')
        | _ \<Rightarrow> Inl (Bail ''`by_id` index must be a database index''))"

definition verify_new :: "metadata_codec \<Rightarrow> IndexRegistry \<Rightarrow> ResolvedDocument \<Rightarrow> error + unit" where
  "verify_new conv r new =
     (if bt_get (enabled_indexes r) (by_id (rd_tablet_id new)) = None then Inl (Bail ''Missing `by_id` index for table'')
      else if rd_tablet_id new \<noteq> reg_index_table r then Inr ()
      else and_then (from_document conv new) (\<lambda>m.
        if index_table (metadata_name m) = reg_index_table r \<and> \<not> is_by_id (metadata_name m)
        then Inl (Bail ''Condition failed: metadata.name.is_by_id()'')
        else and_then (verify_by_id_enabled m) (\<lambda>_.
          verify_index_state (bt_get (enabled_indexes r) (metadata_name m))
            (bt_get (pending_indexes r) (metadata_name m)) m)))"

definition verify_update ::
  "metadata_codec \<Rightarrow> IndexRegistry \<Rightarrow> ResolvedDocument option \<Rightarrow> ResolvedDocument option \<Rightarrow> error + unit" where
  "verify_update conv r old new =
     and_then (case (old, new) of (Some o', Some n) \<Rightarrow> verify_replace conv r o' n | _ \<Rightarrow> Inr ()) (\<lambda>_.
     and_then (case old of Some o' \<Rightarrow> verify_old conv r o' | None \<Rightarrow> Inr ()) (\<lambda>_.
     case new of Some n \<Rightarrow> verify_new conv r n | None \<Rightarrow> Inr ()))"

definition unwrap_document :: "metadata_codec \<Rightarrow> ResolvedDocument \<Rightarrow> error + ParsedIndexMetadata" where
  "unwrap_document conv d = (case from_document conv d of
     Inl _ \<Rightarrow> Inl (Panic ''called `Result::unwrap()` on an `Err` value'') | Inr m \<Rightarrow> Inr m)"

definition apply_verified_update ::
  "metadata_codec \<Rightarrow> IndexRegistry \<Rightarrow> ResolvedDocument option \<Rightarrow> ResolvedDocument option
    \<Rightarrow> error + IndexRegistry \<times> bool" where
  "apply_verified_update conv r deletion insertion =
     and_then (case deletion of
         Some old \<Rightarrow> (if rd_tablet_id old = reg_index_table r
           then and_then (unwrap_document conv old) (\<lambda>m. and_then (registry_remove r m) (\<lambda>r'. Inr (r', True)))
           else Inr (r, False))
       | None \<Rightarrow> Inr (r, False))
     (\<lambda>(r, modified). case insertion of
         Some new \<Rightarrow> (if rd_tablet_id new = reg_index_table r
           then and_then (unwrap_document conv new) (\<lambda>m. Inr (fst (registry_insert r (index_new m)), True))
           else Inr (r, modified))
       | None \<Rightarrow> Inr (r, modified))"

definition registry_update ::
  "metadata_codec \<Rightarrow> IndexRegistry \<Rightarrow> ResolvedDocument option \<Rightarrow> ResolvedDocument option
    \<Rightarrow> error + IndexRegistry" where
  "registry_update conv r deletion insertion =
     and_then (verify_update conv r deletion insertion) (\<lambda>_.
     and_then (apply_verified_update conv r deletion insertion) (\<lambda>(r', _). Inr r'))"

subsection \<open>Lookups\<close>

definition get_enabled :: "IndexRegistry \<Rightarrow> TabletIndexName \<Rightarrow> Index option" where
  "get_enabled r n = bt_get (enabled_indexes r) n"

definition get_pending :: "IndexRegistry \<Rightarrow> TabletIndexName \<Rightarrow> Index option" where
  "get_pending r n = bt_get (pending_indexes r) n"

definition enabled_index_metadata :: "IndexRegistry \<Rightarrow> TabletIndexName \<Rightarrow> ParsedIndexMetadata option" where
  "enabled_index_metadata r n = map_option index_metadata (get_enabled r n)"

definition must_get_by_id :: "IndexRegistry \<Rightarrow> tablet_id \<Rightarrow> error + Index" where
  "must_get_by_id r t = (case get_enabled r (by_id t) of None \<Rightarrow> Inl (Bail ''No `by_id` index for table'') | Some i \<Rightarrow> Inr i)"

definition require_enabled :: "IndexRegistry \<Rightarrow> TabletIndexName \<Rightarrow> error + Index" where
  "require_enabled r n = (case get_enabled r n of Some i \<Rightarrow> Inr i
     | None \<Rightarrow> (case get_pending r n of
         Some i \<Rightarrow> if is_staged (metadata_config (index_metadata i)) then Inl (BadRequest ''IndexStagedError'')
                  else Inl (BadRequest ''IndexBackfillingError'')
       | None \<Rightarrow> Inl (BadRequest ''IndexNotFoundError'')))"

definition all_indexes :: "IndexRegistry \<Rightarrow> ParsedIndexMetadata list" where
  "all_indexes r = map (index_metadata \<circ> snd) (enabled_indexes r @ pending_indexes r)"

definition all_tables_with_indexes :: "IndexRegistry \<Rightarrow> tablet_id list" where
  "all_tables_with_indexes r = remdups_adj (sort (map (index_table \<circ> metadata_name) (all_indexes r)))"

definition all_text_indexes :: "IndexRegistry \<Rightarrow> ParsedIndexMetadata list" where
  "all_text_indexes r = filter (is_text_index \<circ> parsed_value) (all_indexes r)"

definition all_vector_indexes :: "IndexRegistry \<Rightarrow> ParsedIndexMetadata list" where
  "all_vector_indexes r = filter (is_vector_index \<circ> parsed_value) (all_indexes r)"

definition all_text_and_vector_indexes :: "IndexRegistry \<Rightarrow> ParsedIndexMetadata list" where
  "all_text_and_vector_indexes r =
     filter (\<lambda>m. is_text_index (parsed_value m) \<or> is_vector_index (parsed_value m)) (all_indexes r)"

definition all_database_indexes :: "IndexRegistry \<Rightarrow> ParsedIndexMetadata list" where
  "all_database_indexes r = filter (is_database_index \<circ> parsed_value) (all_indexes r)"

definition all_enabled_indexes :: "IndexRegistry \<Rightarrow> ParsedIndexMetadata list" where
  "all_enabled_indexes r = map (index_metadata \<circ> snd) (enabled_indexes r)"

definition enabled_index_by_index_id :: "IndexRegistry \<Rightarrow> bytes \<Rightarrow> Index option" where
  "enabled_index_by_index_id r i = find (\<lambda>x. i = index_id x) (map snd (enabled_indexes r))"

definition pending_index_by_index_id :: "IndexRegistry \<Rightarrow> bytes \<Rightarrow> Index option" where
  "pending_index_by_index_id r i = find (\<lambda>x. i = index_id x) (map snd (pending_indexes r))"

definition enabled_indexes_for_table :: "IndexRegistry \<Rightarrow> tablet_id \<Rightarrow> ParsedIndexMetadata list" where
  "enabled_indexes_for_table r t = map (index_metadata \<circ> snd)
     (takeWhile (\<lambda>e. index_table (fst e) = t) (filter (\<lambda>e. min_for_table t \<le> fst e) (enabled_indexes r)))"

definition by_id_indexes :: "IndexRegistry \<Rightarrow> (tablet_id, bytes) btree_map" where
  "by_id_indexes r = fold (\<lambda>m b. bt_insert (index_table (metadata_name m)) (internal_id_of (parsed_id m)) b)
     (filter (is_by_id \<circ> metadata_name) (all_enabled_indexes r)) []"

definition all_database_index_configs :: "IndexRegistry \<Rightarrow> (bytes, TabletIndexName \<times> IndexedFields) btree_map" where
  "all_database_index_configs r = fold (\<lambda>m b. case metadata_config m of
       Database spec _ \<Rightarrow> bt_insert (internal_id_of (parsed_id m)) (metadata_name m, db_fields spec) b
     | _ \<Rightarrow> b) (all_indexes r) []"

definition index_ids :: "IndexRegistry \<Rightarrow> bytes set" where
  "index_ids r = set (map (index_id \<circ> snd) (enabled_indexes r @ pending_indexes r))"

definition same_indexes :: "IndexRegistry \<Rightarrow> IndexRegistry \<Rightarrow> bool" where
  "same_indexes r r' \<longleftrightarrow> index_ids r = index_ids r'"

text \<open>Both the enabled and the pending indexes of a table, by descriptor.\<close>

definition expect_name :: "error + TabletIndexName \<Rightarrow> error + TabletIndexName" where
  "expect_name x = (case x of Inl _ \<Rightarrow> Inl (Panic ''Invalid IndexName in index'') | Inr n \<Rightarrow> Inr n)"

definition registered_name :: "tablet_id \<Rightarrow> IndexDescriptor \<Rightarrow> error + TabletIndexName" where
  "registered_name t d =
     (if d = INDEX_BY_ID_DESCRIPTOR then Inr (by_id t)
      else if d = INDEX_BY_CREATION_TIME_DESCRIPTOR then Inr (by_creation_time t)
      else if is_reserved d then expect_name (index_name_new_reserved t d)
      else expect_name (index_name_new t d))"

definition indexes_named :: "IndexRegistry \<Rightarrow> TabletIndexName \<Rightarrow> error + Index list" where
  "indexes_named r n =
     (let result = List.map_filter (\<lambda>m. bt_get m n) [enabled_indexes r, pending_indexes r]
      in if result = [] then Inl (Panic ''indexes_by_table and indexes inconsistent'') else Inr result)"

definition indexes_by_table :: "IndexRegistry \<Rightarrow> tablet_id \<Rightarrow> error + Index list" where
  "indexes_by_table r t =
     and_then (try_map (\<lambda>e. and_then (registered_name (fst (fst e)) (snd (fst e))) (indexes_named r))
       (takeWhile (\<lambda>e. fst (fst e) = t) (filter (\<lambda>e. (t, descriptor_MIN) \<le> fst e) (reg_indexes_by_table r))))
     (\<lambda>xss. Inr (concat xss))"

definition has_no_indexes :: "IndexRegistry \<Rightarrow> tablet_id \<Rightarrow> error + bool" where
  "has_no_indexes r t = and_then (indexes_by_table r t) (\<lambda>is. Inr (is = []))"

definition text_indexes_by_table :: "IndexRegistry \<Rightarrow> tablet_id \<Rightarrow> error + Index list" where
  "text_indexes_by_table r t = and_then (indexes_by_table r t)
     (\<lambda>is. Inr (filter (is_text_index \<circ> parsed_value \<circ> index_metadata) is))"

definition vector_indexes_by_table :: "IndexRegistry \<Rightarrow> tablet_id \<Rightarrow> error + Index list" where
  "vector_indexes_by_table r t = and_then (indexes_by_table r t)
     (\<lambda>is. Inr (filter (is_vector_index \<circ> parsed_value \<circ> index_metadata) is))"

subsection \<open>The keys of a document\<close>

fun packed_index_keys :: "PackedDocument \<Rightarrow> Index list \<Rightarrow> error + (Index \<times> IndexKeyBytes) list" where
  "packed_index_keys doc [] = Inr []"
| "packed_index_keys doc (i # is) = (case metadata_config (index_metadata i) of
     Database spec _ \<Rightarrow> and_then (pd_index_key doc (db_fields spec)) (\<lambda>k.
       and_then (packed_index_keys doc is) (\<lambda>ks. Inr ((i, k) # ks)))
   | _ \<Rightarrow> packed_index_keys doc is)"

definition index_keys :: "IndexRegistry \<Rightarrow> PackedDocument \<Rightarrow> error + (Index \<times> IndexKeyBytes) list" where
  "index_keys r doc = and_then (indexes_by_table r (tablet_id (pd_id doc))) (packed_index_keys doc)"

definition text_filter_values ::
  "(bytes \<Rightarrow> bytes) \<Rightarrow> PackedDocument \<Rightarrow> field_path list \<Rightarrow> error + (field_path, FilterValue) btree_map" where
  "text_filter_values sha256 doc paths =
     and_then (try_map (\<lambda>p. and_then (from_search_value sha256 (open_path (pd_value doc) p)) (\<lambda>v. Inr (p, v))) paths)
       (\<lambda>kvs. Inr (fold (\<lambda>(p, v) m. bt_insert p v m) kvs []))"

definition text_key_value ::
  "(bytes \<Rightarrow> bytes) \<Rightarrow> (bytes \<Rightarrow> SearchValueTokens) \<Rightarrow> PackedDocument \<Rightarrow> TextIndexSpec \<Rightarrow> error + SearchIndexKeyValue" where
  "text_key_value sha256 tokenize doc spec =
     and_then (text_filter_values sha256 doc (text_filter_fields spec)) (\<lambda>fv.
       Inr \<lparr>filter_values = fv, search_field = text_search_field spec,
            search_field_value = (case open_path (pd_value doc) (text_search_field spec) of
              Some (String str) \<Rightarrow> Some (tokenize str) | _ \<Rightarrow> None)\<rparr>)"

definition index_key_value ::
  "(bytes \<Rightarrow> bytes) \<Rightarrow> (bytes \<Rightarrow> SearchValueTokens) \<Rightarrow> PackedDocument \<Rightarrow> IndexConfig
    \<Rightarrow> error + DocumentIndexKeyValue option" where
  "index_key_value sha256 tokenize doc c = (case c of
     Database spec _ \<Rightarrow> and_then (pd_index_key doc (db_fields spec)) (\<lambda>k. Inr (Some (Standard k)))
   | Text spec _ \<Rightarrow> and_then (text_key_value sha256 tokenize doc spec) (\<lambda>kv. Inr (Some (Search kv)))
   | Vector _ _ \<Rightarrow> Inr None)"

fun collect_keys ::
  "(bytes \<Rightarrow> bytes) \<Rightarrow> (bytes \<Rightarrow> SearchValueTokens) \<Rightarrow> PackedDocument \<Rightarrow> Index list \<Rightarrow> DocumentIndexKeys
    \<Rightarrow> error + DocumentIndexKeys" where
  "collect_keys sha256 tokenize doc [] m = Inr m"
| "collect_keys sha256 tokenize doc (i # is) m =
     and_then (index_key_value sha256 tokenize doc (metadata_config (index_metadata i))) (\<lambda>kv.
       collect_keys sha256 tokenize doc is
         (case kv of None \<Rightarrow> m | Some v \<Rightarrow> bt_insert (metadata_name (index_metadata i)) v m))"

definition INDEX_BY_TABLE_ID_VIRTUAL_INDEX_DESCRIPTOR :: IndexDescriptor where
  "INDEX_BY_TABLE_ID_VIRTUAL_INDEX_DESCRIPTOR = ascii ''by_table_id''"

definition TABLE_ID_FIELD_PATH :: field_path where
  "TABLE_ID_FIELD_PATH = [ascii ''table_id'']"

definition document_index_keys ::
  "(bytes \<Rightarrow> bytes) \<Rightarrow> (bytes \<Rightarrow> SearchValueTokens) \<Rightarrow> IndexRegistry \<Rightarrow> PackedDocument \<Rightarrow> error + DocumentIndexKeys" where
  "document_index_keys sha256 tokenize r doc =
     and_then (and_then (indexes_by_table r (tablet_id (pd_id doc))) (\<lambda>is. collect_keys sha256 tokenize doc is [])) (\<lambda>m.
       if tablet_id (pd_id doc) = reg_index_table r
       then (case index_name_new (tablet_id (pd_id doc)) INDEX_BY_TABLE_ID_VIRTUAL_INDEX_DESCRIPTOR of
               Inl _ \<Rightarrow> Inl (Panic ''invalid built-in index name'')
             | Inr n \<Rightarrow> and_then (pd_index_key doc [TABLE_ID_FIELD_PATH]) (\<lambda>k. Inr (bt_insert n (Standard k) m)))
       else Inr m)"

end
