(* ===== verification/Registry_View.thy ===== *)
theory Registry_View
  imports Index_Registry
begin

text \<open>
  The index registry as the view of the \<^verbatim>\<open>_index\<close> table that its documentation promises: updates of
  the registry are updates of the set of index documents, and the index keys it gives for a document
  are what a read set needs to detect a conflict with that document.
\<close>

subsection \<open>The registry as a view of the index table\<close>

text \<open>The enabled or the pending indexes.\<close>

definition state_map :: "IndexRegistry \<Rightarrow> bool \<Rightarrow> (TabletIndexName, Index) btree_map" where
  "state_map r enabled = (if enabled then enabled_indexes r else pending_indexes r)"

text \<open>
  The live documents of the index table, by internal id, and the registry that presents them: each
  document is the index of its name and state, and the table and descriptor pairs are those of the
  documents. No two documents share name and state, because each is found under them.
\<close>

type_synonym index_documents = "bytes \<Rightarrow> ParsedIndexMetadata option"

definition live :: "index_documents \<Rightarrow> ParsedIndexMetadata \<Rightarrow> bool" where
  "live D m \<longleftrightarrow> D (internal_id_of (parsed_id m)) = Some m"

definition registry_of :: "IndexRegistry \<Rightarrow> index_documents \<Rightarrow> bool" where
  "registry_of r D \<longleftrightarrow> bt_wf (enabled_indexes r) \<and> bt_wf (pending_indexes r) \<and> bt_wf (reg_indexes_by_table r)
     \<and> (\<forall>i m. D i = Some m \<longrightarrow> internal_id_of (parsed_id m) = i)
     \<and> (\<forall>m. live D m \<longrightarrow> valid_index_name (metadata_name m))
     \<and> (\<forall>b n i. bt_get (state_map r b) n = Some i \<longleftrightarrow>
          (\<exists>m. live D m \<and> i = index_new m \<and> metadata_name m = n \<and> is_enabled (metadata_config m) = b))
     \<and> (\<forall>n. bt_get (reg_indexes_by_table r) (table_key n) = None \<longleftrightarrow> (\<forall>m. live D m \<longrightarrow> metadata_name m \<noteq> n))"

lemma registry_ofD:
  assumes "registry_of r D"
  shows "bt_wf (enabled_indexes r)" "bt_wf (pending_indexes r)" "bt_wf (reg_indexes_by_table r)"
    "D i = Some m \<Longrightarrow> internal_id_of (parsed_id m) = i"
    "live D m \<Longrightarrow> valid_index_name (metadata_name m)"
    "bt_get (state_map r b) n = Some x \<longleftrightarrow>
      (\<exists>m. live D m \<and> x = index_new m \<and> metadata_name m = n \<and> is_enabled (metadata_config m) = b)"
    "bt_get (reg_indexes_by_table r) (table_key n) = None \<longleftrightarrow> (\<forall>m. live D m \<longrightarrow> metadata_name m \<noteq> n)"
  using assms unfolding registry_of_def by blast+

lemma index_new_inj [simp]: "index_new m = index_new m' \<longleftrightarrow> m = m'"
  by (auto simp: index_new_def)

lemma live_unique:
  assumes "registry_of r D" "live D m" "live D m'" "metadata_name m = metadata_name m'"
    "is_enabled (metadata_config m) = is_enabled (metadata_config m')"
  shows "m = m'"
  using registry_ofD(6) [OF assms(1), of "is_enabled (metadata_config m)" "metadata_name m"] assms(2-)
  by (metis index_new_inj option.inject)

lemma live_get:
  assumes "registry_of r D" "live D m"
  shows "bt_get (state_map r (is_enabled (metadata_config m))) (metadata_name m) = Some (index_new m)"
  using registry_ofD(6) [OF assms(1)] assms(2) by blast

lemma table_key_inj [simp]: "table_key n = table_key n' \<longleftrightarrow> n = n'"
  by (cases n; cases n') (simp add: table_key_def)

lemma table_key_surj: "\<exists>n. k = table_key n"
  by (cases k) (auto simp: table_key_def intro: exI [of _ "GenericIndexName (fst k) (snd k)"])

lemma registry_insert_of:
  assumes r: "registry_of r D" and fresh: "D (internal_id_of (parsed_id m)) = None"
    and valid: "valid_index_name (metadata_name m)"
    and unused: "bt_get (state_map r (is_enabled (metadata_config m))) (metadata_name m) = None"
  shows "registry_of (fst (registry_insert r (index_new m))) (D(internal_id_of (parsed_id m) := Some m))"
    and "reg_index_table (fst (registry_insert r (index_new m))) = reg_index_table r"
    and "bt_get (state_map (fst (registry_insert r (index_new m))) b) n =
      (if b = is_enabled (metadata_config m) \<and> n = metadata_name m then Some (index_new m) else bt_get (state_map r b) n)"
proof -
  let ?r = "fst (registry_insert r (index_new m))" and ?D = "D(internal_id_of (parsed_id m) := Some m)"
  have m: "index_metadata (index_new m) = m" by (simp add: index_new_def)
  have live: "live ?D m' \<longleftrightarrow> m' = m \<or> live D m'" for m'
    using fresh by (auto simp: live_def)
  have get: "bt_get (state_map ?r b) n = (if b = is_enabled (metadata_config m) \<and> n = metadata_name m
      then Some (index_new m) else bt_get (state_map r b) n)" for b n
    by (simp add: registry_insert_def state_map_def m Let_def)
  have none: "\<not> (live D m' \<and> metadata_name m' = metadata_name m
      \<and> is_enabled (metadata_config m') = is_enabled (metadata_config m))" for m'
  proof
    assume "live D m' \<and> metadata_name m' = metadata_name m \<and> is_enabled (metadata_config m') = is_enabled (metadata_config m)"
    then show False using live_get [OF r, of m'] unused by simp
  qed
  have keys: "bt_get (reg_indexes_by_table ?r) k = (if k = table_key (metadata_name m) then Some ()
      else bt_get (reg_indexes_by_table r) k)" for k
    by (simp add: registry_insert_def m Let_def)
  show "registry_of ?r ?D"
    unfolding registry_of_def
  proof (intro conjI allI)
    show "bt_wf (enabled_indexes ?r)" "bt_wf (pending_indexes ?r)" "bt_wf (reg_indexes_by_table ?r)"
      using registry_ofD(1-3) [OF r] by (auto simp: registry_insert_def Let_def)
    show "?D i = Some m' \<longrightarrow> internal_id_of (parsed_id m') = i" for i m' using registry_ofD(4) [OF r] by auto
    show "live ?D m' \<longrightarrow> valid_index_name (metadata_name m')" for m'
      using valid registry_ofD(5) [OF r] by (auto simp: live)
    show "bt_get (state_map ?r b) n = Some x \<longleftrightarrow>
      (\<exists>m. live ?D m \<and> x = index_new m \<and> metadata_name m = n \<and> is_enabled (metadata_config m) = b)" for b n x
      unfolding get live using none registry_ofD(6) [OF r, of b n x] by auto
    show "bt_get (reg_indexes_by_table ?r) (table_key n) = None \<longleftrightarrow> (\<forall>m. live ?D m \<longrightarrow> metadata_name m \<noteq> n)" for n
      unfolding keys live using registry_ofD(7) [OF r, of n] by auto
  qed
  show "reg_index_table ?r = reg_index_table r" by (simp add: registry_insert_def Let_def)
  show "bt_get (state_map ?r b) n = (if b = is_enabled (metadata_config m) \<and> n = metadata_name m
      then Some (index_new m) else bt_get (state_map r b) n)" by (rule get)
qed

lemma registry_remove_of:
  assumes r: "registry_of r D" and m: "live D m"
  shows "\<exists>r'. registry_remove r m = Inr r' \<and> registry_of r' (D(internal_id_of (parsed_id m) := None))
    \<and> reg_index_table r' = reg_index_table r \<and> bt_get (state_map r' (is_enabled (metadata_config m))) (metadata_name m) = None
    \<and> (\<forall>b n. (b, n) \<noteq> (is_enabled (metadata_config m), metadata_name m) \<longrightarrow> bt_get (state_map r' b) n = bt_get (state_map r b) n)"
proof -
  let ?b = "is_enabled (metadata_config m)" and ?n = "metadata_name m" and ?D = "D(internal_id_of (parsed_id m) := None)"
  have found: "bt_get (state_map r ?b) ?n = Some (index_new m)" by (rule live_get [OF r m])
  have keyed: "bt_get (reg_indexes_by_table r) (table_key ?n) \<noteq> None"
    using registry_ofD(7) [OF r, of ?n] m by blast
  define r1 where "r1 = (if ?b then r\<lparr>enabled_indexes := bt_remove ?n (enabled_indexes r)\<rparr>
      else r\<lparr>pending_indexes := bt_remove ?n (pending_indexes r)\<rparr>)"
  define r' where "r' = (if bt_get (state_map r (\<not> ?b)) ?n \<noteq> None then r1
      else r1\<lparr>reg_indexes_by_table := bt_remove (table_key ?n) (reg_indexes_by_table r)\<rparr>)"
  have rem: "registry_remove r m = Inr r'"
    using found keyed by (auto simp: registry_remove_def Let_def state_map_def r'_def r1_def index_new_def)
  have get: "bt_get (state_map r' b) n = (if b = ?b \<and> n = ?n then None else bt_get (state_map r b) n)" for b n
    by (simp add: r'_def r1_def state_map_def)
  have live: "live ?D m' \<longleftrightarrow> live D m' \<and> m' \<noteq> m" for m'
    using m by (auto simp: live_def)
  have other: "bt_get (state_map r (\<not> ?b)) ?n \<noteq> None \<longleftrightarrow> (\<exists>m'. live ?D m' \<and> metadata_name m' = ?n)"
  proof
    assume "bt_get (state_map r (\<not> ?b)) ?n \<noteq> None"
    then obtain m' where "live D m'" "metadata_name m' = ?n" "is_enabled (metadata_config m') = (\<not> ?b)"
      using registry_ofD(6) [OF r, of "\<not> ?b" ?n] by (metis option.exhaust)
    then show "\<exists>m'. live ?D m' \<and> metadata_name m' = ?n" unfolding live by metis
  next
    assume "\<exists>m'. live ?D m' \<and> metadata_name m' = ?n"
    then obtain m' where m': "live D m'" "m' \<noteq> m" "metadata_name m' = ?n" unfolding live by blast
    then have "is_enabled (metadata_config m') = (\<not> ?b)" using live_unique [OF r m'(1) m] by metis
    then show "bt_get (state_map r (\<not> ?b)) ?n \<noteq> None" using live_get [OF r m'(1)] m'(3) by simp
  qed
  have keys: "bt_get (reg_indexes_by_table r') k = (if k = table_key ?n \<and> bt_get (state_map r (\<not> ?b)) ?n = None
      then None else bt_get (reg_indexes_by_table r) k)" for k
    by (simp add: r'_def r1_def)
  have "registry_of r' ?D"
    unfolding registry_of_def
  proof (intro conjI allI)
    show "bt_wf (enabled_indexes r')" "bt_wf (pending_indexes r')" "bt_wf (reg_indexes_by_table r')"
      using registry_ofD(1-3) [OF r] by (auto simp: r'_def r1_def)
    show "?D i = Some m' \<longrightarrow> internal_id_of (parsed_id m') = i" for i m' using registry_ofD(4) [OF r] by auto
    show "live ?D m' \<longrightarrow> valid_index_name (metadata_name m')" for m' using registry_ofD(5) [OF r] by (auto simp: live)
    show "bt_get (state_map r' b) n = Some x \<longleftrightarrow>
      (\<exists>m. live ?D m \<and> x = index_new m \<and> metadata_name m = n \<and> is_enabled (metadata_config m) = b)" for b n x
    proof (cases "b = ?b \<and> n = ?n")
      case True
      then have "\<not> (\<exists>m'. live D m' \<and> m' \<noteq> m \<and> metadata_name m' = n \<and> is_enabled (metadata_config m') = b)"
        using live_unique [OF r m] by metis
      with True show ?thesis unfolding get live by auto
    next
      case False
      then show ?thesis unfolding get live using registry_ofD(6) [OF r, of b n x] by auto
    qed
    show "bt_get (reg_indexes_by_table r') (table_key n) = None \<longleftrightarrow> (\<forall>m. live ?D m \<longrightarrow> metadata_name m \<noteq> n)" for n
    proof (cases "n = ?n")
      case True
      then show ?thesis using keyed other by (auto simp: keys)
    next
      case False
      then show ?thesis using registry_ofD(7) [OF r, of n] by (auto simp: keys live)
    qed
  qed
  moreover have "reg_index_table r' = reg_index_table r" by (simp add: r'_def r1_def)
  ultimately show ?thesis using rem get by auto
qed

subsection \<open>Updates as updates of the view\<close>

lemma metadata_deserialize_valid: "metadata_deserialize parse_id s = Inr m \<Longrightarrow> valid_index_name (index_name m)"
  by (auto simp: metadata_deserialize_def and_then_Inr_iff index_name_new_iff index_name_new_reserved_iff split: if_splits)

definition valid_codec :: "metadata_codec \<Rightarrow> bool" where
  "valid_codec conv \<longleftrightarrow> (\<forall>obj m. conv obj = Inr m \<longrightarrow> valid_index_name (index_name m))"

lemma valid_codec_of: "valid_codec (metadata_codec_of serde parse_id)"
  by (auto simp: valid_codec_def metadata_codec_of_def and_then_Inr_iff intro: metadata_deserialize_valid)

lemma from_document_Inr:
  assumes "from_document conv d = Inr m"
  shows "parsed_id m = rd_id d" "valid_codec conv \<Longrightarrow> valid_index_name (metadata_name m)"
  using assms by (auto simp: from_document_def parse_document_def and_then_Inr_iff valid_codec_def)

lemma unwrap_document_Inr [simp]: "from_document conv d = Inr m \<Longrightarrow> unwrap_document conv d = Inr m"
  by (simp add: unwrap_document_def)

text \<open>What a write to the index table does to the live documents.\<close>

definition delete_document :: "tablet_id \<Rightarrow> ResolvedDocument option \<Rightarrow> index_documents \<Rightarrow> index_documents" where
  "delete_document t old D = (case old of
     Some d \<Rightarrow> if rd_tablet_id d = t then D(internal_id_of (rd_id d) := None) else D | None \<Rightarrow> D)"

definition insert_document ::
  "metadata_codec \<Rightarrow> tablet_id \<Rightarrow> ResolvedDocument option \<Rightarrow> index_documents \<Rightarrow> index_documents" where
  "insert_document conv t new D = (case new of
     Some d \<Rightarrow> if rd_tablet_id d = t then D(internal_id_of (rd_id d) := Some (projr (from_document conv d))) else D
   | None \<Rightarrow> D)"

text \<open>A write replaces the live version of its document.\<close>

definition current :: "metadata_codec \<Rightarrow> tablet_id \<Rightarrow> ResolvedDocument option \<Rightarrow> ResolvedDocument option \<Rightarrow> index_documents \<Rightarrow> bool" where
  "current conv t old new D \<longleftrightarrow>
     (\<forall>d. old = Some d \<and> rd_tablet_id d = t \<longrightarrow> (\<exists>m. from_document conv d = Inr m \<and> live D m))
     \<and> (\<forall>d. new = Some d \<and> rd_tablet_id d = t \<and> old = None \<longrightarrow> D (internal_id_of (rd_id d)) = None)"

lemma verify_update_new:
  assumes "verify_update conv r old (Some d) = Inr ()" "rd_tablet_id d = reg_index_table r"
  obtains m where "from_document conv d = Inr m"
    "existing_is_none_or_equal (bt_get (state_map r (is_enabled (metadata_config m))) (metadata_name m)) m"
  using assms
  by (auto simp: verify_update_def verify_new_def verify_index_state_def and_then_Inr_iff state_map_def
      split: if_splits option.splits)

lemma verify_update_same:
  assumes "verify_update conv r (Some o') (Some n) = Inr ()"
  shows "rd_id o' = rd_id n" "rd_tablet_id o' = rd_tablet_id n"
  using assms by (auto simp: verify_update_def verify_replace_def and_then_Inr_iff rd_id_def split: if_splits)

lemma apply_deletion:
  assumes r: "registry_of r D" and cur: "current conv (reg_index_table r) old new D"
  obtains r1 b where "registry_of r1 (delete_document (reg_index_table r) old D)"
    "reg_index_table r1 = reg_index_table r"
    "(case old of Some d \<Rightarrow> (if rd_tablet_id d = reg_index_table r
           then and_then (unwrap_document conv d) (\<lambda>m. and_then (registry_remove r m) (\<lambda>r'. Inr (r', True)))
           else Inr (r, False)) | None \<Rightarrow> Inr (r, False)) = Inr (r1, b)"
    "\<And>b n. bt_get (state_map r1 b) n = bt_get (state_map r b) n \<or> bt_get (state_map r1 b) n = None"
proof (cases "\<exists>d. old = Some d \<and> rd_tablet_id d = reg_index_table r")
  case True
  then obtain d m where d: "old = Some d" "rd_tablet_id d = reg_index_table r" "from_document conv d = Inr m" "live D m"
    using cur unfolding current_def by blast
  have pid: "parsed_id m = rd_id d" by (rule from_document_Inr(1) [OF d(3)])
  obtain r1 where r1: "registry_remove r m = Inr r1" "registry_of r1 (D(internal_id_of (parsed_id m) := None))"
    "reg_index_table r1 = reg_index_table r" "bt_get (state_map r1 (is_enabled (metadata_config m))) (metadata_name m) = None"
    "\<forall>b n. (b, n) \<noteq> (is_enabled (metadata_config m), metadata_name m) \<longrightarrow> bt_get (state_map r1 b) n = bt_get (state_map r b) n"
    using registry_remove_of [OF r d(4)] by blast
  show thesis
  proof (rule that)
    show "registry_of r1 (delete_document (reg_index_table r) old D)"
      using r1(2) d(1,2) by (simp add: delete_document_def pid)
    show "reg_index_table r1 = reg_index_table r" by (rule r1)
    show "bt_get (state_map r1 b) n = bt_get (state_map r b) n \<or> bt_get (state_map r1 b) n = None" for b n
      using r1(4,5) by (cases "(b, n) = (is_enabled (metadata_config m), metadata_name m)") auto
  qed (use d r1(1) in simp)
next
  case False
  then have D: "delete_document (reg_index_table r) old D = D" by (auto simp: delete_document_def split: option.splits)
  from False r show thesis by (intro that [of r False]) (auto simp: D split: option.splits)
qed

lemma apply_verified_update_of:
  assumes r: "registry_of r D" and conv: "valid_codec conv" and cur: "current conv (reg_index_table r) old new D"
    and verified: "verify_update conv r old new = Inr ()"
  shows "\<exists>r' b. apply_verified_update conv r old new = Inr (r', b) \<and> reg_index_table r' = reg_index_table r
    \<and> registry_of r' (insert_document conv (reg_index_table r) new (delete_document (reg_index_table r) old D))"
proof -
  let ?t = "reg_index_table r"
  obtain r1 b where r1: "registry_of r1 (delete_document ?t old D)" "reg_index_table r1 = ?t"
    and step: "(case old of Some d \<Rightarrow> (if rd_tablet_id d = ?t
           then and_then (unwrap_document conv d) (\<lambda>m. and_then (registry_remove r m) (\<lambda>r'. Inr (r', True)))
           else Inr (r, False)) | None \<Rightarrow> Inr (r, False)) = Inr (r1, b)"
    and get: "\<And>b n. bt_get (state_map r1 b) n = bt_get (state_map r b) n \<or> bt_get (state_map r1 b) n = None"
    using apply_deletion [OF r cur] by blast
  show ?thesis
  proof (cases "\<exists>d. new = Some d \<and> rd_tablet_id d = ?t")
    case True
    then obtain d where d: "new = Some d" "rd_tablet_id d = ?t" by blast
    then obtain m where m: "from_document conv d = Inr m"
      "existing_is_none_or_equal (bt_get (state_map r (is_enabled (metadata_config m))) (metadata_name m)) m"
      using verify_update_new verified by blast
    have pid: "parsed_id m = rd_id d" by (rule from_document_Inr(1) [OF m(1)])
    have fresh: "delete_document ?t old D (internal_id_of (rd_id d)) = None"
      using cur d verify_update_same [of conv r "the old" d] verified
      by (cases old) (auto simp: current_def delete_document_def)
    have "bt_get (state_map r1 (is_enabled (metadata_config m))) (metadata_name m) = None"
    proof (rule ccontr)
      let ?get = "\<lambda>r. bt_get (state_map r (is_enabled (metadata_config m))) (metadata_name m)"
      assume "?get r1 \<noteq> None"
      then obtain i where i: "?get r1 = Some i" "?get r = Some i"
        using get [of "is_enabled (metadata_config m)" "metadata_name m"] by auto
      then obtain m' where "live (delete_document ?t old D) m'" "i = index_new m'"
        using registry_ofD(6) [OF r1(1)] by blast
      moreover have "index_id i = internal_id_of (rd_id d)"
        using m(2) i(2) by (simp add: existing_is_none_or_equal_def pid)
      ultimately show False using fresh by (simp add: live_def index_new_def)
    qed
    note ins = registry_insert_of [OF r1(1) _ from_document_Inr(2) [OF m(1) conv] this, unfolded pid, OF fresh]
    show ?thesis
      using ins r1(2) m(1) d step by (auto simp: apply_verified_update_def insert_document_def)
  next
    case False
    then show ?thesis
      using r1 step by (auto simp: apply_verified_update_def insert_document_def split: option.splits)
  qed
qed

subsection \<open>The indexes of a table\<close>

lemma takeWhile_table:
  assumes "bt_wf m" "\<And>e. e \<in> set m \<Longrightarrow> t \<le> fst (fst e)"
  shows "takeWhile (\<lambda>e. fst (fst e) = t) m = filter (\<lambda>e. fst (fst e) = t) (m :: (('a::linorder \<times> 'b::linorder) \<times> 'v) list)"
  using assms
proof (induction m)
  case (Cons e m)
  have "fst (fst e) \<le> fst (fst x)" if "x \<in> set m" for x
    using Cons.prems(1) that by (auto simp: bt_wf_Cons less_prod_def)
  then have "filter (\<lambda>e. fst (fst e) = t) m = []" if "fst (fst e) \<noteq> t"
    using that Cons.prems(2) [of e] by (fastforce simp: filter_empty_conv)
  with Cons show ?case by (auto simp: bt_wf_Cons)
qed simp

lemma scan_by_table:
  assumes "registry_of r D"
  shows "takeWhile (\<lambda>e. fst (fst e) = t) (filter (\<lambda>e. (t, descriptor_MIN) \<le> fst e) (reg_indexes_by_table r))
    = filter (\<lambda>e. fst (fst e) = t) (reg_indexes_by_table r)"
proof -
  have wf: "bt_wf (reg_indexes_by_table r)" by (rule registry_ofD [OF assms])
  have "descriptor_MIN \<le> snd (fst e)" if "e \<in> set (reg_indexes_by_table r)" for e
  proof -
    obtain n where n: "fst e = table_key n" using table_key_surj by blast
    with that have "bt_get (reg_indexes_by_table r) (table_key n) \<noteq> None"
      by (auto simp: bt_get_None_iff image_iff intro: bexI [of _ e])
    then obtain m where "live D m" "metadata_name m = n" using registry_ofD(7) [OF assms, of n] by auto
    then show ?thesis
      using registry_ofD(5) [OF assms] n by (auto simp: table_key_def valid_index_name_def intro: descriptor_MIN_least)
  qed
  then have "filter (\<lambda>e. fst (fst e) = t \<and> (t, descriptor_MIN) \<le> fst e) (reg_indexes_by_table r)
      = filter (\<lambda>e. fst (fst e) = t) (reg_indexes_by_table r)"
    by (intro filter_cong) (auto simp: less_eq_prod_def)
  moreover have "takeWhile (\<lambda>e. fst (fst e) = t) (filter (\<lambda>e. (t, descriptor_MIN) \<le> fst e) (reg_indexes_by_table r))
      = filter (\<lambda>e. fst (fst e) = t) (filter (\<lambda>e. (t, descriptor_MIN) \<le> fst e) (reg_indexes_by_table r))"
    using wf by (intro takeWhile_table bt_wf_filter) (auto simp: less_eq_prod_def)
  ultimately show ?thesis by (simp add: conj_commute)
qed

lemma registered_name_eq:
  assumes "valid_index_name (GenericIndexName t d)"
  shows "registered_name t d = Inr (GenericIndexName t d)"
  using assms
  by (auto simp: registered_name_def expect_name_def by_id_def by_creation_time_def valid_index_name_def
      index_name_new_def index_name_new_reserved_def)

text \<open>The indexes that have a name, the enabled one first.\<close>

definition named :: "IndexRegistry \<Rightarrow> TabletIndexName \<Rightarrow> Index list" where
  "named r n = List.map_filter (\<lambda>b. bt_get (state_map r b) n) [True, False]"

lemma indexes_named_eq: "named r n \<noteq> [] \<Longrightarrow> indexes_named r n = Inr (named r n)"
  by (simp add: indexes_named_def named_def state_map_def map_filter_simps Let_def split: option.splits)

lemma named_nonempty:
  assumes "registry_of r D"
  shows "named r n \<noteq> [] \<longleftrightarrow> (\<exists>m. live D m \<and> metadata_name m = n)"
proof
  assume "named r n \<noteq> []"
  then obtain b i where "bt_get (state_map r b) n = Some i"
    by (auto simp: named_def map_filter_simps split: option.splits)
  then show "\<exists>m. live D m \<and> metadata_name m = n" using registry_ofD(6) [OF assms] by blast
next
  assume "\<exists>m. live D m \<and> metadata_name m = n"
  then obtain m where "bt_get (state_map r (is_enabled (metadata_config m))) n = Some (index_new m)"
    using live_get [OF assms] by blast
  then show "named r n \<noteq> []"
    by (cases "is_enabled (metadata_config m)") (auto simp: named_def map_filter_simps split: option.splits)
qed

lemma named_name:
  assumes "registry_of r D" "i \<in> set (named r n)"
  shows "metadata_name (index_metadata i) = n"
proof -
  obtain b where "bt_get (state_map r b) n = Some i"
    using assms(2) by (auto simp: named_def map_filter_simps split: option.splits)
  then show ?thesis using registry_ofD(6) [OF assms(1)] by (auto simp: index_new_def)
qed

definition table_names :: "IndexRegistry \<Rightarrow> tablet_id \<Rightarrow> TabletIndexName list" where
  "table_names r t = map (\<lambda>e. GenericIndexName (fst (fst e)) (snd (fst e)))
     (filter (\<lambda>e. fst (fst e) = t) (reg_indexes_by_table r))"

lemma set_table_names:
  assumes "registry_of r D"
  shows "n \<in> set (table_names r t) \<longleftrightarrow> index_table n = t \<and> (\<exists>m. live D m \<and> metadata_name m = n)"
proof -
  have "n \<in> set (table_names r t) \<longleftrightarrow> index_table n = t \<and> table_key n \<in> fst ` set (reg_indexes_by_table r)"
    by (cases n) (force simp: table_names_def table_key_def image_iff)
  also have "table_key n \<in> fst ` set (reg_indexes_by_table r) \<longleftrightarrow> bt_get (reg_indexes_by_table r) (table_key n) \<noteq> None"
    by (simp add: bt_get_None_iff)
  finally show ?thesis using registry_ofD(7) [OF assms, of n] by auto
qed

lemma distinct_table_names:
  assumes "registry_of r D"
  shows "distinct (table_names r t)"
proof -
  have "distinct (map fst (filter (\<lambda>e. fst (fst e) = t) (reg_indexes_by_table r)))"
    by (rule bt_wf_distinct [OF bt_wf_filter [OF registry_ofD(3) [OF assms]]])
  then show ?thesis
    by (auto simp: table_names_def distinct_map inj_on_def)
qed

lemma indexes_by_table_eq:
  assumes "registry_of r D"
  shows "indexes_by_table r t = Inr (concat (map (named r) (table_names r t)))"
proof -
  have "try_map (\<lambda>e. and_then (registered_name (fst (fst e)) (snd (fst e))) (indexes_named r)) es
      = Inr (map (\<lambda>e. named r (GenericIndexName (fst (fst e)) (snd (fst e)))) es)"
    if "set es \<subseteq> set (reg_indexes_by_table r)" for es
    using that
  proof (induction es)
    case (Cons e es)
    let ?n = "GenericIndexName (fst (fst e)) (snd (fst e))"
    have "bt_get (reg_indexes_by_table r) (table_key ?n) \<noteq> None"
      using Cons.prems by (auto simp: bt_get_None_iff table_key_def image_iff intro: bexI [of _ e])
    then obtain m where "live D m" "metadata_name m = ?n" using registry_ofD(7) [OF assms, of ?n] by auto
    then have "registered_name (fst (fst e)) (snd (fst e)) = Inr ?n" "indexes_named r ?n = Inr (named r ?n)"
      using registry_ofD(5) [OF assms] registered_name_eq indexes_named_eq named_nonempty [OF assms] by metis+
    with Cons show ?case by simp
  qed simp
  note this [of "filter (\<lambda>e. fst (fst e) = t) (reg_indexes_by_table r)"]
  then show ?thesis
    by (simp add: indexes_by_table_def scan_by_table [OF assms] table_names_def o_def)
qed

subsection \<open>The keys of a document in the registry\<close>

lemma text_filter_values_total:
  "\<exists>m. text_filter_values sha256 doc paths = Inr m
    \<and> (\<forall>p v. bt_get m p = Some v \<longleftrightarrow> p \<in> set paths \<and> from_search_value sha256 (get_path (pd_value doc) p) = Inr v)"
proof -
  define fv where "fv = (\<lambda>p. projr (from_search_value sha256 (get_path (pd_value doc) p)))"
  have fv: "from_search_value sha256 (get_path (pd_value doc) p) = Inr (fv p)" for p
    using from_search_value_total [of sha256 "get_path (pd_value doc) p"] by (auto simp: fv_def)
  have "try_map (\<lambda>p. and_then (from_search_value sha256 (open_path (pd_value doc) p)) (\<lambda>v. Inr (p, v))) paths
      = Inr (map (\<lambda>p. (p, fv p)) paths)"
    by (induction paths) (simp_all add: open_path_eq fv)
  moreover have "map_of (rev (map (\<lambda>p. (p, fv p)) paths)) p = (if p \<in> set paths then Some (fv p) else None)" for p
    by (simp add: rev_map map_of_map_restrict)
  ultimately show ?thesis
    using bt.get_fold_insert [of "[]" "map (\<lambda>p. (p, fv p)) paths"]
    by (auto simp: text_filter_values_def fv)
qed

lemma index_key_value_total:
  assumes "valid_document doc"
  shows "\<exists>v. index_key_value sha256 tokenize doc c = Inr v"
proof (cases c)
  case (Database spec st)
  then show ?thesis
    using pd_index_key_total [of doc "db_fields spec"] assms by (auto simp: valid_document_def index_key_value_def)
next
  case (Text spec st)
  then show ?thesis
    using text_filter_values_total [of sha256 doc "text_filter_fields spec"]
    by (auto simp: index_key_value_def text_key_value_def)
qed (simp add: index_key_value_def)

definition key_of :: "(bytes \<Rightarrow> bytes) \<Rightarrow> (bytes \<Rightarrow> SearchValueTokens) \<Rightarrow> PackedDocument \<Rightarrow> Index \<Rightarrow> DocumentIndexKeyValue option" where
  "key_of sha256 tokenize doc i = projr (index_key_value sha256 tokenize doc (metadata_config (index_metadata i)))"

definition latest_key ::
  "(bytes \<Rightarrow> bytes) \<Rightarrow> (bytes \<Rightarrow> SearchValueTokens) \<Rightarrow> PackedDocument \<Rightarrow> TabletIndexName \<Rightarrow> Index list
    \<Rightarrow> DocumentIndexKeyValue option \<Rightarrow> DocumentIndexKeyValue option" where
  "latest_key sha256 tokenize doc n is v = fold (\<lambda>i v. if metadata_name (index_metadata i) = n
     \<and> key_of sha256 tokenize doc i \<noteq> None then key_of sha256 tokenize doc i else v) is v"

lemma collect_keys_total:
  assumes "valid_document doc"
  shows "\<exists>m'. collect_keys sha256 tokenize doc is m = Inr m'
    \<and> (\<forall>n. bt_get m' n = latest_key sha256 tokenize doc n is (bt_get m n))"
proof (induction "is" arbitrary: m)
  case (Cons i "is")
  obtain v where v: "index_key_value sha256 tokenize doc (metadata_config (index_metadata i)) = Inr v"
    using index_key_value_total [OF assms] by blast
  then have k: "key_of sha256 tokenize doc i = v" by (simp add: key_of_def)
  show ?case
    using Cons [of "case v of None \<Rightarrow> m | Some x \<Rightarrow> bt_insert (metadata_name (index_metadata i)) x m"]
    by (auto simp: v k latest_key_def split: option.splits)
qed (simp add: latest_key_def)

lemma latest_key_other:
  assumes "\<And>i. i \<in> set is \<Longrightarrow> metadata_name (index_metadata i) \<noteq> n"
  shows "latest_key sha256 tokenize doc n is v = v"
  using assms by (induction "is" arbitrary: v) (auto simp: latest_key_def)

lemma latest_key_concat:
  assumes "registry_of r D" "distinct ns"
  shows "latest_key sha256 tokenize doc n (concat (map (named r) ns)) v =
    (if n \<in> set ns then latest_key sha256 tokenize doc n (named r n) v else v)"
  using assms(2)
proof (induction ns arbitrary: v)
  case (Cons a ns)
  have app: "latest_key sha256 tokenize doc n (is @ is') v
      = latest_key sha256 tokenize doc n is' (latest_key sha256 tokenize doc n is v)" for "is" is' v
    by (simp add: latest_key_def)
  have "latest_key sha256 tokenize doc n (named r a) v = v" if "a \<noteq> n" for v
    using named_name [OF assms(1)] that by (intro latest_key_other) auto
  then show ?case using Cons by (cases "a = n") (auto simp: app)
qed (simp add: latest_key_def)

text \<open>The key a name stands for: that of its pending index if it has one, else of its enabled index.\<close>

definition visible_key ::
  "(bytes \<Rightarrow> bytes) \<Rightarrow> (bytes \<Rightarrow> SearchValueTokens) \<Rightarrow> IndexRegistry \<Rightarrow> PackedDocument \<Rightarrow> TabletIndexName
    \<Rightarrow> DocumentIndexKeyValue option" where
  "visible_key sha256 tokenize r doc n =
     (case Option.bind (bt_get (pending_indexes r) n) (key_of sha256 tokenize doc) of
        Some v \<Rightarrow> Some v
      | None \<Rightarrow> Option.bind (bt_get (enabled_indexes r) n) (key_of sha256 tokenize doc))"

lemma latest_key_named:
  assumes "registry_of r D"
  shows "latest_key sha256 tokenize doc n (named r n) None = visible_key sha256 tokenize r doc n"
proof -
  have "metadata_name (index_metadata i) = n" if "bt_get (state_map r b) n = Some i" for b i
    using that registry_ofD(6) [OF assms] by (auto simp: index_new_def)
  from this [of True] this [of False] show ?thesis
    by (auto simp: latest_key_def named_def visible_key_def map_filter_simps state_map_def split: option.splits)
qed

definition virtual_index :: "IndexRegistry \<Rightarrow> TabletIndexName \<Rightarrow> bool" where
  "virtual_index r n \<longleftrightarrow> n = GenericIndexName (reg_index_table r) INDEX_BY_TABLE_ID_VIRTUAL_INDEX_DESCRIPTOR"

lemma virtual_index_name:
  "index_name_new t INDEX_BY_TABLE_ID_VIRTUAL_INDEX_DESCRIPTOR
    = Inr (GenericIndexName t INDEX_BY_TABLE_ID_VIRTUAL_INDEX_DESCRIPTOR)"
proof -
  have "check_valid_identifier INDEX_BY_TABLE_ID_VIRTUAL_INDEX_DESCRIPTOR = Inr ()"
    "\<not> is_reserved INDEX_BY_TABLE_ID_VIRTUAL_INDEX_DESCRIPTOR"
    by code_simp+
  then show ?thesis by (simp add: index_name_new_iff valid_index_name_def)
qed

lemma document_index_keys_total:
  assumes r: "registry_of r D" and doc: "valid_document doc"
  shows "\<exists>keys. document_index_keys sha256 tokenize r doc = Inr keys
    \<and> (\<forall>n. index_table n = tablet_id (pd_id doc) \<longrightarrow> document_index_keys_get keys n =
         (if virtual_index r n then Some (Standard (projr (pd_index_key doc [TABLE_ID_FIELD_PATH])))
          else visible_key sha256 tokenize r doc n))"
proof -
  let ?t = "tablet_id (pd_id doc)"
  obtain m where m: "collect_keys sha256 tokenize doc (concat (map (named r) (table_names r ?t))) [] = Inr m"
    and get: "\<And>n. bt_get m n = latest_key sha256 tokenize doc n (concat (map (named r) (table_names r ?t))) None"
    using collect_keys_total [OF doc, of sha256 tokenize "concat (map (named r) (table_names r ?t))" "[]"] by auto
  have vis: "bt_get m n = visible_key sha256 tokenize r doc n" if "index_table n = ?t" for n
  proof (cases "n \<in> set (table_names r ?t)")
    case True
    then show ?thesis
      by (simp add: get latest_key_concat [OF r distinct_table_names [OF r]] latest_key_named [OF r])
  next
    case False
    with that have "named r n = []" using set_table_names [OF r] named_nonempty [OF r] by blast
    then have "visible_key sha256 tokenize r doc n = None"
      using latest_key_named [OF r, of sha256 tokenize doc n] by (simp add: latest_key_def)
    with False show ?thesis by (simp add: get latest_key_concat [OF r distinct_table_names [OF r]])
  qed
  obtain k where k: "pd_index_key doc [TABLE_ID_FIELD_PATH] = Inr k"
    using pd_index_key_total [of doc] doc by (auto simp: valid_document_def)
  show ?thesis
    using vis by (auto simp: document_index_keys_def indexes_by_table_eq [OF r] m virtual_index_name k
        document_index_keys_get_def virtual_index_def)
qed

subsection \<open>Read sets against the keys of the registry\<close>

text \<open>
  Every index of the table that was read is registered, with the fields that were read, and its name
  stands for one spec only.
\<close>

definition only_spec :: "index_documents \<Rightarrow> TabletIndexName \<Rightarrow> IndexConfig \<Rightarrow> bool" where
  "only_spec D n c \<longleftrightarrow> (\<exists>m. live D m \<and> metadata_name m = n)
     \<and> (\<forall>m. live D m \<and> metadata_name m = n \<longrightarrow> same_spec (metadata_config m) c)"

definition index_read_registered :: "IndexRegistry \<Rightarrow> index_documents \<Rightarrow> TabletIndexName \<Rightarrow> IndexReads \<Rightarrow> bool" where
  "index_read_registered r D n ir \<longleftrightarrow>
     (if virtual_index r n then ir_fields ir = [TABLE_ID_FIELD_PATH]
      else only_spec D n (Database (DatabaseIndexSpec (ir_fields ir)) Enabled))"

definition search_read_registered :: "IndexRegistry \<Rightarrow> index_documents \<Rightarrow> TabletIndexName \<Rightarrow> QueryReads \<Rightarrow> bool" where
  "search_read_registered r D n q \<longleftrightarrow> \<not> virtual_index r n
     \<and> (\<exists>spec st. only_spec D n (Text spec st)
          \<and> (\<forall>t \<in> set (text_queries q). tq_field_path t = text_search_field spec)
          \<and> (\<forall>path v. Must path v \<in> set (filter_conditions q) \<longrightarrow> path \<in> set (text_filter_fields spec)))"

definition reads_registered :: "IndexRegistry \<Rightarrow> index_documents \<Rightarrow> tablet_id \<Rightarrow> ReadSet \<Rightarrow> bool" where
  "reads_registered r D t rs \<longleftrightarrow>
     (\<forall>n ir. bt_get (rs_indexed rs) n = Some ir \<and> index_table n = t \<longrightarrow> index_read_registered r D n ir)
     \<and> (\<forall>n q. bt_get (rs_search rs) n = Some q \<and> index_table n = t \<longrightarrow> search_read_registered r D n q)"

lemma only_spec_key:
  assumes r: "registry_of r D" and "only_spec D n c"
    and key: "\<And>c'. same_spec c' c \<Longrightarrow> index_key_value sha256 tokenize doc c' = Inr (Some v)"
  shows "visible_key sha256 tokenize r doc n = Some v"
proof -
  have k: "key_of sha256 tokenize doc i = Some v" if get: "bt_get (state_map r b) n = Some i" for b i
  proof -
    obtain m where "live D m" "i = index_new m" "metadata_name m = n"
      using get registry_ofD(6) [OF r, of b n i] by auto
    with assms(2) key show ?thesis by (simp add: only_spec_def key_of_def index_new_def)
  qed
  obtain m where "live D m" "metadata_name m = n" using assms(2) unfolding only_spec_def by blast
  then have "\<exists>b. bt_get (state_map r b) n \<noteq> None" using live_get [OF r] by blast
  with k [of True] k [of False] show ?thesis
    by (cases "bt_get (pending_indexes r) n"; cases "bt_get (enabled_indexes r) n")
      (auto simp: visible_key_def state_map_def split: if_splits)
qed

lemma index_read_key:
  assumes r: "registry_of r D" and doc: "valid_document doc" and "\<not> virtual_index r n" "index_read_registered r D n ir"
  shows "\<exists>k. pd_index_key doc (ir_fields ir) = Inr k \<and> visible_key sha256 tokenize r doc n = Some (Standard k)"
proof -
  obtain k where k: "pd_index_key doc (ir_fields ir) = Inr k"
    using pd_index_key_total [of doc] doc by (auto simp: valid_document_def)
  have "index_key_value sha256 tokenize doc c' = Inr (Some (Standard k))"
    if "same_spec c' (Database (DatabaseIndexSpec (ir_fields ir)) Enabled)" for c'
    using that k by (cases c') (auto simp: index_key_value_def)
  with assms k only_spec_key [OF r] show ?thesis by (auto simp: index_read_registered_def)
qed

lemma search_read_key:
  assumes r: "registry_of r D" and q: "reads_consistent q" "search_read_registered r D n q"
  shows "\<exists>kv. visible_key sha256 tokenize r doc n = Some (Search kv)
    \<and> query_reads_overlaps_document sha256 tokenize q doc = Inr (overlaps_search_index_key_value q kv)"
proof -
  obtain spec st where spec: "only_spec D n (Text spec st)"
    "\<And>t. t \<in> set (text_queries q) \<Longrightarrow> tq_field_path t = text_search_field spec"
    "\<And>path v. Must path v \<in> set (filter_conditions q) \<Longrightarrow> path \<in> set (text_filter_fields spec)"
    using q(2) unfolding search_read_registered_def by blast
  obtain m where m: "text_filter_values sha256 doc (text_filter_fields spec) = Inr m"
    "\<And>p v. bt_get m p = Some v \<longleftrightarrow> p \<in> set (text_filter_fields spec)
       \<and> from_search_value sha256 (get_path (pd_value doc) p) = Inr v"
    using text_filter_values_total by blast
  define kv where "kv = \<lparr>filter_values = m, search_field = text_search_field spec,
    search_field_value = (case get_path (pd_value doc) (text_search_field spec) of
      Some (String str) \<Rightarrow> Some (tokenize str) | _ \<Rightarrow> None)\<rparr>"
  have "index_key_value sha256 tokenize doc c' = Inr (Some (Search kv))" if "same_spec c' (Text spec st)" for c'
    using that m(1) by (cases c') (auto simp: index_key_value_def text_key_value_def kv_def open_path_eq)
  then have "visible_key sha256 tokenize r doc n = Some (Search kv)" by (rule only_spec_key [OF r spec(1)])
  moreover have "query_reads_overlaps_document sha256 tokenize q doc = Inr (overlaps_search_index_key_value q kv)"
    using spec m(2) by (intro query_reads_overlaps_document_eq q) (auto simp: kv_def)
  ultimately show ?thesis by blast
qed

lemma registry_keys_agree:
  assumes r: "registry_of r D" and doc: "valid_document doc" and rs: "wf_reads rs"
    and reg: "reads_registered r D (tablet_id (pd_id doc)) rs"
  obtains keys where "document_index_keys sha256 tokenize r doc = Inr keys" "keys_agree sha256 tokenize rs doc keys"
proof -
  let ?t = "tablet_id (pd_id doc)"
  obtain keys where keys: "document_index_keys sha256 tokenize r doc = Inr keys"
    "\<And>n. index_table n = ?t \<Longrightarrow> document_index_keys_get keys n =
         (if virtual_index r n then Some (Standard (projr (pd_index_key doc [TABLE_ID_FIELD_PATH])))
          else visible_key sha256 tokenize r doc n)"
    using document_index_keys_total [OF r doc] by blast
  obtain k where k: "pd_index_key doc [TABLE_ID_FIELD_PATH] = Inr k"
    using pd_index_key_total [of doc] doc by (auto simp: valid_document_def)
  have "\<exists>k. document_index_keys_get keys n = Some (Standard k) \<and> pd_index_key doc (ir_fields ir) = Inr k"
    if "bt_get (rs_indexed rs) n = Some ir" "index_table n = ?t" for n ir
  proof -
    have ir: "index_read_registered r D n ir" using reg that unfolding reads_registered_def by blast
    then show ?thesis
      using index_read_key [OF r doc _ ir, of sha256 tokenize] k that(2)
      by (cases "virtual_index r n") (auto simp: keys(2) index_read_registered_def)
  qed
  moreover have "\<exists>kv. document_index_keys_get keys n = Some (Search kv)
      \<and> query_reads_overlaps_document sha256 tokenize q doc = Inr (overlaps_search_index_key_value q kv)"
    if "bt_get (rs_search rs) n = Some q" "index_table n = ?t" for n q
  proof -
    have "search_read_registered r D n q" using reg that unfolding reads_registered_def by blast
    then show ?thesis
      using search_read_key [OF r wf_readsD(6) [OF rs that(1)], of n sha256 tokenize doc] that(2)
      by (auto simp: keys(2) search_read_registered_def)
  qed
  ultimately have "keys_agree sha256 tokenize rs doc keys"
    unfolding keys_agree_def
    using set_iter_indexes [OF wf_readsD(1,3) [OF rs]] set_iter_indexes [OF wf_readsD(2,5) [OF rs]] by fastforce
  with keys(1) that show thesis by blast
qed

lemma registry_of_empty:
  "registry_of \<lparr>reg_index_table = t, reg_index_table_number = k, enabled_indexes = [], pending_indexes = [],
     reg_indexes_by_table = []\<rparr> (\<lambda>_. None)"
  by (simp add: registry_of_def live_def state_map_def)

subsection \<open>Registries of two indexes\<close>

definition empty_registry :: "tablet_id \<Rightarrow> IndexRegistry" where
  "empty_registry t = \<lparr>reg_index_table = t, reg_index_table_number = 1, enabled_indexes = [], pending_indexes = [],
     reg_indexes_by_table = []\<rparr>"

definition registry_with :: "tablet_id \<Rightarrow> ParsedIndexMetadata \<Rightarrow> ParsedIndexMetadata \<Rightarrow> IndexRegistry" where
  "registry_with t m m' = fst (registry_insert (fst (registry_insert (empty_registry t) (index_new m))) (index_new m'))"

lemma registry_of_two:
  assumes "internal_id_of (parsed_id m) \<noteq> internal_id_of (parsed_id m')"
    and "valid_index_name (metadata_name m)" "valid_index_name (metadata_name m')"
    and "metadata_name m \<noteq> metadata_name m' \<or> is_enabled (metadata_config m) \<noteq> is_enabled (metadata_config m')"
  shows "registry_of (registry_with t m m')
      [internal_id_of (parsed_id m) \<mapsto> m, internal_id_of (parsed_id m') \<mapsto> m']"
    and "reg_index_table (registry_with t m m') = t"
proof -
  have e: "registry_of (empty_registry t) (\<lambda>_. None)" "bt_get (state_map (empty_registry t) b) n = None" for b n
    by (simp_all add: empty_registry_def registry_of_empty state_map_def)
  note one = registry_insert_of [OF e(1) refl assms(2) e(2)]
  have "bt_get (state_map (fst (registry_insert (empty_registry t) (index_new m))) (is_enabled (metadata_config m')))
      (metadata_name m') = None"
    using assms(4) by (auto simp: one(3) e(2))
  note two = registry_insert_of [OF one(1) _ assms(3) this]
  from assms(1) two show "registry_of (registry_with t m m')
      [internal_id_of (parsed_id m) \<mapsto> m, internal_id_of (parsed_id m') \<mapsto> m']"
    "reg_index_table (registry_with t m m') = t"
    by (simp_all add: registry_with_def one(2)) (simp add: empty_registry_def)
qed

definition example_metadata :: "byte \<Rightarrow> TabletIndexMetadata \<Rightarrow> ParsedIndexMetadata" where
  "example_metadata i md = \<lparr>parsed_id = \<lparr>tablet_id = [9], developer_id = \<lparr>dev_table = 1, dev_internal_id = replicate 16 i\<rparr>\<rparr>,
     parsed_creation_time = 0, parsed_value = md\<rparr>"

definition example_document :: PackedDocument where
  "example_document = \<lparr>pd_value = object_empty,
     pd_id = \<lparr>tablet_id = [7], developer_id = \<lparr>dev_table = 1, dev_internal_id = replicate 16 3\<rparr>\<rparr>\<rparr>"

lemma example_sel [simp]:
  "internal_id_of (parsed_id (example_metadata i md)) = replicate 16 i" "parsed_value (example_metadata i md) = md"
  "valid_document example_document" "tablet_id (pd_id example_document) = [7]"
  by (simp_all add: example_metadata_def internal_id_of_def example_document_def valid_document_def)

subsection \<open>Properties\<close>

text \<open>
  C7: the index registry is a view of the index table. If it presents the live index documents, and a
  write replaces the live version of a document (or adds a new one), then once the write is verified,
  applying it never panics, and the registry presents the documents after the write: every index
  under its name and state, and every table with its indexes. Writes to other tables leave it as it
  is. The codec of metadata documents is any deserializer followed by the conversion of the code.
\<close>

theorem registry_update_refines:
  assumes "registry_of r D"
    and "current (metadata_codec_of serde parse_id) (reg_index_table r) old new D"
    and "verify_update (metadata_codec_of serde parse_id) r old new = Inr ()"
  shows "\<exists>r'. registry_update (metadata_codec_of serde parse_id) r old new = Inr r'
    \<and> registry_of r' (insert_document (metadata_codec_of serde parse_id) (reg_index_table r) new
         (delete_document (reg_index_table r) old D))"
  using apply_verified_update_of [OF assms(1) valid_codec_of assms(2,3)]
  by (auto simp: registry_update_def assms(3))

theorem registry_update_refines_witness:
  "\<exists>r'. registry_update (metadata_codec_of (\<lambda>_. Inr \<lparr>s_table_id = [7], s_descriptor = INDEX_BY_ID_DESCRIPTOR,
         s_config = SDatabase (SerializedDatabaseIndexSpec []) SEnabled\<rparr>) Inr)
      (registry_with [9] (example_metadata 1 (new_enabled (by_id [9]) [])) (example_metadata 2 (new_enabled (by_id [8]) [])))
      None (Some \<lparr>rd_tablet_id = [9], rd_document = \<lparr>dd_id = \<lparr>dev_table = 1, dev_internal_id = replicate 16 4\<rparr>,
         dd_creation_time = 0, dd_value = object_empty\<rparr>\<rparr>) = Inr r'"
proof -
  let ?conv = "metadata_codec_of (\<lambda>_. Inr \<lparr>s_table_id = [7], s_descriptor = INDEX_BY_ID_DESCRIPTOR,
         s_config = SDatabase (SerializedDatabaseIndexSpec []) SEnabled\<rparr>) Inr"
  let ?a = "example_metadata 1 (new_enabled (by_id [9]) [])" and ?b = "example_metadata 2 (new_enabled (by_id [8]) [])"
  let ?d = "\<lparr>rd_tablet_id = [9], rd_document = \<lparr>dd_id = \<lparr>dev_table = 1, dev_internal_id = replicate 16 4\<rparr>,
         dd_creation_time = 0, dd_value = object_empty\<rparr>\<rparr>"
  have conv: "?conv obj = Inr (new_enabled (by_id [7]) [])" for obj
    by (simp add: metadata_codec_of_def) code_simp
  have r: "registry_of (registry_with [9] ?a ?b) [replicate 16 1 \<mapsto> ?a, replicate 16 2 \<mapsto> ?b]"
    "reg_index_table (registry_with [9] ?a ?b) = [9]"
    using registry_of_two [of ?a ?b "[9]"] by (simp_all add: new_enabled_def by_id_def valid_reserved_names [unfolded by_id_def])
  have "current ?conv (reg_index_table (registry_with [9] ?a ?b)) None (Some ?d) [replicate 16 1 \<mapsto> ?a, replicate 16 2 \<mapsto> ?b]"
    by (simp add: current_def internal_id_of_def rd_id_def)
  moreover have "verify_update ?conv (registry_with [9] ?a ?b) None (Some ?d) = Inr ()"
    by code_simp
  ultimately show ?thesis using registry_update_refines [OF r(1)] by blast
qed

text \<open>
  C13: the write log may keep index keys instead of documents. For a read set whose indexes are
  registered with the fields that were read, under names that stand for one spec, the registry gives
  index keys for every valid document, and checking the keys against the read set reports exactly the
  conflict that checking the document itself reports.
\<close>

theorem index_keys_equivalent:
  assumes "registry_of r D" and "valid_document doc" and "wf_reads rs"
    and "reads_registered r D (tablet_id (pd_id doc)) rs"
  shows "\<exists>keys. document_index_keys sha256 tokenize r doc = Inr keys
    \<and> overlaps_document sha256 tokenize rs doc = Inr (overlaps_index_keys rs (pd_id doc) keys)"
  using registry_keys_agree [OF assms] overlaps_agree by metis

theorem index_keys_equivalent_witness:
  "\<exists>keys c. document_index_keys id (\<lambda>s. [s])
       (registry_with [9] (example_metadata 1 (new_enabled (by_id [7]) [])) (example_metadata 2 (new_enabled (by_id [8]) [])))
       example_document = Inr keys
    \<and> overlaps_document id (\<lambda>s. [s])
        \<lparr>rs_indexed = [(by_id [7], \<lparr>ir_fields = [], ir_intervals = AllKeys, ir_stack_traces = None\<rparr>)], rs_search = []\<rparr>
        example_document = Inr (overlaps_index_keys
          \<lparr>rs_indexed = [(by_id [7], \<lparr>ir_fields = [], ir_intervals = AllKeys, ir_stack_traces = None\<rparr>)], rs_search = []\<rparr>
          (pd_id example_document) keys)"
proof -
  let ?a = "example_metadata 1 (new_enabled (by_id [7]) [])" and ?b = "example_metadata 2 (new_enabled (by_id [8]) [])"
  let ?rs = "\<lparr>rs_indexed = [(by_id [7], \<lparr>ir_fields = [], ir_intervals = AllKeys, ir_stack_traces = None\<rparr>)], rs_search = []\<rparr>"
  let ?D = "[replicate 16 1 \<mapsto> ?a, replicate 16 2 \<mapsto> ?b]"
  have r: "registry_of (registry_with [9] ?a ?b) ?D" "reg_index_table (registry_with [9] ?a ?b) = [9]"
    using registry_of_two [of ?a ?b "[9]"] by (simp_all add: new_enabled_def by_id_def valid_reserved_names [unfolded by_id_def])
  have "wf_reads ?rs" by (simp add: wf_reads_def bt_wf_Cons valid_reserved_names)
  moreover have "only_spec ?D (by_id [7]) (Database (DatabaseIndexSpec []) Enabled)"
    unfolding only_spec_def live_def
    by (auto simp: new_enabled_def by_id_def split: if_splits intro!: exI [of _ ?a])
  then have "reads_registered (registry_with [9] ?a ?b) ?D (tablet_id (pd_id example_document)) ?rs"
    using r(2) by (simp add: reads_registered_def index_read_registered_def virtual_index_def by_id_def)
  ultimately show ?thesis using index_keys_equivalent [OF r(1)] by simp
qed

text \<open>
  C28: a pending index hides the enabled index of the same name. While an index is being replaced by
  one with other fields, both are registered under one name, and the keys of a document have only the
  key of the pending one. A transaction that read the enabled index therefore misses a conflicting
  write when it is checked against index keys: checking the document finds the conflict, checking its
  keys does not.
\<close>

theorem pending_index_hides_enabled:
  assumes "registry_of r D" and "valid_document doc"
    and "live D m" and "metadata_name m = n" and "metadata_config m = Database (DatabaseIndexSpec paths) Enabled"
    and "live D m'" and "metadata_name m' = n" and "metadata_config m' = Database (DatabaseIndexSpec paths') st"
    and "st \<noteq> Enabled"
    and "index_table n = tablet_id (pd_id doc)" and "tablet_id (pd_id doc) \<noteq> reg_index_table r"
    and "pd_index_key doc paths = Inr k" and "iset_contains ivls k"
    and "pd_index_key doc paths' = Inr k'" and "\<not> iset_contains ivls k'"
  shows "\<exists>keys c. document_index_keys sha256 tokenize r doc = Inr keys
    \<and> overlaps_document sha256 tokenize
        \<lparr>rs_indexed = [(n, \<lparr>ir_fields = paths, ir_intervals = ivls, ir_stack_traces = None\<rparr>)], rs_search = []\<rparr> doc
      = Inr (Some c)
    \<and> overlaps_index_keys
        \<lparr>rs_indexed = [(n, \<lparr>ir_fields = paths, ir_intervals = ivls, ir_stack_traces = None\<rparr>)], rs_search = []\<rparr>
        (pd_id doc) keys = None"
proof -
  have "bt_get (pending_indexes r) n = Some (index_new m')"
    using live_get [OF assms(1,6)] assms(7,8,9) by (cases st) (simp_all add: state_map_def)
  then have vis: "visible_key sha256 tokenize r doc n = Some (Standard k')"
    using assms(8,14) by (simp add: visible_key_def key_of_def index_new_def index_key_value_def)
  have "\<not> virtual_index r n" using assms(10,11) by (auto simp: virtual_index_def)
  then obtain keys where keys: "document_index_keys sha256 tokenize r doc = Inr keys"
    "document_index_keys_get keys n = Some (Standard k')"
    using document_index_keys_total [OF assms(1,2), of sha256 tokenize] assms(10) vis by auto
  have iter: "iter_indexes_for_table [(n, x)] (tablet_id (pd_id doc)) = [(n, x)]" for x :: IndexReads
    using iter_indexes_for_table_eq [of "[(n, x)]"] registry_ofD(5) [OF assms(1,3)] assms(4,10)
    by (simp add: bt_wf_Cons)
  show ?thesis
    using assms(12,13,15) keys
    by (simp add: overlaps_document_def overlaps_index_keys_def iter) (simp add: iter_indexes_for_table_def)
qed

theorem pending_index_hides_enabled_witness:
  "\<exists>ivls keys c. document_index_keys id (\<lambda>s. [s])
       (registry_with [9] (example_metadata 1 (new_enabled (by_creation_time [7]) [[ascii ''a'']]))
          (example_metadata 2 (new_backfilling 0 (by_creation_time [7]) []))) example_document = Inr keys
    \<and> overlaps_document id (\<lambda>s. [s]) \<lparr>rs_indexed = [(by_creation_time [7],
        \<lparr>ir_fields = [[ascii ''a'']], ir_intervals = ivls, ir_stack_traces = None\<rparr>)], rs_search = []\<rparr> example_document = Inr (Some c)
    \<and> overlaps_index_keys \<lparr>rs_indexed = [(by_creation_time [7],
        \<lparr>ir_fields = [[ascii ''a'']], ir_intervals = ivls, ir_stack_traces = None\<rparr>)], rs_search = []\<rparr>
        (pd_id example_document) keys = None"
proof -
  let ?a = "example_metadata 1 (new_enabled (by_creation_time [7]) [[ascii ''a'']])"
  let ?b = "example_metadata 2 (new_backfilling 0 (by_creation_time [7]) [])"
  let ?D = "[replicate 16 1 \<mapsto> ?a, replicate 16 2 \<mapsto> ?b]"
  have r: "registry_of (registry_with [9] ?a ?b) ?D" "reg_index_table (registry_with [9] ?a ?b) = [9]"
    using registry_of_two [of ?a ?b "[9]"]
    by (simp_all add: new_enabled_def new_backfilling_def new_backfilling_with_def valid_reserved_names)
  obtain k k' where k: "pd_index_key example_document [[ascii ''a'']] = Inr k" "pd_index_key example_document [] = Inr k'"
    using pd_index_key_total [of example_document "[[ascii ''a'']]"] pd_index_key_total [of example_document "[]"]
      example_sel(3) unfolding valid_document_def by blast
  obtain ivls where ivls: "iset_add iset_new \<lparr>ivl_start = [], ivl_end = Excluded [2]\<rparr> = Inr ivls"
    using iset.add_ok [OF iset.invar_new] by blast
  have c: "iset_contains ivls x \<longleftrightarrow> x < [2]" for x
    using iset.member_add [OF iset.invar_new ivls] by (simp add: iset.member_new ivl_contains_def)
  have "get_path (pd_value example_document) [ascii ''a''] = None" by (simp add: example_document_def) code_simp
  then have "iset_contains ivls k" "\<not> iset_contains ivls k'"
    using k by (auto simp: c pd_index_key_iff optional_bytes_def)
  then show ?thesis
    using pending_index_hides_enabled [OF r(1), of example_document ?a "by_creation_time [7]" "[[ascii ''a'']]" ?b "[]" _ k ivls k'
        id "\<lambda>s. [s]"] k r(2)
    by (simp add: live_def new_enabled_def new_backfilling_def new_backfilling_with_def by_creation_time_def) blast
qed

end
