(* ===== verification/Packed_Value.thy ===== *)
theory Packed_Value
  imports Document_Keys
begin

text \<open>
  Packed values (\<^verbatim>\<open>src/crates/packed_value/src/lib.rs\<close>) and packed documents (\<^verbatim>\<open>PackedDocument\<close> of
  \<^verbatim>\<open>src/crates/common/src/document.rs\<close>): values written into a FlexBuffer, opened lazily, walked by paths, and
  turned into index keys without unpacking them. The crate \<^verbatim>\<open>flexbuffers\<close> is the pair of arguments
  \<open>build\<close> and \<open>root\<close>; what is relied on is that the reader shows what the builder was given, for
  strings in UTF-8 and maps with sorted keys without zero bytes. The other theories work with the contents of packed documents
  (\<open>pd_pack\<close> of \<^verbatim>\<open>Document_Keys\<close>); the theorem here says that this is what the buffers show.
\<close>

subsection \<open>Buffers\<close>

text \<open>What a reader shows of a value: its type, and the value or the readers of its elements.\<close>

datatype Flex =
    FlexNull
  | FlexInt "64 word"
  | FlexIndirectInt "64 word"
  | FlexUInt "64 word"
  | FlexFloat "64 word"
  | FlexIndirectFloat "64 word"
  | FlexBool bool
  | FlexKey bytes
  | FlexString bytes
  | FlexBlob bytes
  | FlexVector "Flex list"
  | FlexMap "(bytes \<times> Flex) list"

text \<open>What packing can give to the builder, and what the builder accepts.\<close>

fun flex_wf :: "Flex \<Rightarrow> bool" where
  "flex_wf (FlexString s) \<longleftrightarrow> utf8_valid s"
| "flex_wf (FlexIndirectInt _) \<longleftrightarrow> False"
| "flex_wf (FlexUInt _) \<longleftrightarrow> False"
| "flex_wf (FlexIndirectFloat _) \<longleftrightarrow> False"
| "flex_wf (FlexKey _) \<longleftrightarrow> False"
| "flex_wf (FlexVector ts) \<longleftrightarrow> (\<forall>t \<in> set ts. flex_wf t)"
| "flex_wf (FlexMap kts) \<longleftrightarrow> bt_wf kts \<and> (\<forall>kt \<in> set kts. 0 \<notin> set (fst kt) \<and> utf8_valid (fst kt) \<and> flex_wf (snd kt))"
| "flex_wf _ \<longleftrightarrow> True"

definition reads_back :: "(Flex \<Rightarrow> 'buf) \<Rightarrow> ('buf \<Rightarrow> error + Flex) \<Rightarrow> bool" where
  "reads_back build root \<longleftrightarrow> (\<forall>t. flex_wf t \<longrightarrow> root (build t) = Inr t)"

subsection \<open>Packing\<close>

text \<open>The values that are pushed to the builder, with the vectors and maps they are in.\<close>

fun pack_value :: "ConvexValue \<Rightarrow> Flex" where
  "pack_value Null = FlexNull"
| "pack_value (Int64 i) = FlexInt i"
| "pack_value (Float64 f) = FlexFloat f"
| "pack_value (Boolean b) = FlexBool b"
| "pack_value (String s) = FlexString s"
| "pack_value (Bytes b) = FlexBlob b"
| "pack_value (Array (ConvexArray _ _ items)) = FlexVector (map pack_value items)"
| "pack_value (Object (ConvexObject _ _ fs)) = FlexMap (map (\<lambda>f. (fst f, pack_value (snd f))) fs)"

definition packed_pack :: "(Flex \<Rightarrow> 'buf) \<Rightarrow> ConvexValue \<Rightarrow> 'buf" where
  "packed_pack build v = build (pack_value v)"

definition pack_object :: "(Flex \<Rightarrow> 'buf) \<Rightarrow> ConvexObject \<Rightarrow> 'buf" where
  "pack_object build ob = build (pack_value (Object ob))"

subsection \<open>Opening\<close>

datatype OpenedValue =
    OpenedNull
  | OpenedInt64 "64 word"
  | OpenedFloat64 "64 word"
  | OpenedBoolean bool
  | OpenedString bytes
  | OpenedBytes bytes
  | OpenedArray "Flex list"
  | OpenedObject "(bytes \<times> Flex) list"

fun opened_new :: "Flex \<Rightarrow> error + OpenedValue" where
  "opened_new FlexNull = Inr OpenedNull"
| "opened_new (FlexInt i) = Inr (OpenedInt64 i)"
| "opened_new (FlexIndirectInt i) = Inr (OpenedInt64 i)"
| "opened_new (FlexFloat f) = Inr (OpenedFloat64 f)"
| "opened_new (FlexIndirectFloat f) = Inr (OpenedFloat64 f)"
| "opened_new (FlexBool b) = Inr (OpenedBoolean b)"
| "opened_new (FlexString s) = Inr (OpenedString s)"
| "opened_new (FlexBlob b) = Inr (OpenedBytes b)"
| "opened_new (FlexMap kts) = Inr (OpenedObject kts)"
| "opened_new (FlexVector ts) = Inr (OpenedArray ts)"
| "opened_new _ = Inl (Bail ''Unexpected buffer type'')"

definition opened_get :: "(bytes \<times> Flex) list \<Rightarrow> field_name \<Rightarrow> error + OpenedValue option" where
  "opened_get kts f = (case bt_get kts f of None \<Rightarrow> Inr None | Some t \<Rightarrow> and_then (opened_new t) (\<lambda>o'. Inr (Some o')))"

definition expect :: "string \<Rightarrow> error + 'a \<Rightarrow> error + 'a" where
  "expect msg r = (case r of Inl _ \<Rightarrow> Inl (Panic msg) | Inr x \<Rightarrow> Inr x)"

definition packed_open :: "('buf \<Rightarrow> error + Flex) \<Rightarrow> 'buf \<Rightarrow> error + OpenedValue" where
  "packed_open root buf = and_then (root buf) opened_new"

fun open_fields :: "OpenedValue \<Rightarrow> field_name list \<Rightarrow> error + OpenedValue option" where
  "open_fields v [] = Inr (Some v)"
| "open_fields v (f # fs) = (case v of
     OpenedObject kts \<Rightarrow> and_then (expect ''failed to open packed object'' (opened_get kts f))
       (\<lambda>r. case r of None \<Rightarrow> Inr None | Some v' \<Rightarrow> open_fields v' fs)
   | _ \<Rightarrow> Inr None)"

definition packed_open_path :: "('buf \<Rightarrow> error + Flex) \<Rightarrow> 'buf \<Rightarrow> field_path \<Rightarrow> error + OpenedValue option" where
  "packed_open_path root buf path =
     (if path = [] then Inr None
      else and_then (expect ''failed to open packed value'' (packed_open root buf)) (\<lambda>v. open_fields v path))"

subsection \<open>Unpacking and sort keys\<close>

text \<open>
  Both walk an opened value and open the elements on the way. The recursion ends because an opened
  value is no larger than what it was opened from.
\<close>

fun opened_size :: "OpenedValue \<Rightarrow> nat" where
  "opened_size (OpenedArray ts) = size (FlexVector ts)"
| "opened_size (OpenedObject kts) = size (FlexMap kts)"
| "opened_size _ = 0"

lemma opened_new_size: "opened_new t = Inr v \<Longrightarrow> opened_size v \<le> size t"
  by (cases t) auto

declare and_then_fundef_cong [fundef_cong]

function (sequential) opened_value :: "OpenedValue \<Rightarrow> error + ConvexValue"
and opened_values :: "Flex list \<Rightarrow> error + ConvexValue list"
and opened_entries :: "fields \<Rightarrow> (bytes \<times> Flex) list \<Rightarrow> error + fields" where
  "opened_value OpenedNull = Inr Null"
| "opened_value (OpenedInt64 i) = Inr (Int64 i)"
| "opened_value (OpenedFloat64 f) = Inr (Float64 f)"
| "opened_value (OpenedBoolean b) = Inr (Boolean b)"
| "opened_value (OpenedString s) = and_then (string_try_from s) (\<lambda>s'. Inr (String s'))"
| "opened_value (OpenedBytes b) = and_then (bytes_try_from b) (\<lambda>b'. Inr (Bytes b'))"
| "opened_value (OpenedArray ts) = and_then (opened_values ts) (\<lambda>vs. and_then (array_try_from vs) (\<lambda>a. Inr (Array a)))"
| "opened_value (OpenedObject kts) =
     and_then (opened_entries [] kts) (\<lambda>fs. and_then (object_try_from fs) (\<lambda>m. Inr (Object m)))"
| "opened_values [] = Inr []"
| "opened_values (t # ts) = and_then (opened_new t) (\<lambda>v. and_then (opened_value v)
     (\<lambda>x. and_then (opened_values ts) (\<lambda>xs. Inr (x # xs))))"
| "opened_entries acc [] = Inr acc"
| "opened_entries acc ((k, t) # kts) = and_then (opened_new t) (\<lambda>v. and_then (field_name_from_str k)
     (\<lambda>f. and_then (opened_value v) (\<lambda>x. opened_entries (bt_insert f x acc) kts)))"
  by pat_completeness auto
termination
  by (relation "measure (case_sum (\<lambda>v. 2 * opened_size v) (case_sum (\<lambda>ts. 2 * size_list size ts + 1)
        (\<lambda>(acc, kts). 2 * size_list (size_prod (\<lambda>_. 0) size) kts + 1)))")
    (auto dest: opened_new_size)

function (sequential) write_opened :: "OpenedValue \<Rightarrow> error + bytes"
and write_opened_elements :: "Flex list \<Rightarrow> error + bytes"
and write_opened_pairs :: "(bytes \<times> Flex) list \<Rightarrow> error + bytes" where
  "write_opened OpenedNull = Inr [NULL_TAG]"
| "write_opened (OpenedInt64 i) = (if i = 0 then Inr [ZERO_INT64_TAG] else write_tagged_int i)"
| "write_opened (OpenedFloat64 f) = Inr (FLOAT64_TAG # to_be_bytes (float_key f))"
| "write_opened (OpenedBoolean b) = Inr [if b then TRUE_BOOLEAN_TAG else FALSE_BOOLEAN_TAG]"
| "write_opened (OpenedString s) = Inr (STRING_TAG # write_escaped_bytes s)"
| "write_opened (OpenedBytes b) = Inr (BYTES_TAG # write_escaped_bytes b)"
| "write_opened (OpenedArray ts) =
     and_then (write_opened_elements ts) (\<lambda>out. Inr (ARRAY_TAG # out @ [TERMINATOR_BYTE]))"
| "write_opened (OpenedObject kts) =
     and_then (write_opened_pairs kts) (\<lambda>out. Inr (OBJECT_TAG # out @ [TERMINATOR_BYTE]))"
| "write_opened_elements [] = Inr []"
| "write_opened_elements (t # ts) = and_then (opened_new t) (\<lambda>v. and_then (write_opened v)
     (\<lambda>k. and_then (write_opened_elements ts) (\<lambda>ks. Inr (k @ ks))))"
| "write_opened_pairs [] = Inr []"
| "write_opened_pairs ((field, t) # kts) = and_then (opened_new t) (\<lambda>v. and_then (write_opened v)
     (\<lambda>k. and_then (write_opened_pairs kts) (\<lambda>ks. Inr (write_escaped_bytes field @ k @ ks))))"
  by pat_completeness auto
termination
  by (relation "measure (case_sum (\<lambda>v. 2 * opened_size v) (case_sum (\<lambda>ts. 2 * size_list size ts + 1)
        (\<lambda>kts. 2 * size_list (size_prod (\<lambda>_. 0) size) kts + 1)))")
    (auto dest: opened_new_size)

declare and_then_fundef_cong [fundef_cong del]

definition packed_get_path :: "('buf \<Rightarrow> error + Flex) \<Rightarrow> 'buf \<Rightarrow> field_path \<Rightarrow> error + ConvexValue option" where
  "packed_get_path root buf path = and_then (packed_open_path root buf path) (\<lambda>r. case r of
       None \<Rightarrow> Inr None
     | Some v \<Rightarrow> expect ''failed to unpack opened value'' (and_then (opened_value v) (\<lambda>x. Inr (Some x))))"

definition unpack_value :: "('buf \<Rightarrow> error + Flex) \<Rightarrow> 'buf \<Rightarrow> error + ConvexValue" where
  "unpack_value root buf = and_then (packed_open root buf) opened_value"

subsection \<open>Packed documents\<close>

definition document_pack :: "(Flex \<Rightarrow> 'buf) \<Rightarrow> ResolvedDocument \<Rightarrow> 'buf \<times> ResolvedDocumentId" where
  "document_pack build d = (pack_object build (dd_value (rd_document d)), rd_id d)"

fun write_packed_values :: "('buf \<Rightarrow> error + Flex) \<Rightarrow> 'buf \<Rightarrow> field_path list \<Rightarrow> bytes \<Rightarrow> error + bytes" where
  "write_packed_values root buf [] out = Inr out"
| "write_packed_values root buf (path # paths) out =
     and_then (packed_open_path root buf path) (\<lambda>v.
       and_then (expect ''failed to unpack opened value'' (case v of Some v' \<Rightarrow> write_opened v' | None \<Rightarrow> Inr [UNDEFINED_TAG]))
         (\<lambda>k. write_packed_values root buf paths (out @ k)))"

definition document_index_key ::
  "('buf \<Rightarrow> error + Flex) \<Rightarrow> 'buf \<times> ResolvedDocumentId \<Rightarrow> field_path list \<Rightarrow> error + IndexKeyBytes" where
  "document_index_key root d paths =
     and_then (write_packed_values root (fst d) paths [])
       (\<lambda>out. and_then (id_encode (developer_id (snd d)))
          (\<lambda>s. and_then (write_sort_key (String s)) (\<lambda>k. Inr (out @ k))))"

subsection \<open>What the buffers show\<close>

definition opened_of :: "ConvexValue \<Rightarrow> OpenedValue" where
  "opened_of v = projr (opened_new (pack_value v))"

lemma opened_of_simps [simp]:
  "opened_of Null = OpenedNull" "opened_of (Int64 i) = OpenedInt64 i" "opened_of (Float64 f) = OpenedFloat64 f"
  "opened_of (Boolean b) = OpenedBoolean b" "opened_of (String s) = OpenedString s" "opened_of (Bytes c) = OpenedBytes c"
  "opened_of (Array (ConvexArray sz n items)) = OpenedArray (map pack_value items)"
  "opened_of (Object (ConvexObject sz n fs)) = OpenedObject (map (\<lambda>f. (fst f, pack_value (snd f))) fs)"
  by (simp_all add: opened_of_def)

lemma opened_new_pack [simp]: "opened_new (pack_value v) = Inr (opened_of v)"
  by (induction v rule: value_induct) simp_all

lemma write_opened_elements_eq:
  "(\<And>v. v \<in> set vs \<Longrightarrow> write_opened (opened_of v) = write_sort_key v)
    \<Longrightarrow> write_opened_elements (map pack_value vs) = write_elements vs"
  by (induction vs) simp_all

lemma write_opened_pairs_eq:
  "(\<And>f. f \<in> set fs \<Longrightarrow> write_opened (opened_of (snd f)) = write_sort_key (snd f))
    \<Longrightarrow> write_opened_pairs (map (\<lambda>f. (fst f, pack_value (snd f))) fs) = write_pairs fs"
  by (induction fs) auto

lemma write_opened_of [simp]: "write_opened (opened_of v) = write_sort_key v"
proof (induction v rule: value_induct)
  case (Array sz n items)
  then show ?case using write_opened_elements_eq [of items] by (simp del: write_sort_key_bytes add: write_sort_key.simps)
next
  case (Object sz n fs)
  then show ?case using write_opened_pairs_eq [of fs] by (simp del: write_sort_key_bytes add: write_sort_key.simps)
qed (simp_all del: write_sort_key_bytes add: write_sort_key.simps)

lemma opened_values_eq:
  "(\<And>v. v \<in> set vs \<Longrightarrow> opened_value (opened_of v) = Inr v) \<Longrightarrow> opened_values (map pack_value vs) = Inr vs"
  by (induction vs) simp_all

lemma opened_entries_eq:
  assumes "\<And>f. f \<in> set fs \<Longrightarrow> check_valid_field_name (fst f) = Inr () \<and> opened_value (opened_of (snd f)) = Inr (snd f)"
    and "bt_wf (acc @ fs)"
  shows "opened_entries acc (map (\<lambda>f. (fst f, pack_value (snd f))) fs) = Inr (acc @ fs)"
  using assms
proof (induction fs arbitrary: acc)
  case (Cons f fs)
  obtain k v where f: "f = (k, v)" by (cases f)
  have "bt_insert k v acc = acc @ [(k, v)]" using Cons.prems(2) f by (intro bt_insert_last) simp
  moreover have "opened_entries (acc @ [(k, v)]) (map (\<lambda>f. (fst f, pack_value (snd f))) fs) = Inr ((acc @ [(k, v)]) @ fs)"
    using Cons.prems f by (intro Cons.IH) auto
  moreover have "field_name_from_str k = Inr k" "opened_value (opened_of v) = Inr v"
    using Cons.prems(1) [of f] f by (simp_all add: field_name_from_str_def)
  ultimately show ?case by (simp add: f)
qed simp

lemma opened_value_of: "wf_value v \<Longrightarrow> opened_value (opened_of v) = Inr v"
proof (induction v rule: value_induct)
  case (Array sz n items)
  then show ?case using opened_values_eq [of items] by simp
next
  case (Object sz n fs)
  then show ?case using opened_entries_eq [of fs "[]"] by simp
qed (simp_all add: and_then_Inr_iff)

lemma bt_get_pack: "bt_get (map (\<lambda>f. (fst f, pack_value (snd f))) fs) k = map_option pack_value (bt_get fs k)"
  by (induction fs) (auto simp: bt_get_def)

lemma open_fields_of: "open_fields (opened_of v) fs = Inr (map_option opened_of (get_path_loop v fs))"
proof (induction fs arbitrary: v)
  case (Cons f fs)
  show ?case
  proof (cases v)
    case (Object ob)
    obtain sz n kvs where "ob = ConvexObject sz n kvs" by (cases ob)
    with Object Cons show ?thesis by (auto simp: opened_get_def bt_get_pack expect_def split: option.splits)
  next
    case (Array a)
    then show ?thesis by (cases a) simp
  qed simp_all
qed simp

lemma flex_wf_pack: "wf_value v \<Longrightarrow> flex_wf (pack_value v)"
proof (induction v rule: value_induct)
  case (Object sz n fs)
  have "0 \<notin> set (fst f)" if f: "f \<in> set fs" for f
  proof
    assume "0 \<in> set (fst f)"
    moreover have "\<forall>c \<in> set (fst f). 32 \<le> c" using Object.prems f by (simp add: check_valid_field_name_iff)
    ultimately have "(32 :: byte) \<le> 0" by blast
    then show False by simp
  qed
  moreover have "utf8_valid (fst f)" if "f \<in> set fs" for f
    using Object.prems that by (auto intro: field_name_utf8)
  ultimately show ?case using Object by (auto simp: bt_wf_def comp_def)
qed simp_all

lemma packed_open_pack:
  "reads_back build root \<Longrightarrow> wf_value (Object ob) \<Longrightarrow> packed_open root (pack_object build ob) = Inr (opened_of (Object ob))"
  by (simp add: reads_back_def packed_open_def pack_object_def flex_wf_pack)

lemma packed_open_path_pack:
  assumes "reads_back build root" "wf_value (Object ob)"
  shows "packed_open_path root (pack_object build ob) path = Inr (map_option opened_of (get_path ob path))"
proof (cases path)
  case (Cons f fs)
  have "get_path ob path = get_path_loop (Object ob) path" by (simp add: Cons)
  with Cons show ?thesis
    by (simp add: packed_open_path_def packed_open_pack [OF assms] expect_def open_fields_of del: open_fields.simps get_path.simps)
qed (simp add: packed_open_path_def)

lemma write_packed_values_pack:
  assumes "reads_back build root" "wf_value (Object ob)"
  shows "write_packed_values root (pack_object build ob) paths out = write_index_values ob paths out"
proof (induction paths arbitrary: out)
  case (Cons p paths)
  then show ?case
    by (cases "get_path ob p") (simp_all add: packed_open_path_pack [OF assms] expect_def open_path_eq)
qed simp

lemma wf_get_path:
  assumes "wf_value (Object ob)" "get_path ob path = Some v"
  shows "wf_value v"
proof -
  have "wf_value v" if "wf_value u" "get_path_loop u fs = Some v" for u fs
    using that
  proof (induction u fs rule: get_path_loop.induct)
    case (2 ob f fs)
    obtain sz n kvs where ob: "ob = ConvexObject sz n kvs" by (cases ob)
    then obtain w where w: "bt_get kvs f = Some w" "get_path_loop w fs = Some v"
      using 2(3) by (auto split: option.splits)
    then have "wf_value w" using 2(2) ob by (auto simp: bt_get_def dest!: map_of_SomeD)
    with 2 w ob show ?case by simp
  qed simp_all
  moreover obtain f fs where "path = f # fs" using assms(2) by (cases path) auto
  then have "get_path_loop (Object ob) path = Some v" using assms(2) by simp
  ultimately show ?thesis using assms(1) by blast
qed

subsection \<open>Properties\<close>

text \<open>
  C31: packed documents are faithful. For any FlexBuffers builder and reader such that the reader shows
  what the builder was given (strings in UTF-8, and maps with sorted keys without zero bytes), and any document whose value
  is well-formed and whose internal id has sixteen bytes, nothing panics on the packed document:
  unpacking it gives the value back, opening a path in it and unpacking what is there gives what the
  path gives in the unpacked document, and the index key written from the opened values is the bytes
  of the index key of the unpacked document. This is also the key of the contents of the packed
  document, with which the other theories work.
\<close>

theorem packed_document_faithful:
  assumes "reads_back build root"
    and "wf_value (Object (dd_value (rd_document d)))" and "length (dev_internal_id (dd_id (rd_document d))) = 16"
  shows "unpack_value root (fst (document_pack build d)) = Inr (Object (dd_value (rd_document d)))
    \<and> packed_get_path root (fst (document_pack build d)) path = Inr (get_path (dd_value (rd_document d)) path)
    \<and> (\<exists>k. document_index_key root (document_pack build d) paths = Inr k
         \<and> and_then (rd_index_key d paths) index_key_to_bytes = Inr k \<and> pd_index_key (pd_pack d) paths = Inr k)"
proof (intro conjI)
  let ?ob = "dd_value (rd_document d)"
  show "unpack_value root (fst (document_pack build d)) = Inr (Object ?ob)"
    using assms by (simp add: unpack_value_def document_pack_def packed_open_pack opened_value_of del: wf_value.simps)
  show "packed_get_path root (fst (document_pack build d)) path = Inr (get_path ?ob path)"
    using assms wf_get_path [OF assms(2), of path]
    by (cases "get_path ?ob path")
      (simp_all add: packed_get_path_def document_pack_def packed_open_path_pack expect_def opened_value_of)
  have "document_index_key root (document_pack build d) paths = pd_index_key (pd_pack d) paths"
    by (simp add: document_index_key_def pd_index_key_def document_pack_def pd_pack_def write_packed_values_pack [OF assms(1,2)])
  then show "\<exists>k. document_index_key root (document_pack build d) paths = Inr k
      \<and> and_then (rd_index_key d paths) index_key_to_bytes = Inr k \<and> pd_index_key (pd_pack d) paths = Inr k"
    using pd_index_key_bytes [OF assms(3), of paths] by auto
qed

theorem packed_document_faithful_witness:
  "\<exists>k. document_index_key Inr (document_pack id \<lparr>rd_tablet_id = [], rd_document = \<lparr>dd_id = \<lparr>dev_table = 1,
       dev_internal_id = replicate 16 3\<rparr>, dd_creation_time = 0,
       dd_value = ConvexObject 13 1 [(ascii ''a'', Int64 5)]\<rparr>\<rparr>) [[ascii ''a'']] = Inr k"
proof -
  have w: "wf_value (Object (ConvexObject 13 1 [(ascii ''a'', Int64 5)]))"
    by (simp add: object_try_from_iff max_nesting_def MAX_SIZE_def MAX_NESTING_def MAX_OBJECT_FIELDS_def
        bt_wf_Cons check_valid_field_name_iff ascii_def MAX_FIELD_NAME_LENGTH_def)
  have "reads_back id Inr" by (simp add: reads_back_def)
  from packed_document_faithful [OF this, of "\<lparr>rd_tablet_id = [], rd_document = \<lparr>dd_id = \<lparr>dev_table = 1,
      dev_internal_id = replicate 16 3\<rparr>, dd_creation_time = 0, dd_value = ConvexObject 13 1 [(ascii ''a'', Int64 5)]\<rparr>\<rparr>"
      "[]" "[[ascii ''a'']]"] w
  show ?thesis by auto
qed

end
