(* ===== verification/Write_Log.thy ===== *)
theory Write_Log
  imports Index_Registry "HOL-Library.Multiset"
begin

text \<open>
  The write log (\<^verbatim>\<open>src/crates/database/src/write_log.rs\<close>): the recent commits as index keys, with the
  conflict check of optimistic concurrency control, the refresh of read tokens
  (\<^verbatim>\<open>src/crates/database/src/token.rs\<close>), the waiters for new commits and the retention policy; and the
  commits that are still being written. The mutex around the log is the order of the operations. A
  waiter's channel is a number, and whether its receiver is gone is an argument, as are the heap size
  of the log and the knobs. The snapshot of a pending write is a type parameter, and its update an
  argument that takes the packed update.
\<close>

subsection \<open>Tokens\<close>

record Token =
  token_reads :: ReadSet
  token_ts :: Timestamp

definition token_new :: "ReadSet \<Rightarrow> Timestamp \<Rightarrow> Token" where
  "token_new reads ts = \<lparr>token_reads = reads, token_ts = ts\<rparr>"

definition token_empty :: "Timestamp \<Rightarrow> Token" where
  "token_empty ts = \<lparr>token_reads = read_set_empty, token_ts = ts\<rparr>"

definition advance_ts :: "Token \<Rightarrow> Timestamp \<Rightarrow> error + Token" where
  "advance_ts token ts = (if token_ts token < ts then Inr (token\<lparr>token_ts := ts\<rparr>)
     else Inl (Panic ''assertion failed: self.ts < ts''))"

subsection \<open>From documents to index keys\<close>

definition update_pack :: "ResolvedDocumentId \<Rightarrow> ResolvedDocument option \<Rightarrow> ResolvedDocument option \<Rightarrow> PackedDocumentUpdate" where
  "update_pack i old new = \<lparr>pdu_id = i, pdu_old_document = map_option pd_pack old, pdu_new_document = map_option pd_pack new\<rparr>"

definition from_document_update ::
  "(bytes \<Rightarrow> bytes) \<Rightarrow> (bytes \<Rightarrow> SearchValueTokens) \<Rightarrow> IndexRegistry \<Rightarrow> PackedDocumentUpdate \<Rightarrow> error + DocumentIndexKeysUpdate" where
  "from_document_update sha256 tokenize r full =
     and_then (try_option (document_index_keys sha256 tokenize r) (pdu_old_document full)) (\<lambda>old.
     and_then (try_option (document_index_keys sha256 tokenize r) (pdu_new_document full)) (\<lambda>new.
     Inr \<lparr>iku_id = pdu_id full, iku_old_document_keys = old, iku_new_document_keys = new\<rparr>))"

text \<open>
  The tablets whose documents the log keeps: those whose table document, parsed by the generated
  codec (an argument giving the table's name), names a refreshable table.
\<close>

definition add_refreshable ::
  "(ConvexObject \<Rightarrow> error + bytes) \<Rightarrow> tablet_id \<Rightarrow> bytes set \<Rightarrow> ResolvedDocumentId \<Rightarrow> PackedDocumentUpdate
    \<Rightarrow> tablet_id set \<Rightarrow> tablet_id set" where
  "add_refreshable table_name tables_tablet refreshable_tables i u tablets =
     (if tablet_id i = tables_tablet then
        (case pdu_new_document u of
           Some doc \<Rightarrow> (case table_name (pd_value doc) of
               Inr name \<Rightarrow> if name \<in> refreshable_tables then insert (internal_id_of i) tablets else tablets
             | Inl _ \<Rightarrow> tablets)
         | None \<Rightarrow> tablets)
      else tablets)"

fun index_keys_from_full_documents ::
  "(bytes \<Rightarrow> bytes) \<Rightarrow> (bytes \<Rightarrow> SearchValueTokens) \<Rightarrow> (ConvexObject \<Rightarrow> error + bytes) \<Rightarrow> IndexRegistry \<Rightarrow> tablet_id \<Rightarrow> bytes set
    \<Rightarrow> OrderedDocumentWrites \<Rightarrow> tablet_id set \<Rightarrow> error + OrderedIndexKeyWrites \<times> tablet_id set" where
  "index_keys_from_full_documents sha256 tokenize table_name r tt rt [] tablets = Inr ([], tablets)"
| "index_keys_from_full_documents sha256 tokenize table_name r tt rt ((i, u) # us) tablets =
     (let tablets' = add_refreshable table_name tt rt i u tablets
      in and_then (from_document_update sha256 tokenize r u) (\<lambda>k.
         and_then (index_keys_from_full_documents sha256 tokenize table_name r tt rt us tablets') (\<lambda>(ks, tablets'').
         Inr ((i, k, if tablet_id i \<in> tablets' then Some (RefreshableTabletUpdate (pdu_new_document u)) else None) # ks,
              tablets''))))"

subsection \<open>The log\<close>

type_synonym log_entry = "Timestamp \<times> OrderedIndexKeyWrites \<times> WriteSource"

record WriteLog =
  by_ts :: "log_entry list"
  purged_ts :: Timestamp

definition write_log_new :: "Timestamp \<Rightarrow> WriteLog" where
  "write_log_new ts = \<lparr>by_ts = [], purged_ts = ts\<rparr>"

definition log_max_ts :: "WriteLog \<Rightarrow> Timestamp" where
  "log_max_ts log = (if by_ts log = [] then purged_ts log else fst (last (by_ts log)))"

text \<open>Binary search for a key in a sorted vector: where it is, or where it belongs.\<close>

function binary_search :: "('k::linorder) list \<Rightarrow> 'k \<Rightarrow> nat \<Rightarrow> nat \<Rightarrow> nat + nat" where
  "binary_search ks k lo hi =
     (if lo < hi then
        (let mid = lo + (hi - lo) div 2 in
         if ks ! mid = k then Inl mid
         else if ks ! mid < k then binary_search ks k (mid + 1) hi
         else binary_search ks k lo mid)
      else Inr lo)"
  by pat_completeness auto
termination by (relation "measure (\<lambda>(ks, k, lo, hi). hi - lo)") auto

definition log_iter :: "WriteLog \<Rightarrow> Timestamp \<Rightarrow> Timestamp \<Rightarrow> error + log_entry list" where
  "log_iter log from to_ts =
     (if from \<le> purged_ts log then Inl (OutOfRetention)
      else let start = (case binary_search (map fst (by_ts log)) from 0 (length (by_ts log)) of Inl i \<Rightarrow> i | Inr i \<Rightarrow> i)
           in Inr (takeWhile (\<lambda>e. fst e \<le> to_ts) (drop start (by_ts log))))"

definition log_is_stale ::
  "WriteLog \<Rightarrow> ReadSet \<Rightarrow> Timestamp \<Rightarrow> Timestamp \<Rightarrow> error + ConflictingReadWithWriteSource option" where
  "log_is_stale log reads reads_ts ts =
     and_then (ts_succ reads_ts) (\<lambda>from. and_then (log_iter log from ts) (\<lambda>es. Inr (writes_overlap_index_keys reads es)))"

text \<open>A token that cannot be refreshed gives the timestamp of the conflicting write, if known.\<close>

definition log_refresh_token :: "WriteLog \<Rightarrow> Token \<Rightarrow> Timestamp \<Rightarrow> error + (Timestamp option + Token)" where
  "log_refresh_token log token ts =
     (case log_is_stale log (token_reads token) (token_ts token) ts of
        Inr (Some conflict) \<Rightarrow> Inr (Inl (Some (crw_write_ts conflict)))
      | Inl OutOfRetention \<Rightarrow> Inr (Inl None)
      | Inl e \<Rightarrow> Inl e
      | Inr None \<Rightarrow> if token_ts token < ts then and_then (advance_ts token ts) (\<lambda>t. Inr (Inr t)) else Inr (Inr token))"

subsection \<open>The manager of the log\<close>

record WriteLogManager =
  mgr_log :: WriteLog
  mgr_waiters :: "(Timestamp \<times> nat) list"

definition manager_new :: "Timestamp \<Rightarrow> WriteLogManager" where
  "manager_new ts = \<lparr>mgr_log = write_log_new ts, mgr_waiters = []\<rparr>"

definition swap_remove_back :: "'a list \<Rightarrow> nat \<Rightarrow> 'a list" where
  "swap_remove_back xs i = butlast (xs[i := last xs])"

function notify_loop ::
  "Timestamp \<Rightarrow> (nat \<Rightarrow> bool) \<Rightarrow> nat \<Rightarrow> (Timestamp \<times> nat) list \<Rightarrow> nat list \<Rightarrow> (Timestamp \<times> nat) list \<times> nat list" where
  "notify_loop ts closed i ws sent =
     (if i < length ws then
        (if ts > fst (ws ! i) \<or> closed (snd (ws ! i))
         then notify_loop ts closed i (swap_remove_back ws i) (sent @ [snd (ws ! i)])
         else notify_loop ts closed (i + 1) ws sent)
      else (ws, sent))"
  by pat_completeness auto
termination
  by (relation "measure (\<lambda>(_, _, i, ws, _). 2 * length ws - i)") (auto simp: swap_remove_back_def)

text \<open>Notifying returns the channels that were sent to.\<close>

definition notify_waiters :: "(nat \<Rightarrow> bool) \<Rightarrow> WriteLogManager \<Rightarrow> WriteLogManager \<times> nat list" where
  "notify_waiters closed mgr =
     (let (ws, sent) = notify_loop (log_max_ts (mgr_log mgr)) closed 0 (mgr_waiters mgr) []
      in (mgr\<lparr>mgr_waiters := ws\<rparr>, sent))"

definition log_append ::
  "(nat \<Rightarrow> bool) \<Rightarrow> WriteLogManager \<Rightarrow> Timestamp \<Rightarrow> OrderedIndexKeyWrites \<Rightarrow> WriteSource
    \<Rightarrow> error + WriteLogManager \<times> nat list" where
  "log_append closed mgr ts writes source =
     (if log_max_ts (mgr_log mgr) < ts
      then Inr (notify_waiters closed (mgr\<lparr>mgr_log := (mgr_log mgr)\<lparr>by_ts := by_ts (mgr_log mgr) @ [(ts, writes, source)]\<rparr>\<rparr>))
      else Inl (Panic ''assertion failed: self.log.max_ts() < ts''))"

text \<open>Waiting registers the given new channel, unless the log is already past the timestamp.\<close>

definition mgr_wait_for_higher_ts ::
  "(nat \<Rightarrow> bool) \<Rightarrow> WriteLogManager \<Rightarrow> Timestamp \<Rightarrow> nat \<Rightarrow> WriteLogManager \<times> nat list \<times> nat option" where
  "mgr_wait_for_higher_ts closed mgr target channel =
     (let (mgr', sent) = notify_waiters closed mgr
      in if log_max_ts (mgr_log mgr') \<le> target
         then (mgr'\<lparr>mgr_waiters := mgr_waiters mgr' @ [(target, channel)]\<rparr>, sent, Some channel)
         else (mgr', sent, None))"

record RetentionKnobs =
  WRITE_LOG_MIN_RETENTION :: Duration
  WRITE_LOG_MAX_RETENTION :: Duration
  WRITE_LOG_SOFT_MAX_SIZE_BYTES :: nat

fun retention_loop ::
  "(log_entry list \<Rightarrow> nat) \<Rightarrow> nat \<Rightarrow> Timestamp \<Rightarrow> Timestamp \<Rightarrow> log_entry list \<Rightarrow> Timestamp \<Rightarrow> log_entry list \<times> Timestamp" where
  "retention_loop heap_size limit max_ts target_ts [] purged = ([], purged)"
| "retention_loop heap_size limit max_ts target_ts (e # es) purged =
     (if fst e \<ge> max_ts then (e # es, purged)
      else if fst e \<ge> target_ts \<and> heap_size (e # es) < limit then (e # es, purged)
      else retention_loop heap_size limit max_ts target_ts es (fst e))"

definition sub_or_min :: "Timestamp \<Rightarrow> Duration \<Rightarrow> Timestamp" where
  "sub_or_min ts d = (case ts_sub ts d of Inl _ \<Rightarrow> ts_MIN | Inr t \<Rightarrow> t)"

definition enforce_retention_policy ::
  "(log_entry list \<Rightarrow> nat) \<Rightarrow> RetentionKnobs \<Rightarrow> WriteLogManager \<Rightarrow> Timestamp \<Rightarrow> WriteLogManager" where
  "enforce_retention_policy heap_size knobs mgr current_ts =
     (let (es, purged) = retention_loop heap_size (WRITE_LOG_SOFT_MAX_SIZE_BYTES knobs)
            (sub_or_min current_ts (WRITE_LOG_MIN_RETENTION knobs)) (sub_or_min current_ts (WRITE_LOG_MAX_RETENTION knobs))
            (by_ts (mgr_log mgr)) (purged_ts (mgr_log mgr))
      in mgr\<lparr>mgr_log := \<lparr>by_ts = es, purged_ts = purged\<rparr>\<rparr>)"

subsection \<open>Readers of the log\<close>

definition reader_refresh_token :: "WriteLogManager \<Rightarrow> Token \<Rightarrow> Timestamp \<Rightarrow> error + (Timestamp option + Token)" where
  "reader_refresh_token mgr token ts =
     (if token_ts token = ts then Inr (Inr token)
      else if ts > log_max_ts (mgr_log mgr) then Inl (Bail ''Can't refresh token to newer timestamp than max ts'')
      else log_refresh_token (mgr_log mgr) token ts)"

definition refresh_reads_until_max_ts :: "WriteLogManager \<Rightarrow> Token \<Rightarrow> error + (Timestamp option + Token)" where
  "refresh_reads_until_max_ts mgr token = log_refresh_token (mgr_log mgr) token (log_max_ts (mgr_log mgr))"

text \<open>What a reader does once its wait has ended.\<close>

definition reader_wait_result :: "WriteLogManager \<Rightarrow> Timestamp \<Rightarrow> error + Timestamp" where
  "reader_wait_result mgr target =
     (if log_max_ts (mgr_log mgr) > target then Inr (log_max_ts (mgr_log mgr))
      else Inl (Panic ''assertion failed: result > target_ts''))"

definition log_for_each ::
  "WriteLogManager \<Rightarrow> Timestamp \<Rightarrow> Timestamp \<Rightarrow> (Timestamp \<Rightarrow> OrderedIndexKeyWrites \<Rightarrow> 'a \<Rightarrow> 'a) \<Rightarrow> 'a \<Rightarrow> error + 'a" where
  "log_for_each mgr from to_ts f a =
     and_then (log_iter (mgr_log mgr) from to_ts) (\<lambda>es. Inr (fold (\<lambda>(ts, writes, _). f ts writes) es a))"

subsection \<open>Pending writes\<close>

type_synonym 's pending_write = "OrderedDocumentWrites \<times> WriteSource \<times> 's"

datatype 's PendingWrites = PendingWrites (pending_by_ts: "(Timestamp, 's pending_write) btree_map")

datatype PendingWriteHandle = PendingWriteHandle "Timestamp option"

definition pending_new :: "'s PendingWrites" where
  "pending_new = PendingWrites []"

definition pending_push_back ::
  "'s PendingWrites \<Rightarrow> Timestamp \<Rightarrow> OrderedDocumentWrites \<Rightarrow> WriteSource \<Rightarrow> 's \<Rightarrow> error + 's PendingWrites \<times> PendingWriteHandle" where
  "pending_push_back p ts writes source snapshot =
     (case bt_last (pending_by_ts p) of
        Some (last_ts, _) \<Rightarrow>
          if last_ts < ts then Inr (PendingWrites (bt_insert ts (writes, source, snapshot) (pending_by_ts p)), PendingWriteHandle (Some ts))
          else Inl (Panic ''assertion failed: *last_ts < ts'')
      | None \<Rightarrow> Inr (PendingWrites (bt_insert ts (writes, source, snapshot) (pending_by_ts p)), PendingWriteHandle (Some ts)))"

definition pending_latest_snapshot :: "'s PendingWrites \<Rightarrow> 's option" where
  "pending_latest_snapshot p = map_option (\<lambda>(_, _, _, s). s) (bt_last (pending_by_ts p))"

fun update_snapshot ::
  "('s \<Rightarrow> PackedDocumentUpdate \<Rightarrow> Timestamp \<Rightarrow> error + 's) \<Rightarrow> Timestamp \<Rightarrow> OrderedDocumentWrites \<Rightarrow> 's \<Rightarrow> error + 's" where
  "update_snapshot upd ts [] s = Inr s"
| "update_snapshot upd ts ((_, u) # us) s = (case upd s u ts of
     Inl _ \<Rightarrow> Inl (Panic ''Failed to update snapshot'') | Inr s' \<Rightarrow> update_snapshot upd ts us s')"

fun recompute_loop ::
  "('s \<Rightarrow> PackedDocumentUpdate \<Rightarrow> Timestamp \<Rightarrow> error + 's) \<Rightarrow> (Timestamp \<times> 's pending_write) list \<Rightarrow> 's
    \<Rightarrow> error + (Timestamp \<times> 's pending_write) list" where
  "recompute_loop upd [] base = Inr []"
| "recompute_loop upd ((ts, writes, source, _) # es) base = and_then (update_snapshot upd ts writes base) (\<lambda>s.
     and_then (recompute_loop upd es s) (\<lambda>es'. Inr ((ts, writes, source, s) # es')))"

definition recompute_pending_snapshots ::
  "('s \<Rightarrow> PackedDocumentUpdate \<Rightarrow> Timestamp \<Rightarrow> error + 's) \<Rightarrow> 's PendingWrites \<Rightarrow> 's \<Rightarrow> error + 's PendingWrites" where
  "recompute_pending_snapshots upd p base = and_then (recompute_loop upd (pending_by_ts p) base) (\<lambda>es. Inr (PendingWrites es))"

definition pending_iter ::
  "'s PendingWrites \<Rightarrow> Timestamp \<Rightarrow> Timestamp \<Rightarrow> error + (Timestamp \<times> OrderedDocumentWrites \<times> WriteSource) list" where
  "pending_iter p from to_ts =
     (if from > to_ts then Inl (Panic ''range start is greater than range end in BTreeMap'')
      else Inr (map (\<lambda>(ts, w, source, _). (ts, w, source)) (filter (\<lambda>e. from \<le> fst e \<and> fst e \<le> to_ts) (pending_by_ts p))))"

definition pending_is_stale ::
  "(bytes \<Rightarrow> bytes) \<Rightarrow> (bytes \<Rightarrow> SearchValueTokens) \<Rightarrow> 's PendingWrites \<Rightarrow> ReadSet \<Rightarrow> Timestamp \<Rightarrow> Timestamp
    \<Rightarrow> error + ConflictingReadWithWriteSource option" where
  "pending_is_stale sha256 tokenize p reads reads_ts ts =
     and_then (ts_succ reads_ts) (\<lambda>from. and_then (pending_iter p from ts) (writes_overlap_docs sha256 tokenize reads))"

definition pending_pop_first ::
  "'s PendingWrites \<Rightarrow> PendingWriteHandle \<Rightarrow> 's PendingWrites \<times> (Timestamp \<times> 's pending_write) option" where
  "pending_pop_first p handle = (case pending_by_ts p of [] \<Rightarrow> (p, None) | e # es \<Rightarrow> (PendingWrites es, Some e))"

definition pending_min_ts :: "'s PendingWrites \<Rightarrow> Timestamp option" where
  "pending_min_ts p = map_option fst (bt_first (pending_by_ts p))"

fun must_commit_ts :: "PendingWriteHandle \<Rightarrow> error + Timestamp" where
  "must_commit_ts (PendingWriteHandle (Some ts)) = Inr ts"
| "must_commit_ts (PendingWriteHandle None) = Inl (Panic ''pending write already committed'')"

subsection \<open>Searching the log\<close>

declare binary_search.simps [simp del]

lemma binary_search_correct:
  assumes "sorted_wrt (<) ks" "lo \<le> hi" "hi \<le> length ks"
    and "\<And>j. j < lo \<Longrightarrow> ks ! j < k" "\<And>j. hi \<le> j \<Longrightarrow> j < length ks \<Longrightarrow> k < ks ! j"
  shows "\<exists>i \<le> length ks. binary_search ks k lo hi \<in> {Inl i, Inr i}
    \<and> (\<forall>j < i. ks ! j < k) \<and> (\<forall>j. i \<le> j \<longrightarrow> j < length ks \<longrightarrow> k \<le> ks ! j)"
  using assms
proof (induction ks k lo hi rule: binary_search.induct)
  case (1 ks k lo hi)
  define mid where "mid = lo + (hi - lo) div 2"
  have mono: "ks ! i < ks ! j" if "i < j" "j < length ks" for i j
    using "1.prems"(1) that by (simp add: sorted_wrt_iff_nth_less)
  show ?case
  proof (cases "lo < hi")
    case False
    with "1.prems" show ?thesis
      by (subst binary_search.simps) (auto intro!: exI [of _ lo] intro: less_imp_le)
  next
    case True
    then have mid: "mid < hi" "lo \<le> mid" "mid < length ks" using "1.prems"(3) by (auto simp: mid_def)
    have step: "binary_search ks k lo hi = (if ks ! mid = k then Inl mid
        else if ks ! mid < k then binary_search ks k (mid + 1) hi else binary_search ks k lo mid)"
      using True by (subst binary_search.simps) (simp add: mid_def [symmetric] Let_def)
    consider (eq) "ks ! mid = k" | (less) "ks ! mid < k" | (greater) "k < ks ! mid" by fastforce
    then show ?thesis
    proof cases
      case eq
      have "k \<le> ks ! j" if "mid \<le> j" "j < length ks" for j
        using mono [of mid j] that eq by (cases "j = mid") auto
      then show ?thesis using eq mid mono [of _ mid] by (auto simp: step intro!: exI [of _ mid])
    next
      case less
      have "ks ! j < k" if "j < mid + 1" for j
        using mono [of j mid] that less mid by (cases "j = mid") auto
      then show ?thesis
        using "1.IH"(1) [OF True mid_def] less mid "1.prems" step by auto
    next
      case greater
      have "k < ks ! j" if "mid \<le> j" "j < length ks" for j
        using mono [of mid j] that greater by (cases "j = mid") auto
      moreover have ne: "ks ! mid \<noteq> k" "\<not> ks ! mid < k" using greater by auto
      ultimately show ?thesis
        using "1.IH"(2) [OF True mid_def ne] mid "1.prems" by (simp add: step ne)
    qed
  qed
qed

lemma drop_eq_filter:
  assumes "\<forall>j < i. P (xs ! j) = False" "\<forall>j. i \<le> j \<longrightarrow> j < length xs \<longrightarrow> P (xs ! j)" "i \<le> length xs"
  shows "drop i xs = filter P xs"
proof -
  have "filter P (take i xs) = []" using assms by (auto simp: filter_empty_conv in_set_conv_nth)
  moreover have "filter P (drop i xs) = drop i xs"
    using assms by (auto simp: filter_id_conv in_set_conv_nth)
  ultimately show ?thesis by (metis append_Nil append_take_drop_id filter_append)
qed

lemma takeWhile_bt: "bt_wf m \<Longrightarrow> takeWhile (\<lambda>e. fst e \<le> t) m = filter (\<lambda>e. fst e \<le> t) m"
proof (induction m)
  case (Cons e m)
  have "filter (\<lambda>e. fst e \<le> t) m = []" if "t < fst e"
    using Cons.prems that by (fastforce simp: bt_wf_Cons filter_empty_conv)
  with Cons show ?case by (auto simp: bt_wf_Cons)
qed simp

definition wf_log :: "WriteLog \<Rightarrow> bool" where
  "wf_log log \<longleftrightarrow> bt_wf (by_ts log) \<and> (\<forall>e \<in> set (by_ts log). purged_ts log < fst e)"

lemma log_iter_eq:
  assumes "wf_log log"
  shows "log_iter log from to_ts = (if from \<le> purged_ts log then Inl OutOfRetention
    else Inr (filter (\<lambda>e. from \<le> fst e \<and> fst e \<le> to_ts) (by_ts log)))"
proof -
  have wf: "bt_wf (by_ts log)" using assms by (simp add: wf_log_def)
  let ?ks = "map fst (by_ts log)"
  obtain i where i: "i \<le> length ?ks" "binary_search ?ks from 0 (length ?ks) \<in> {Inl i, Inr i}"
    "\<forall>j < i. ?ks ! j < from" "\<forall>j. i \<le> j \<longrightarrow> j < length ?ks \<longrightarrow> from \<le> ?ks ! j"
    using binary_search_correct [of ?ks 0 "length ?ks" "from"] wf by (auto simp: bt_wf_def)
  have "drop i (by_ts log) = filter (\<lambda>e. from \<le> fst e) (by_ts log)"
    using i by (intro drop_eq_filter) auto
  then have "takeWhile (\<lambda>e. fst e \<le> to_ts) (drop i (by_ts log)) = filter (\<lambda>e. from \<le> fst e \<and> fst e \<le> to_ts) (by_ts log)"
    using takeWhile_bt [OF bt_wf_filter [OF wf]] by (simp add: conj_commute)
  with i(2) show ?thesis by (auto simp: log_iter_def Let_def)
qed

subsection \<open>Waking waiters\<close>

lemma mset_swap_remove_back:
  assumes "i < length xs"
  shows "mset (swap_remove_back xs i) = mset xs - {#xs ! i#}"
proof -
  let ?ys = "xs[i := last xs]"
  have "xs \<noteq> []" using assms by auto
  then have ne: "?ys \<noteq> []" "last ?ys = last xs" by (simp_all add: last_list_update)
  have "mset ?ys = mset (butlast ?ys) + {#last xs#}"
    using append_butlast_last_id [OF ne(1)] ne(2) by (metis mset.simps mset_append)
  moreover have "mset ?ys = add_mset (last xs) (mset xs - {#xs ! i#})"
    using assms by (rule mset_update)
  ultimately show ?thesis by (simp add: swap_remove_back_def)
qed

lemma nth_swap_remove_back: "j < i \<Longrightarrow> i < length xs \<Longrightarrow> swap_remove_back xs i ! j = xs ! j"
  by (simp add: swap_remove_back_def nth_butlast)

lemma length_swap_remove_back [simp]: "length (swap_remove_back xs i) = length xs - 1"
  by (simp add: swap_remove_back_def)

declare notify_loop.simps [simp del]

definition woken :: "Timestamp \<Rightarrow> (nat \<Rightarrow> bool) \<Rightarrow> Timestamp \<times> nat \<Rightarrow> bool" where
  "woken ts closed w \<longleftrightarrow> ts > fst w \<or> closed (snd w)"

lemma notify_loop_correct:
  assumes "\<forall>j < i. \<not> woken ts closed (ws ! j)" "i \<le> length ws"
  shows "mset (fst (notify_loop ts closed i ws sent)) = filter_mset (\<lambda>w. \<not> woken ts closed w) (mset ws)
    \<and> mset (snd (notify_loop ts closed i ws sent)) = mset sent + image_mset snd (filter_mset (woken ts closed) (mset ws))"
  using assms
proof (induction ts closed i ws sent rule: notify_loop.induct)
  case (1 ts closed i ws sent)
  show ?case
  proof (cases "i < length ws")
    case False
    with 1(3,4) have "\<forall>w \<in> set ws. \<not> woken ts closed w" by (simp add: all_set_conv_all_nth)
    then have "filter_mset (\<lambda>w. \<not> woken ts closed w) (mset ws) = mset ws" "filter_mset (woken ts closed) (mset ws) = {#}"
      by (auto simp: filter_mset_eq_conv)
    with False show ?thesis by (simp add: notify_loop.simps [of _ _ i])
  next
    case True
    define R where "R = mset ws - {#ws ! i#}"
    have m: "mset ws = add_mset (ws ! i) R" using True by (simp add: R_def)
    show ?thesis
    proof (cases "woken ts closed (ws ! i)")
      case w: True
      have "\<forall>j < i. \<not> woken ts closed (swap_remove_back ws i ! j)"
        using 1(3) True by (simp add: nth_swap_remove_back)
      from 1(1) [OF True w [unfolded woken_def] this] True
      show ?thesis
        using w by (subst (1 2) notify_loop.simps)
          (simp add: woken_def [symmetric] mset_swap_remove_back R_def [symmetric] m)
    next
      case n: False
      have "\<forall>j < i + 1. \<not> woken ts closed (ws ! j)" using 1(3) n by (auto simp: less_Suc_eq)
      from 1(2) [OF True n [unfolded woken_def] this] True n show ?thesis
        by (subst (1 2) notify_loop.simps) (simp add: woken_def [symmetric])
    qed
  qed
qed

lemma notify_waiters_correct:
  assumes "notify_waiters closed mgr = (mgr', sent)"
  shows "mgr_log mgr' = mgr_log mgr"
    and "set (mgr_waiters mgr') = {w \<in> set (mgr_waiters mgr). \<not> woken (log_max_ts (mgr_log mgr)) closed w}"
    and "set sent = snd ` {w \<in> set (mgr_waiters mgr). woken (log_max_ts (mgr_log mgr)) closed w}"
proof -
  let ?run = "notify_loop (log_max_ts (mgr_log mgr)) closed 0 (mgr_waiters mgr) []"
  have mgr': "mgr' = mgr\<lparr>mgr_waiters := fst ?run\<rparr>" "sent = snd ?run"
    using assms by (auto simp: notify_waiters_def split: prod.splits)
  from notify_loop_correct [of 0 "log_max_ts (mgr_log mgr)" closed "mgr_waiters mgr" "[]"]
  have "mset (fst ?run) = filter_mset (\<lambda>w. \<not> woken (log_max_ts (mgr_log mgr)) closed w) (mset (mgr_waiters mgr))"
    "mset (snd ?run) = image_mset snd (filter_mset (woken (log_max_ts (mgr_log mgr)) closed) (mset (mgr_waiters mgr)))"
    by simp_all
  from this [THEN arg_cong [of _ _ set_mset]]
  show "mgr_log mgr' = mgr_log mgr"
    "set (mgr_waiters mgr') = {w \<in> set (mgr_waiters mgr). \<not> woken (log_max_ts (mgr_log mgr)) closed w}"
    "set sent = snd ` {w \<in> set (mgr_waiters mgr). woken (log_max_ts (mgr_log mgr)) closed w}"
    by (simp_all add: mgr')
qed

subsection \<open>Histories of the log\<close>

text \<open>
  The managers that can be reached by appending commits, waiting and enforcing the retention policy,
  with all the commits that were appended.
\<close>

inductive log_run :: "Timestamp \<Rightarrow> WriteLogManager \<Rightarrow> log_entry list \<Rightarrow> bool" for initial where
  run_new: "log_run initial (manager_new initial) []"
| run_append: "log_run initial mgr H \<Longrightarrow> log_append closed mgr ts writes source = Inr (mgr', sent)
    \<Longrightarrow> log_run initial mgr' (H @ [(ts, writes, source)])"
| run_wait: "log_run initial mgr H \<Longrightarrow> mgr_wait_for_higher_ts closed mgr target channel = (mgr', sent, waiting)
    \<Longrightarrow> log_run initial mgr' H"
| run_retention: "log_run initial mgr H \<Longrightarrow> log_run initial (enforce_retention_policy heap_size knobs mgr current) H"

inductive_cases log_run_cases: "log_run initial mgr H"

text \<open>The log holds the commits after the purged timestamp, and nobody waits for less than it has.\<close>

definition history_max :: "Timestamp \<Rightarrow> log_entry list \<Rightarrow> Timestamp" where
  "history_max initial H = (if H = [] then initial else fst (last H))"

definition log_inv :: "Timestamp \<Rightarrow> WriteLogManager \<Rightarrow> log_entry list \<Rightarrow> bool" where
  "log_inv initial mgr H \<longleftrightarrow> bt_wf H \<and> (\<forall>e \<in> set H. initial < fst e)
     \<and> by_ts (mgr_log mgr) = filter (\<lambda>e. purged_ts (mgr_log mgr) < fst e) H
     \<and> log_max_ts (mgr_log mgr) = history_max initial H
     \<and> initial \<le> purged_ts (mgr_log mgr) \<and> purged_ts (mgr_log mgr) \<le> log_max_ts (mgr_log mgr)
     \<and> (\<forall>w \<in> set (mgr_waiters mgr). log_max_ts (mgr_log mgr) \<le> fst w)"

lemma log_invD:
  assumes "log_inv initial mgr H"
  shows "bt_wf H" "\<forall>e \<in> set H. initial < fst e" "by_ts (mgr_log mgr) = filter (\<lambda>e. purged_ts (mgr_log mgr) < fst e) H"
    "log_max_ts (mgr_log mgr) = history_max initial H" "initial \<le> purged_ts (mgr_log mgr)"
    "purged_ts (mgr_log mgr) \<le> log_max_ts (mgr_log mgr)" "\<forall>w \<in> set (mgr_waiters mgr). log_max_ts (mgr_log mgr) \<le> fst w"
  using assms unfolding log_inv_def by blast+

lemma log_inv_wf: "log_inv initial mgr H \<Longrightarrow> wf_log (mgr_log mgr)"
  by (auto simp: log_inv_def wf_log_def intro: bt_wf_filter)

lemma bt_wf_snoc: "bt_wf (m @ [e]) \<longleftrightarrow> bt_wf m \<and> (m = [] \<or> fst (last m) < fst e)"
proof -
  have "fst e' \<le> fst (last m)" if "bt_wf m" "e' \<in> set m" for e'
    using that by (induction m) (auto simp: bt_wf_Cons less_imp_le split: if_splits)
  then show ?thesis by (auto simp: bt_wf_append bt_wf_Cons intro: le_less_trans)
qed

lemma last_le: "bt_wf m \<Longrightarrow> e \<in> set m \<Longrightarrow> fst e \<le> fst (last m)"
  by (induction m) (auto simp: bt_wf_Cons less_imp_le split: if_splits)

lemma history_max_snoc [simp]: "history_max initial (H @ [e]) = fst e"
  by (simp add: history_max_def)

lemma bt_wf_history_snoc: "bt_wf H \<Longrightarrow> history_max initial H < fst e \<Longrightarrow> bt_wf (H @ [e])"
  by (auto simp: bt_wf_snoc history_max_def split: if_splits)

lemma log_max_ts_append [simp]:
  "log_max_ts (log\<lparr>by_ts := by_ts log @ [e]\<rparr>) = fst e" "purged_ts (log\<lparr>by_ts := es\<rparr>) = purged_ts log"
  by (simp_all add: log_max_ts_def)

lemma notify_inv:
  assumes "notify_waiters closed mgr = (mgr', sent)"
  shows "mgr_log mgr' = mgr_log mgr" "\<forall>w \<in> set (mgr_waiters mgr'). log_max_ts (mgr_log mgr) \<le> fst w"
  using notify_waiters_correct [OF assms] by (auto simp: woken_def)

lemma log_append_inv:
  assumes inv: "log_inv initial mgr H" and app: "log_append closed mgr ts writes source = Inr (mgr', sent)"
  shows "log_inv initial mgr' (H @ [(ts, writes, source)])"
proof -
  let ?log = "(mgr_log mgr)\<lparr>by_ts := by_ts (mgr_log mgr) @ [(ts, writes, source)]\<rparr>"
  from app have ts: "log_max_ts (mgr_log mgr) < ts" and n: "notify_waiters closed (mgr\<lparr>mgr_log := ?log\<rparr>) = (mgr', sent)"
    by (auto simp: log_append_def split: if_splits)
  have log: "mgr_log mgr' = ?log" "\<forall>w \<in> set (mgr_waiters mgr'). ts \<le> fst w"
    using notify_inv [OF n] by simp_all
  have p: "purged_ts (mgr_log mgr) < ts" "initial < ts"
    using log_invD(5,6) [OF inv] ts by (auto intro: le_less_trans order_trans)
  have "log_max_ts (mgr_log mgr') = ts" "purged_ts (mgr_log mgr') = purged_ts (mgr_log mgr)"
    "by_ts (mgr_log mgr') = by_ts (mgr_log mgr) @ [(ts, writes, source)]"
    by (simp_all add: log(1))
  moreover have "bt_wf (H @ [(ts, writes, source)])"
    using log_invD(1,4) [OF inv] ts by (intro bt_wf_history_snoc [of _ initial]) auto
  ultimately show ?thesis
    using log_invD [OF inv] p log(2) by (simp add: log_inv_def)
qed

lemma retention_loop_correct:
  assumes "bt_wf es" "\<forall>e \<in> set es. purged < fst e"
    and "retention_loop heap_size limit max_ts target_ts es purged = (es', purged')"
  shows "es' = filter (\<lambda>e. purged' < fst e) es \<and> purged \<le> purged' \<and> (purged' = purged \<or> purged' < max_ts)
    \<and> (if es' = [] then purged' else fst (last es')) = (if es = [] then purged else fst (last es))"
  using assms
proof (induction es arbitrary: purged)
  case (Cons e es)
  have stop: "e # es = filter (\<lambda>e. purged < fst e) (e # es)" using Cons.prems(2) by auto
  show ?case
  proof (cases "retention_loop heap_size limit max_ts target_ts (e # es) purged = (e # es, purged)")
    case True
    with Cons.prems(3) have [simp]: "es' = e # es" "purged' = purged" by auto
    show ?thesis using stop by auto
  next
    case False
    then have loop: "retention_loop heap_size limit max_ts target_ts es (fst e) = (es', purged')" and e: "fst e < max_ts"
      using Cons.prems(3) by (auto split: if_splits)
    have "bt_wf es" "\<forall>x \<in> set es. fst e < fst x" using Cons.prems(1) by (auto simp: bt_wf_Cons)
    from Cons.IH [OF this loop] e Cons.prems(2) show ?thesis by (auto split: if_splits)
  qed
qed simp

lemma enforce_retention_inv:
  assumes inv: "log_inv initial mgr H" and mgr': "mgr' = enforce_retention_policy heap_size knobs mgr current"
  shows "log_inv initial mgr' H" "purged_ts (mgr_log mgr) \<le> purged_ts (mgr_log mgr')"
    "purged_ts (mgr_log mgr') = purged_ts (mgr_log mgr)
      \<or> purged_ts (mgr_log mgr') < sub_or_min current (WRITE_LOG_MIN_RETENTION knobs)"
proof -
  let ?log = "mgr_log mgr"
  obtain es purged where run: "retention_loop heap_size (WRITE_LOG_SOFT_MAX_SIZE_BYTES knobs)
            (sub_or_min current (WRITE_LOG_MIN_RETENTION knobs)) (sub_or_min current (WRITE_LOG_MAX_RETENTION knobs))
            (by_ts ?log) (purged_ts ?log) = (es, purged)" by force
  have wf: "bt_wf (by_ts ?log)" "\<forall>e \<in> set (by_ts ?log). purged_ts ?log < fst e"
    using log_inv_wf [OF inv] by (simp_all add: wf_log_def)
  note r = retention_loop_correct [OF wf run]
  have log': "mgr_log mgr' = \<lparr>by_ts = es, purged_ts = purged\<rparr>" "mgr_waiters mgr' = mgr_waiters mgr"
    by (simp_all add: mgr' enforce_retention_policy_def run)
  have max: "log_max_ts (mgr_log mgr') = log_max_ts ?log" using r by (auto simp: log_max_ts_def log' split: if_splits)
  have es: "es = filter (\<lambda>e. purged < fst e) H"
    using log_invD(3) [OF inv] r by (auto intro!: filter_cong)
  have "purged < fst (last es)" if "es \<noteq> []" using last_in_set [OF that] es by auto
  then have "purged \<le> log_max_ts (mgr_log mgr')" by (auto simp: log_max_ts_def log' less_imp_le)
  moreover have "initial \<le> purged" using log_invD(5) [OF inv] r by (auto intro: order_trans)
  ultimately show "log_inv initial mgr' H"
    using log_invD [OF inv] es max by (simp add: log_inv_def log')
  from r show "purged_ts ?log \<le> purged_ts (mgr_log mgr')"
    "purged_ts (mgr_log mgr') = purged_ts ?log \<or> purged_ts (mgr_log mgr') < sub_or_min current (WRITE_LOG_MIN_RETENTION knobs)"
    by (simp_all add: log')
qed

lemma log_run_inv: "log_run initial mgr H \<Longrightarrow> log_inv initial mgr H"
proof (induction rule: log_run.induct)
  case run_new
  then show ?case by (simp add: log_inv_def manager_new_def write_log_new_def log_max_ts_def history_max_def)
next
  case (run_append mgr H closed ts writes source mgr' sent)
  then show ?case using log_append_inv by blast
next
  case (run_wait mgr H closed target channel mgr' sent waiting)
  obtain mgr1 sent1 where n: "notify_waiters closed mgr = (mgr1, sent1)" by force
  have "mgr_log mgr' = mgr_log mgr" "\<forall>w \<in> set (mgr_waiters mgr'). log_max_ts (mgr_log mgr) \<le> fst w"
    using notify_inv [OF n] run_wait(2) n by (auto simp: mgr_wait_for_higher_ts_def split: if_splits)
  with log_invD [OF run_wait(3)] show ?case by (simp add: log_inv_def)
next
  case (run_retention mgr H heap_size knobs current)
  then show ?case using enforce_retention_inv by blast
qed

subsection \<open>Staleness over histories\<close>

definition commits_between :: "log_entry list \<Rightarrow> Timestamp \<Rightarrow> Timestamp \<Rightarrow> log_entry list" where
  "commits_between H from to_ts = filter (\<lambda>e. from < fst e \<and> fst e \<le> to_ts) H"

lemma log_is_stale_eq:
  assumes "log_inv initial mgr H" "reads_ts < ts_MAX"
  shows "log_is_stale (mgr_log mgr) reads reads_ts ts =
    (if reads_ts < purged_ts (mgr_log mgr) then Inl OutOfRetention
     else Inr (writes_overlap_index_keys reads (commits_between H reads_ts ts)))"
proof -
  obtain a where a: "ts_succ reads_ts = Inr a"
    using assms(2) by (simp add: ts_succ_def succ_opt_def flip: not_less)
  have "filter (\<lambda>e. a \<le> fst e \<and> fst e \<le> ts) (by_ts (mgr_log mgr)) = commits_between H reads_ts ts"
    if "\<not> reads_ts < purged_ts (mgr_log mgr)"
    using that ts_succ_least [OF a]
    by (auto simp: log_invD(3) [OF assms(1)] commits_between_def not_less intro!: filter_cong intro: le_less_trans)
  then show ?thesis
    using log_iter_eq [OF log_inv_wf [OF assms(1)]] ts_succ_least [OF a] by (simp add: log_is_stale_def a)
qed

lemma log_is_stale_max:
  assumes "\<not> reads_ts < ts_MAX"
  shows "log_is_stale log reads reads_ts ts = Inl (Bail ''timestamp already at max'')"
  using assms by (simp add: log_is_stale_def ts_succ_def succ_opt_def not_less)

subsection \<open>Properties\<close>

text \<open>
  C1: the conflict check against the write log is exact as long as the log reaches back far enough.
  After any sequence of commits, waits and trims, a read set taken at a timestamp before the purged
  timestamp is rejected as out of retention, one taken at the largest timestamp is an error, and for
  any other the check returns the first conflict
  among all commits of the history after the reads and up to the given timestamp; trimming the log
  and searching it binarily lose no commit.
\<close>

theorem log_staleness_exact:
  assumes "log_run initial mgr H"
  shows "log_is_stale (mgr_log mgr) reads reads_ts ts =
    (if ts_MAX \<le> reads_ts then Inl (Bail ''timestamp already at max'')
     else if reads_ts < purged_ts (mgr_log mgr) then Inl OutOfRetention
     else Inr (writes_overlap_index_keys reads (filter (\<lambda>e. reads_ts < fst e \<and> fst e \<le> ts) H)))"
  using log_is_stale_eq [OF log_run_inv [OF assms], of reads_ts reads ts] log_is_stale_max [of reads_ts]
  by (auto simp: commits_between_def not_less)

theorem log_staleness_exact_witness:
  "log_is_stale (mgr_log (manager_new 5)) read_set_empty 7 9 = Inr None"
  using log_staleness_exact [OF run_new, of 5 read_set_empty 7 9]
  by (simp add: manager_new_def write_log_new_def ts_MAX_def)

text \<open>
  C9: refreshing a token is sound. If the log refreshes a token to a timestamp it has reached, the
  refreshed token has the same reads, its timestamp is the later one of the two, and no commit of the
  history between the old timestamp of the token and the new one overlaps its reads. If it refuses,
  it names the first commit that overlaps them, or the token is older than the log.
\<close>

theorem refresh_token_sound:
  assumes "log_run initial mgr H" and "reader_refresh_token mgr token ts = Inr res"
  shows "case res of
      Inr token' \<Rightarrow> token_reads token' = token_reads token \<and> token_ts token' = max (token_ts token) ts
        \<and> writes_overlap_index_keys (token_reads token)
            (filter (\<lambda>e. token_ts token < fst e \<and> fst e \<le> token_ts token') H) = None
    | Inl (Some w) \<Rightarrow> \<exists>c. crw_write_ts c = w \<and> writes_overlap_index_keys (token_reads token)
            (filter (\<lambda>e. token_ts token < fst e \<and> fst e \<le> ts) H) = Some c
    | Inl None \<Rightarrow> token_ts token < purged_ts (mgr_log mgr)"
proof (cases "token_ts token = ts")
  case True
  have "filter (\<lambda>e. ts < fst e \<and> fst e \<le> ts) H = []" by (auto simp: filter_empty_conv not_less)
  with True assms(2) show ?thesis by (auto simp: reader_refresh_token_def)
next
  case False
  with assms(2) have res: "log_refresh_token (mgr_log mgr) token ts = Inr res"
    by (simp add: reader_refresh_token_def split: if_splits)
  have lt: "token_ts token < ts_MAX"
  proof (rule ccontr)
    assume "\<not> token_ts token < ts_MAX"
    from log_is_stale_max [OF this] res show False by (simp add: log_refresh_token_def)
  qed
  note st = log_is_stale_eq [OF log_run_inv [OF assms(1)] lt, of "token_reads token" ts, unfolded commits_between_def]
  have "filter (\<lambda>e. token_ts token < fst e \<and> fst e \<le> token_ts token) H = []"
    by (auto simp: filter_empty_conv not_less)
  with res show ?thesis
    by (auto simp: log_refresh_token_def st advance_ts_def max_def not_less
        split: if_splits option.splits)
qed

theorem refresh_token_sound_witness:
  "\<exists>t. reader_refresh_token (manager_new 5) \<lparr>token_reads = read_set_empty, token_ts = 7\<rparr> 7 = Inr (Inr t) \<and> token_ts t = 7"
  using refresh_token_sound [OF run_new, of 5 "\<lparr>token_reads = read_set_empty, token_ts = 7\<rparr>" 7
      "Inr \<lparr>token_reads = read_set_empty, token_ts = 7\<rparr>"]
  by (simp add: reader_refresh_token_def)

text \<open>
  C22: no waiter sleeps through a commit. When a commit is appended to a reachable log, every waiter
  for a timestamp before it is sent to, whatever order the waiters are stored in, and the timestamp
  it then reads is the one of the commit; the waiters that stay are exactly those that wait for a
  later timestamp and have not gone away.
\<close>

theorem waiters_woken:
  assumes "log_run initial mgr H" and "log_append closed mgr ts writes source = Inr (mgr', sent)"
    and "(target, channel) \<in> set (mgr_waiters mgr)"
  shows "(target < ts \<longrightarrow> channel \<in> set sent \<and> reader_wait_result mgr' target = Inr ts)
    \<and> ((target, channel) \<in> set (mgr_waiters mgr') \<longleftrightarrow> ts \<le> target \<and> \<not> closed channel)
    \<and> (channel \<notin> set sent \<longrightarrow> ts \<le> target)"
proof -
  let ?log = "(mgr_log mgr)\<lparr>by_ts := by_ts (mgr_log mgr) @ [(ts, writes, source)]\<rparr>"
  from assms(2) have n: "notify_waiters closed (mgr\<lparr>mgr_log := ?log\<rparr>) = (mgr', sent)"
    by (auto simp: log_append_def split: if_splits)
  note c = notify_waiters_correct [OF n]
  have max: "log_max_ts (mgr_log mgr') = ts" by (simp add: c(1))
  have "channel \<in> set sent" if "target < ts"
    using c(3) assms(3) that by (force simp: woken_def)
  moreover have "(target, channel) \<in> set (mgr_waiters mgr') \<longleftrightarrow> ts \<le> target \<and> \<not> closed channel"
    using c(2) assms(3) by (auto simp: woken_def not_less)
  ultimately show ?thesis using leI [of target ts] by (auto simp: reader_wait_result_def max)
qed

theorem waiters_woken_witness:
  "\<exists>mgr sent. log_append (\<lambda>_. False) (manager_new 5\<lparr>mgr_waiters := [(6, 1), (9, 2)]\<rparr>) 8 [] None = Inr (mgr, sent)
    \<and> 1 \<in> set sent"
proof -
  let ?closed = "\<lambda>_ :: nat. False"
  have "log_run 5 (manager_new 5\<lparr>mgr_waiters := [(6, 1)]\<rparr>) []"
    by (rule run_wait [OF run_new, where closed = ?closed and target = 6 and channel = 1 and sent = "[]" and waiting = "Some 1"])
      (simp add: mgr_wait_for_higher_ts_def notify_waiters_def manager_new_def notify_loop.simps write_log_new_def log_max_ts_def)
  then have run: "log_run 5 (manager_new 5\<lparr>mgr_waiters := [(6, 1), (9, 2)]\<rparr>) []"
    by (rule run_wait [where closed = ?closed and target = 9 and channel = 2 and sent = "[]" and waiting = "Some 2"])
      (simp add: mgr_wait_for_higher_ts_def notify_waiters_def manager_new_def notify_loop.simps write_log_new_def log_max_ts_def)
  obtain mgr sent where app: "log_append ?closed (manager_new 5\<lparr>mgr_waiters := [(6, 1), (9, 2)]\<rparr>) 8 [] None = Inr (mgr, sent)"
    by (cases "notify_waiters ?closed \<lparr>mgr_log = \<lparr>by_ts = [(8, [], None)], purged_ts = 5\<rparr>, mgr_waiters = [(6, 1), (9, 2)]\<rparr>")
      (auto simp: log_append_def manager_new_def write_log_new_def log_max_ts_def)
  from waiters_woken [OF run app, of 6 1] app show ?thesis by auto
qed

text \<open>
  C21: the log keeps what it promises to keep. Enforcing the retention policy never drops a commit at
  or after the current time less the minimum retention, whatever the size of the log, so reads of
  that age can always be checked; it drops only the oldest commits, and never moves the end of the
  log.
\<close>

theorem retention_window:
  assumes "log_run initial mgr H" and "mgr' = enforce_retention_policy heap_size knobs mgr current"
  shows "(\<forall>e \<in> set (by_ts (mgr_log mgr)). sub_or_min current (WRITE_LOG_MIN_RETENTION knobs) \<le> fst e
            \<longrightarrow> e \<in> set (by_ts (mgr_log mgr')))
    \<and> by_ts (mgr_log mgr') = filter (\<lambda>e. purged_ts (mgr_log mgr') < fst e) H
    \<and> log_max_ts (mgr_log mgr') = log_max_ts (mgr_log mgr)
    \<and> (purged_ts (mgr_log mgr) \<le> reads_ts \<and> sub_or_min current (WRITE_LOG_MIN_RETENTION knobs) \<le> reads_ts
        \<longrightarrow> purged_ts (mgr_log mgr') \<le> reads_ts)"
proof -
  note inv = log_run_inv [OF assms(1)]
  note r = enforce_retention_inv [OF inv assms(2)]
  have "by_ts (mgr_log mgr') = filter (\<lambda>e. purged_ts (mgr_log mgr') < fst e) H" by (rule log_invD(3) [OF r(1)])
  moreover have "purged_ts (mgr_log mgr') < fst e"
    if "e \<in> set (by_ts (mgr_log mgr))" "sub_or_min current (WRITE_LOG_MIN_RETENTION knobs) \<le> fst e" for e
    using r(3) that log_inv_wf [OF inv] by (auto simp: wf_log_def)
  moreover have "log_max_ts (mgr_log mgr') = log_max_ts (mgr_log mgr)"
    by (simp add: log_invD(4) [OF inv] log_invD(4) [OF r(1)])
  ultimately show ?thesis using r(3) log_invD(3) [OF inv] by auto
qed

theorem retention_window_witness:
  "\<exists>mgr. log_max_ts (mgr_log (enforce_retention_policy length
     \<lparr>WRITE_LOG_MIN_RETENTION = 1, WRITE_LOG_MAX_RETENTION = 2, WRITE_LOG_SOFT_MAX_SIZE_BYTES = 0\<rparr> mgr 100)) = 8
     \<and> by_ts (mgr_log mgr) \<noteq> []"
proof -
  obtain mgr sent where app: "log_append (\<lambda>_. False) (manager_new 5) 8 [] None = Inr (mgr, sent)"
    by (cases "notify_waiters (\<lambda>_. False) \<lparr>mgr_log = \<lparr>by_ts = [(8, [], None)], purged_ts = 5\<rparr>, mgr_waiters = []\<rparr>")
      (auto simp: log_append_def manager_new_def write_log_new_def log_max_ts_def)
  have run: "log_run 5 mgr ([] @ [(8, [], None)])" by (rule run_append [OF run_new app])
  have "log_max_ts (mgr_log mgr) = 8" "by_ts (mgr_log mgr) \<noteq> []"
    using app notify_inv(1) by (auto simp: log_append_def manager_new_def write_log_new_def log_max_ts_def split: if_splits)
  with retention_window [OF run refl, where heap_size = length and current = 100
      and knobs = "\<lparr>WRITE_LOG_MIN_RETENTION = 1, WRITE_LOG_MAX_RETENTION = 2, WRITE_LOG_SOFT_MAX_SIZE_BYTES = 0\<rparr>"]
  show ?thesis by auto
qed

end
