(* ===== verification/Search_Subscriptions.thy ===== *)
theory Search_Subscriptions
  imports Search_Reads
begin

text \<open>
  The subscriptions to text searches (\<^verbatim>\<open>TextSearchSubscriptions\<close> of \<^verbatim>\<open>src/crates/search/src/query.rs\<close>): the
  terms of all subscribed searches in one table of tries per index, their filter conditions in a
  map per index, and the subscribers that a written document's index keys concern.
\<close>

subsection \<open>Subscriptions to searches\<close>

type_synonym SubscriberId = nat

record TextSearchSubscriptions =
  fuzzy_searches :: "(TabletIndexName, SubscriberId SearchTermTries) btree_map"
  sub_filter_conditions :: "(TabletIndexName, (SubscriberId, FilterConditionRead list) btree_map) btree_map"

definition text_subscriptions_new :: TextSearchSubscriptions where
  "text_subscriptions_new = \<lparr>fuzzy_searches = [], sub_filter_conditions = []\<rparr>"

definition filter_len :: "TextSearchSubscriptions \<Rightarrow> nat" where
  "filter_len s = sum_list (map (\<lambda>(_, m). length m) (sub_filter_conditions s))"

definition fuzzy_len :: "TextSearchSubscriptions \<Rightarrow> nat" where
  "fuzzy_len s = length (fuzzy_searches s)"

definition text_subscriptions_insert ::
  "SubscriberId \<Rightarrow> TabletIndexName \<Rightarrow> QueryReads \<Rightarrow> TextSearchSubscriptions \<Rightarrow> TextSearchSubscriptions" where
  "text_subscriptions_insert sid index reads s =
     (let conditions = entry_or [] (sub_filter_conditions s) index;
          terms = entry_or [] (fuzzy_searches s) index
      in \<lparr>fuzzy_searches = bt_insert index (tries_extend sid (text_queries reads) terms) (fuzzy_searches s),
          sub_filter_conditions =
            bt_insert index (bt_insert sid (entry_or [] conditions sid @ filter_conditions reads) conditions)
              (sub_filter_conditions s)\<rparr>)"

definition text_subscriptions_remove ::
  "SubscriberId \<Rightarrow> TabletIndexName \<Rightarrow> QueryReads \<Rightarrow> TextSearchSubscriptions \<Rightarrow> error + TextSearchSubscriptions" where
  "text_subscriptions_remove sid index reads s =
     and_then (expect ''Missing condition index entry'' (bt_get (sub_filter_conditions s) index)) (\<lambda>conditions.
       if bt_get conditions sid = None then Inl (Panic ''assertion failed: conditions.remove(&id).is_some()'')
       else
         let conditions' = bt_remove sid conditions;
             filters = (if conditions' = [] then bt_remove index (sub_filter_conditions s)
                        else bt_insert index conditions' (sub_filter_conditions s))
         in and_then (expect ''Missing fuzzy search index entry'' (bt_get (fuzzy_searches s) index)) (\<lambda>terms.
            and_then (tries_remove sid (text_queries reads) terms) (\<lambda>terms'.
              Inr \<lparr>fuzzy_searches = bt_insert index terms' (fuzzy_searches s), sub_filter_conditions = filters\<rparr>)))"

definition add_filter_conditions_matches ::
  "TextSearchSubscriptions \<Rightarrow> ResolvedDocumentId \<Rightarrow> DocumentIndexKeys \<Rightarrow> SubscriberId list" where
  "add_filter_conditions_matches s did keys =
     concat (map (\<lambda>(index, by_subscriber).
       if index_table index \<noteq> tablet_id did then []
       else case document_index_keys_get keys index of
         Some (Search kv) \<Rightarrow>
           concat (map (\<lambda>(sid, conditions).
             concat (map (\<lambda>c. case c of Must path v \<Rightarrow>
               (case bt_get (filter_values kv) path of
                  None \<Rightarrow> []
                | Some dv \<Rightarrow> if dv = v then [sid] else [])) conditions)) by_subscriber)
       | _ \<Rightarrow> []) (sub_filter_conditions s))"

definition add_fuzzy_matches ::
  "TextSearchSubscriptions \<Rightarrow> ResolvedDocumentId \<Rightarrow> DocumentIndexKeys \<Rightarrow> SubscriberId list" where
  "add_fuzzy_matches s did keys =
     concat (map (\<lambda>(index, terms).
       case document_index_keys_get keys index of
         Some (Search kv) \<Rightarrow>
           (case search_field_value kv of
              None \<Rightarrow> []
            | Some tokens \<Rightarrow>
                (case bt_get terms (search_field kv) of
                   None \<Rightarrow> []
                 | Some tries \<Rightarrow> matching_values tries tokens))
       | _ \<Rightarrow> []) (filter (\<lambda>(index, _). index_table index = tablet_id did) (fuzzy_searches s)))"

definition add_matches ::
  "TextSearchSubscriptions \<Rightarrow> ResolvedDocumentId \<Rightarrow> DocumentIndexKeys \<Rightarrow> SubscriberId list" where
  "add_matches s did keys = add_filter_conditions_matches s did keys @ add_fuzzy_matches s did keys"

subsection \<open>The table represents the registered reads\<close>

text \<open>
  A table represents a map from subscribers and indexes to reads when its tries count the terms of
  the registered reads and its conditions are theirs.
\<close>

type_synonym registrations = "SubscriberId \<Rightarrow> TabletIndexName \<Rightarrow> QueryReads option"

definition text_inv :: "TextSearchSubscriptions \<Rightarrow> registrations \<Rightarrow> bool" where
  "text_inv s R \<longleftrightarrow>
     bt_wf (fuzzy_searches s) \<and> bt_wf (sub_filter_conditions s)
     \<and> (\<forall>index. wf_terms (entry_or [] (fuzzy_searches s) index))
     \<and> (\<forall>index key sid. term_count (entry_or [] (fuzzy_searches s) index) key sid
          = (case R sid index of None \<Rightarrow> 0 | Some r \<Rightarrow> occurrences (text_queries r) key))
     \<and> (\<forall>index. bt_wf (entry_or [] (sub_filter_conditions s) index))
     \<and> (\<forall>index sid. bt_get (entry_or [] (sub_filter_conditions s) index) sid = map_option filter_conditions (R sid index))
     \<and> (\<forall>index sid. R sid index \<noteq> None \<longrightarrow> bt_get (fuzzy_searches s) index \<noteq> None)"

definition reg_upd :: "SubscriberId \<Rightarrow> TabletIndexName \<Rightarrow> QueryReads option \<Rightarrow> registrations \<Rightarrow> registrations" where
  "reg_upd sid index r R = (\<lambda>sid' index'. if sid' = sid \<and> index' = index then r else R sid' index')"

lemma text_invD:
  assumes "text_inv s R"
  shows "bt_wf (fuzzy_searches s)" "bt_wf (sub_filter_conditions s)"
    "wf_terms (entry_or [] (fuzzy_searches s) index)"
    "term_count (entry_or [] (fuzzy_searches s) index) key sid
       = (case R sid index of None \<Rightarrow> 0 | Some r \<Rightarrow> occurrences (text_queries r) key)"
    "bt_wf (entry_or [] (sub_filter_conditions s) index)"
    "bt_get (entry_or [] (sub_filter_conditions s) index) sid = map_option filter_conditions (R sid index)"
    "R sid index \<noteq> None \<Longrightarrow> bt_get (fuzzy_searches s) index \<noteq> None"
  using assms unfolding text_inv_def by blast+

lemma text_inv_new: "text_inv text_subscriptions_new (\<lambda>_ _. None)"
  by (simp add: text_inv_def text_subscriptions_new_def del: split_paired_All)

lemma text_inv_insert:
  assumes "text_inv s R" "R sid index = None"
  shows "text_inv (text_subscriptions_insert sid index reads s) (reg_upd sid index (Some reads) R)"
proof -
  let ?s = "text_subscriptions_insert sid index reads s"
  have f: "entry_or [] (fuzzy_searches ?s) i = (if i = index
      then tries_extend sid (text_queries reads) (entry_or [] (fuzzy_searches s) index)
      else entry_or [] (fuzzy_searches s) i)" for i
    by (simp add: text_subscriptions_insert_def Let_def)
  have none: "bt_get (entry_or [] (sub_filter_conditions s) index) sid = None"
    using assms by (simp add: text_inv_def del: split_paired_All)
  have c: "entry_or [] (sub_filter_conditions ?s) i = (if i = index
      then bt_insert sid (filter_conditions reads) (entry_or [] (sub_filter_conditions s) index)
      else entry_or [] (sub_filter_conditions s) i)" for i
    by (simp add: text_subscriptions_insert_def Let_def entry_or_get(2) [OF none])
  have "bt_wf (fuzzy_searches ?s)" "bt_wf (sub_filter_conditions ?s)"
    using assms(1) by (auto simp: text_inv_def text_subscriptions_insert_def Let_def)
  moreover have "R sid' i \<noteq> None \<or> i = index \<Longrightarrow> bt_get (fuzzy_searches ?s) i \<noteq> None" for sid' i
    using text_invD(7) [OF assms(1), of sid' i] by (auto simp: text_subscriptions_insert_def Let_def)
  ultimately show ?thesis
    using assms unfolding text_inv_def f c reg_upd_def
    by (auto simp: tries_extend_correct simp del: split_paired_All split_paired_Ex)
qed

lemma text_inv_remove:
  assumes inv: "text_inv s R" and r: "R sid index = Some reads"
  shows "\<exists>s'. text_subscriptions_remove sid index reads s = Inr s' \<and> text_inv s' (reg_upd sid index None R)"
proof -
  let ?cs = "entry_or [] (sub_filter_conditions s) index"
  let ?ts = "entry_or [] (fuzzy_searches s) index"
  have cs: "bt_get ?cs sid = Some (filter_conditions reads)"
    using inv r by (simp add: text_inv_def del: split_paired_All)
  then have gcs: "bt_get (sub_filter_conditions s) index = Some ?cs"
    by (cases "bt_get (sub_filter_conditions s) index") (simp_all add: entry_or_def)
  have "bt_get (fuzzy_searches s) index \<noteq> None"
    using text_invD(7) [OF inv] r by blast
  then have gts: "bt_get (fuzzy_searches s) index = Some ?ts" by (auto simp: entry_or_def)
  have wf: "wf_terms ?ts" and cnt: "\<And>key. term_count ?ts key sid = occurrences (text_queries reads) key"
    using inv r by (simp_all add: text_inv_def del: split_paired_All)
  obtain ts' where ts': "tries_remove sid (text_queries reads) ?ts = Inr ts'" "wf_terms ts'"
    "\<And>key w. term_count ts' key w = term_count ?ts key w - (if w = sid then occurrences (text_queries reads) key else 0)"
    using tries_remove_correct [OF wf, of "text_queries reads" sid] cnt by auto
  define fs' where "fs' = (if bt_remove sid ?cs = [] then bt_remove index (sub_filter_conditions s)
     else bt_insert index (bt_remove sid ?cs) (sub_filter_conditions s))"
  define s' where "s' = \<lparr>fuzzy_searches = bt_insert index ts' (fuzzy_searches s), sub_filter_conditions = fs'\<rparr>"
  have "text_subscriptions_remove sid index reads s = Inr s'"
    by (simp add: text_subscriptions_remove_def gcs gts cs ts' Let_def s'_def fs'_def)
  moreover have c: "entry_or [] fs' i = (if i = index then bt_remove sid ?cs else entry_or [] (sub_filter_conditions s) i)" for i
    by (auto simp: fs'_def)
  have "bt_wf fs'" using inv by (auto simp: fs'_def text_inv_def)
  then have "text_inv s' (reg_upd sid index None R)"
    using inv ts' cnt unfolding text_inv_def s'_def reg_upd_def
    by (auto simp: c simp del: split_paired_All split_paired_Ex split: option.splits)
  ultimately show ?thesis by blast
qed

text \<open>Who is notified: the subscribers with a matching condition or a matching term.\<close>

fun condition_hits :: "SearchIndexKeyValue \<Rightarrow> FilterConditionRead \<Rightarrow> bool" where
  "condition_hits kv (Must path v) \<longleftrightarrow> bt_get (filter_values kv) path = Some v"

definition search_concerns :: "QueryReads \<Rightarrow> SearchIndexKeyValue \<Rightarrow> bool" where
  "search_concerns r kv \<longleftrightarrow>
     (\<exists>c \<in> set (filter_conditions r). condition_hits kv c)
     \<or> (\<exists>tokens. search_field_value kv = Some tokens
          \<and> (\<exists>q \<in> set (text_queries r). tq_field_path q = search_field kv \<and> term_matches (tq_term q) tokens))"

lemma overlap_concerns:
  assumes "reads_consistent r" "overlaps_search_index_key_value r kv"
    and "text_queries r \<noteq> [] \<or> filter_conditions r \<noteq> []"
  shows "search_concerns r kv"
proof (cases "text_queries r = []")
  case True
  then obtain f fs where "filter_conditions r = f # fs" using assms(3) by (cases "filter_conditions r") auto
  then show ?thesis
    using assms(1,2) by (cases f) (auto simp: overlaps_search_index_key_value_iff search_concerns_def)
next
  case False
  with assms(1,2) show ?thesis by (auto simp: overlaps_search_index_key_value_iff search_concerns_def)
qed

lemma concat_bt:
  assumes "bt_wf m" "\<And>k. x \<notin> set (f k d)"
  shows "x \<in> set (concat (map (\<lambda>(k, v). f k v) m)) \<longleftrightarrow> (\<exists>k. x \<in> set (f k (entry_or d m k)))"
proof
  assume "x \<in> set (concat (map (\<lambda>(k, v). f k v) m))"
  then obtain k v where "(k, v) \<in> set m" "x \<in> set (f k v)" by auto
  with assms(1) show "\<exists>k. x \<in> set (f k (entry_or d m k))"
    using bt_get_iff [OF assms(1), of k v] by (intro exI [of _ k]) (simp add: entry_or_get)
next
  assume "\<exists>k. x \<in> set (f k (entry_or d m k))"
  then obtain k where k: "x \<in> set (f k (entry_or d m k))" by blast
  with assms(2) obtain v where "bt_get m k = Some v"
    by (cases "bt_get m k") (auto simp: entry_or_get)
  with k show "x \<in> set (concat (map (\<lambda>(k, v). f k v) m))"
    using bt_get_iff [OF assms(1), of k v] by (auto simp: entry_or_get)
qed

lemma condition_matches:
  "(case c of Must path v \<Rightarrow>
       (case bt_get (filter_values kv) path of None \<Rightarrow> [] | Some dv \<Rightarrow> if dv = v then [sid] else []))
     = (if condition_hits kv c then [sid] else [])"
  by (cases c) (auto split: option.splits)

lemma search_case:
  "x \<in> set (case k of Some (Search kv) \<Rightarrow> f kv | _ \<Rightarrow> []) \<longleftrightarrow> (\<exists>kv. k = Some (Search kv) \<and> x \<in> set (f kv))"
  by (auto split: option.splits DocumentIndexKeyValue.splits)

lemma add_filter_conditions_matches_iff:
  assumes "text_inv s R"
  shows "sid \<in> set (add_filter_conditions_matches s did keys) \<longleftrightarrow>
    (\<exists>index r kv. R sid index = Some r \<and> index_table index = tablet_id did
       \<and> document_index_keys_get keys index = Some (Search kv)
       \<and> (\<exists>c \<in> set (filter_conditions r). condition_hits kv c))"
proof -
  have by_sub: "sid \<in> set (concat (map (\<lambda>(sid', cs). concat (map (\<lambda>c. if condition_hits kv c then [sid'] else []) cs)) bs))
     \<longleftrightarrow> (\<exists>cs. bt_get bs sid = Some cs \<and> (\<exists>c \<in> set cs. condition_hits kv c))" if "bt_wf bs" for kv bs
  proof -
    have "(\<exists>c \<in> set (entry_or [] bs sid). condition_hits kv c)
        \<longleftrightarrow> (\<exists>cs. bt_get bs sid = Some cs \<and> (\<exists>c \<in> set cs. condition_hits kv c))"
      by (cases "bt_get bs sid") (simp_all add: entry_or_get)
    then show ?thesis by (subst concat_bt [OF that, where d = "[]"]) (auto split: if_splits)
  qed
  define F where "F = (\<lambda>(index :: TabletIndexName) (bs :: (SubscriberId, FilterConditionRead list) btree_map). if index_table index \<noteq> tablet_id did then []
     else case document_index_keys_get keys index of
         Some (Search kv) \<Rightarrow> concat (map (\<lambda>(sid', cs). concat (map (\<lambda>c. if condition_hits kv c then [sid'] else []) cs)) bs)
       | _ \<Rightarrow> [])"
  have F: "sid \<in> set (F i bs) \<longleftrightarrow> index_table i = tablet_id did \<and> (\<exists>kv. document_index_keys_get keys i = Some (Search kv)
      \<and> (\<exists>cs. bt_get bs sid = Some cs \<and> (\<exists>c \<in> set cs. condition_hits kv c)))" if "bt_wf bs" for i bs
  proof (cases "index_table i = tablet_id did")
    case True
    then show ?thesis by (simp only: F_def simp_thms if_False search_case by_sub [OF that])
  qed (simp add: F_def)
  have "sid \<in> set (add_filter_conditions_matches s did keys) \<longleftrightarrow>
      (\<exists>i. sid \<in> set (F i (entry_or [] (sub_filter_conditions s) i)))"
    unfolding add_filter_conditions_matches_def condition_matches F_def [symmetric]
    by (rule concat_bt [OF text_invD(2) [OF assms]]) (simp add: F)
  then show ?thesis
    unfolding F [OF text_invD(5) [OF assms]] text_invD(6) [OF assms] by (auto simp: map_option_eq_Some)
qed

lemma add_fuzzy_matches_iff:
  assumes "text_inv s R"
  shows "sid \<in> set (add_fuzzy_matches s did keys) \<longleftrightarrow>
    (\<exists>index r kv tokens. R sid index = Some r \<and> index_table index = tablet_id did
       \<and> document_index_keys_get keys index = Some (Search kv) \<and> search_field_value kv = Some tokens
       \<and> (\<exists>q \<in> set (text_queries r). tq_field_path q = search_field kv \<and> term_matches (tq_term q) tokens))"
proof -
  let ?m = "filter (\<lambda>(index, _). index_table index = tablet_id did) (fuzzy_searches s)"
  have wf: "bt_wf ?m" using text_invD(1) [OF assms] by (rule bt_wf_filter)
  have entry: "entry_or [] ?m i = (if index_table i = tablet_id did then entry_or [] (fuzzy_searches s) i else [])" for i
    using bt_get_filter [of "\<lambda>i. index_table i = tablet_id did" "fuzzy_searches s" i]
    by (simp add: entry_or_def case_prod_unfold)
  have tries: "x \<in> set (case bt_get terms path of None \<Rightarrow> [] | Some tries \<Rightarrow> matching_values tries tokens)
      \<longleftrightarrow> x \<in> set (matching_values (entry_or [] terms path) tokens)"
    for x and terms :: "SubscriberId SearchTermTries" and path tokens
    by (auto simp: entry_or_def split: option.splits)
  define F where "F = (\<lambda>index (terms :: SubscriberId SearchTermTries). case document_index_keys_get keys index of
         Some (Search kv) \<Rightarrow>
           (case search_field_value kv of None \<Rightarrow> []
            | Some tokens \<Rightarrow> (case bt_get terms (search_field kv) of None \<Rightarrow> [] | Some tries \<Rightarrow> matching_values tries tokens))
       | _ \<Rightarrow> [])"
  have F: "sid \<in> set (F i terms) \<longleftrightarrow> (\<exists>kv tokens. document_index_keys_get keys i = Some (Search kv)
      \<and> search_field_value kv = Some tokens
      \<and> sid \<in> set (matching_values (entry_or [] terms (search_field kv)) tokens))" for i terms
  proof -
    have "sid \<in> set (case v of None \<Rightarrow> [] | Some tokens \<Rightarrow>
        (case bt_get terms path of None \<Rightarrow> [] | Some tries \<Rightarrow> matching_values tries tokens))
      \<longleftrightarrow> (\<exists>tokens. v = Some tokens \<and> sid \<in> set (matching_values (entry_or [] terms path) tokens))" for v path
      by (cases v) (simp, simp only: option.case option.inject tries ex_simps simp_thms)
    then show ?thesis unfolding F_def search_case by simp
  qed
  have matching: "sid \<in> set (matching_values (entry_or [] (entry_or [] (fuzzy_searches s) i) path) tokens) \<longleftrightarrow>
     (\<exists>r. R sid i = Some r \<and> (\<exists>q \<in> set (text_queries r). tq_field_path q = path \<and> term_matches (tq_term q) tokens))" for i path tokens
    using matching_queries [OF text_invD(3) [OF assms], of i sid "[]"]
      matching_queries [OF text_invD(3) [OF assms], of i sid "text_queries (the (R sid i))"]
    by (cases "R sid i") (simp_all add: text_invD(4) [OF assms])
  have "sid \<in> set (add_fuzzy_matches s did keys) \<longleftrightarrow>
    (\<exists>index kv tokens. index_table index = tablet_id did
       \<and> document_index_keys_get keys index = Some (Search kv) \<and> search_field_value kv = Some tokens
       \<and> sid \<in> set (matching_values (entry_or [] (entry_or [] (fuzzy_searches s) index) (search_field kv)) tokens))"
    unfolding add_fuzzy_matches_def F_def [symmetric]
    by (subst concat_bt [OF wf, where d = "[]"]) (auto simp: F entry split: if_splits)
  then show ?thesis unfolding matching by blast
qed

lemma add_matches_iff:
  assumes "text_inv s R"
  shows "sid \<in> set (add_matches s did keys) \<longleftrightarrow>
    (\<exists>index r kv. R sid index = Some r \<and> index_table index = tablet_id did
       \<and> document_index_keys_get keys index = Some (Search kv) \<and> search_concerns r kv)"
  unfolding add_matches_def set_append Un_iff add_filter_conditions_matches_iff [OF assms]
    add_fuzzy_matches_iff [OF assms] search_concerns_def by blast

end
