(* ===== verification/In_Memory_Indexes.thy ===== *)
theory In_Memory_Indexes
  imports Registry_View
begin

text \<open>
  Database indexes kept in memory (\<^verbatim>\<open>src/crates/indexing/src/backend_in_memory_indexes.rs\<close>), with the index
  updates of a write that the registry computes (\<^verbatim>\<open>src/crates/indexing/src/index_registry.rs\<close>): their
  loading, their update by a write, and range queries. The entries that loading reads from persistence
  are an argument. The updates of a write are collected in a map ordered by index and key, whose
  comparison of keys can panic; the model inserts into a sorted list with that comparison. The theory
  shows that a loaded index stays a view of the documents of its table.
\<close>

subsection \<open>The index updates of a write\<close>

fun resolved_index_keys :: "ResolvedDocument \<Rightarrow> Index list \<Rightarrow> error + (Index \<times> IndexKey) list" where
  "resolved_index_keys d [] = Inr []"
| "resolved_index_keys d (i # is) = (case metadata_config (index_metadata i) of
     Database spec _ \<Rightarrow> and_then (rd_index_key d (db_fields spec)) (\<lambda>k.
       and_then (resolved_index_keys d is) (\<lambda>ks. Inr ((i, k) # ks)))
   | _ \<Rightarrow> resolved_index_keys d is)"

definition rd_index_keys :: "IndexRegistry \<Rightarrow> ResolvedDocument \<Rightarrow> error + (Index \<times> IndexKey) list" where
  "rd_index_keys r d = and_then (indexes_by_table r (rd_tablet_id d)) (resolved_index_keys d)"

definition index_update :: "DatabaseIndexValue \<Rightarrow> Index \<times> IndexKey \<Rightarrow> DatabaseIndexUpdate" where
  "index_update v = (\<lambda>(i, k). \<lparr>diu_index_id = index_id i, diu_key = k, diu_value = v,
     diu_is_system_index = is_reserved (descriptor (metadata_name (index_metadata i)))\<rparr>)"

definition update_cmp :: "DatabaseIndexUpdate \<Rightarrow> DatabaseIndexUpdate \<Rightarrow> error + Ordering" where
  "update_cmp a b =
     (if diu_index_id a < diu_index_id b then Inr Less
      else if diu_index_id b < diu_index_id a then Inr Greater
      else index_key_cmp (diu_key a) (diu_key b))"

fun updates_insert :: "DatabaseIndexUpdate \<Rightarrow> DatabaseIndexUpdate list \<Rightarrow> error + DatabaseIndexUpdate list" where
  "updates_insert u [] = Inr [u]"
| "updates_insert u (v # vs) = and_then (update_cmp u v) (\<lambda>c. case c of
       Less \<Rightarrow> Inr (u # v # vs)
     | Equal \<Rightarrow> Inr (u # vs)
     | Greater \<Rightarrow> and_then (updates_insert u vs) (\<lambda>vs'. Inr (v # vs')))"

fun updates_extend :: "DatabaseIndexUpdate list \<Rightarrow> DatabaseIndexUpdate list \<Rightarrow> error + DatabaseIndexUpdate list" where
  "updates_extend [] us = Inr us"
| "updates_extend (v # vs) us = and_then (updates_insert v us) (updates_extend vs)"

definition index_updates ::
  "IndexRegistry \<Rightarrow> ResolvedDocument option \<Rightarrow> ResolvedDocument option \<Rightarrow> error + DatabaseIndexUpdate list" where
  "index_updates r deletion insertion =
     and_then (case deletion of None \<Rightarrow> Inr []
       | Some old \<Rightarrow> and_then (rd_index_keys r old) (\<lambda>ks. updates_extend (map (index_update Deleted) ks) [])) (\<lambda>us.
     case insertion of None \<Rightarrow> Inr us
       | Some new \<Rightarrow> and_then (rd_index_keys r new) (\<lambda>ks. updates_extend (map (index_update (NonClustered (rd_id new))) ks) us))"

subsection \<open>An index in memory\<close>

fun order_apply :: "Order \<Rightarrow> 'a list \<Rightarrow> 'a list" where
  "order_apply Asc xs = xs"
| "order_apply Desc xs = rev xs"

record DatabaseIndexMap =
  dim_inner :: "(IndexKeyBytes, Timestamp \<times> PackedDocument) btree_map"
  dim_last_modified :: Timestamp

definition index_map_new_at :: "Timestamp \<Rightarrow> DatabaseIndexMap" where
  "index_map_new_at ts = \<lparr>dim_inner = [], dim_last_modified = ts\<rparr>"

definition index_map_range :: "DatabaseIndexMap \<Rightarrow> interval \<Rightarrow> (IndexKeyBytes \<times> Timestamp \<times> PackedDocument) list" where
  "index_map_range m i = filter (\<lambda>e. ivl_contains i (fst e)) (dim_inner m)"

definition index_map_insert :: "IndexKeyBytes \<Rightarrow> Timestamp \<Rightarrow> PackedDocument \<Rightarrow> DatabaseIndexMap \<Rightarrow> DatabaseIndexMap" where
  "index_map_insert key ts doc m =
     \<lparr>dim_inner = bt_insert key (ts, doc) (dim_inner m), dim_last_modified = max (dim_last_modified m) ts\<rparr>"

definition index_map_remove :: "IndexKeyBytes \<Rightarrow> Timestamp \<Rightarrow> DatabaseIndexMap \<Rightarrow> DatabaseIndexMap" where
  "index_map_remove key ts m =
     \<lparr>dim_inner = bt_remove key (dim_inner m), dim_last_modified = max (dim_last_modified m) ts\<rparr>"

subsection \<open>The indexes in memory\<close>

type_synonym BackendInMemoryIndexes = "(internal_id, DatabaseIndexMap) btree_map"

fun load_documents ::
  "(PackedDocument \<Rightarrow> error + IndexKeyBytes) \<Rightarrow> (Timestamp \<times> PackedDocument) list \<Rightarrow> DatabaseIndexMap \<Rightarrow> error + DatabaseIndexMap" where
  "load_documents key [] m = Inr m"
| "load_documents key ((ts, doc) # docs) m = and_then (key doc) (\<lambda>k. load_documents key docs (index_map_insert k ts doc m))"

definition in_memory_bootstrap ::
  "IndexRegistry \<Rightarrow> (Timestamp \<times> PackedDocument) list \<Rightarrow> Timestamp \<Rightarrow> error + BackendInMemoryIndexes" where
  "in_memory_bootstrap r docs ts = (case get_enabled r (by_id (reg_index_table r)) of
     None \<Rightarrow> Inl (Bail ''Missing meta index'')
   | Some meta \<Rightarrow> and_then (load_documents
         (\<lambda>doc. and_then (index_key_new [] (developer_id (pd_id doc))) index_key_to_bytes) docs (index_map_new_at ts))
       (\<lambda>m. Inr (bt_insert (index_id meta) m [])))"

text \<open>Loading the indexes of a table that are not in memory, from the entries of one of them.\<close>

fun check_loadable :: "tablet_id \<Rightarrow> ParsedIndexMetadata list \<Rightarrow> error + unit" where
  "check_loadable t [] = Inr ()"
| "check_loadable t (m # ms) =
     (if index_table (metadata_name m) \<noteq> t then Inl (Bail ''Index is for wrong table'')
      else case metadata_config m of
          Database _ st \<Rightarrow> (if st = Enabled then check_loadable t ms
            else Inl (Bail ''Attempting to load index that is not backfilled yet''))
        | _ \<Rightarrow> Inl (Bail ''Attempted to load index that isn't a database index''))"

definition database_key :: "IndexConfig \<Rightarrow> PackedDocument \<Rightarrow> error + IndexKeyBytes" where
  "database_key c doc = (case c of
     Database spec _ \<Rightarrow> pd_index_key doc (db_fields spec)
   | _ \<Rightarrow> Inl (Panic ''internal error: entered unreachable code''))"

definition load_enabled ::
  "tablet_id \<Rightarrow> ParsedIndexMetadata list \<Rightarrow> (Timestamp \<times> PackedDocument) list \<Rightarrow> Timestamp \<Rightarrow> BackendInMemoryIndexes
    \<Rightarrow> error + BackendInMemoryIndexes" where
  "load_enabled t indexes entries ts mem =
     (let ms = filter (\<lambda>m. bt_get mem (internal_id_of (parsed_id m)) = None) indexes
      in if ms = [] then Inr mem
         else and_then (check_loadable t ms) (\<lambda>_.
           and_then (try_map (\<lambda>m. and_then (load_documents (database_key (metadata_config m)) entries (index_map_new_at ts))
               (\<lambda>im. Inr (internal_id_of (parsed_id m), im))) ms)
             (\<lambda>es. Inr (fold (\<lambda>(i, im). bt_insert i im) es mem))))"

fun load_table ::
  "ParsedIndexMetadata list \<Rightarrow> (Timestamp \<times> PackedDocument) list \<Rightarrow> Timestamp \<Rightarrow> BackendInMemoryIndexes
    \<Rightarrow> error + BackendInMemoryIndexes" where
  "load_table [] docs ts mem = Inr mem"
| "load_table (m # ms) docs ts mem = (case metadata_config m of
     Database spec st \<Rightarrow>
       (if st \<noteq> Enabled then Inl (Panic ''assertion failed: on_disk_state == DatabaseIndexState::Enabled'')
        else and_then (load_documents (\<lambda>doc. pd_index_key doc (db_fields spec)) docs (index_map_new_at ts)) (\<lambda>im.
          load_table ms docs ts (bt_insert (internal_id_of (parsed_id m)) im mem)))
   | _ \<Rightarrow> load_table ms docs ts mem)"

definition in_memory_load_table ::
  "IndexRegistry \<Rightarrow> tablet_id \<Rightarrow> (Timestamp \<times> PackedDocument) list \<Rightarrow> Timestamp \<Rightarrow> BackendInMemoryIndexes
    \<Rightarrow> error + BackendInMemoryIndexes" where
  "in_memory_load_table r t docs ts mem = load_table (enabled_indexes_for_table r t) docs ts mem"

definition apply_update ::
  "Timestamp \<Rightarrow> ResolvedDocument option \<Rightarrow> DatabaseIndexUpdate \<Rightarrow> BackendInMemoryIndexes \<Rightarrow> error + BackendInMemoryIndexes" where
  "apply_update ts insertion u mem = (case bt_get mem (diu_index_id u) of
     None \<Rightarrow> Inr mem
   | Some m \<Rightarrow> (case diu_value u of
       Deleted \<Rightarrow> and_then (index_key_to_bytes (diu_key u)) (\<lambda>k. Inr (bt_insert (diu_index_id u) (index_map_remove k ts m) mem))
     | NonClustered i \<Rightarrow> (case insertion of
         Some d \<Rightarrow> if i \<noteq> rd_id d then Inl (Panic ''assertion failed: *doc_id == doc.id()'')
           else and_then (index_key_to_bytes (diu_key u)) (\<lambda>k.
             Inr (bt_insert (diu_index_id u) (index_map_insert k ts (pd_pack d) m) mem))
       | None \<Rightarrow> Inl (Panic ''Unexpected index update''))))"

fun apply_updates ::
  "Timestamp \<Rightarrow> ResolvedDocument option \<Rightarrow> DatabaseIndexUpdate list \<Rightarrow> BackendInMemoryIndexes \<Rightarrow> error + BackendInMemoryIndexes" where
  "apply_updates ts insertion [] mem = Inr mem"
| "apply_updates ts insertion (u # us) mem = and_then (apply_update ts insertion u mem) (apply_updates ts insertion us)"

definition in_memory_update ::
  "IndexRegistry \<Rightarrow> Timestamp \<Rightarrow> ResolvedDocument option \<Rightarrow> ResolvedDocument option \<Rightarrow> BackendInMemoryIndexes
    \<Rightarrow> error + BackendInMemoryIndexes \<times> DatabaseIndexUpdate list" where
  "in_memory_update r ts deletion insertion mem =
     (let mem1 = (case (deletion, insertion) of
          (Some old, None) \<Rightarrow> if rd_tablet_id old = reg_index_table r then bt_remove (internal_id_of (rd_id old)) mem else mem
        | _ \<Rightarrow> mem)
      in and_then (index_updates r deletion insertion) (\<lambda>us.
         and_then (apply_updates ts insertion us mem1) (\<lambda>mem'. Inr (mem', us))))"

definition in_memory_range ::
  "BackendInMemoryIndexes \<Rightarrow> internal_id \<Rightarrow> interval \<Rightarrow> Order \<Rightarrow> (IndexKeyBytes \<times> Timestamp \<times> PackedDocument) list option" where
  "in_memory_range mem i ivl order = map_option (\<lambda>m. order_apply order (index_map_range m ivl)) (bt_get mem i)"

definition in_memory_indexes_last_modified :: "BackendInMemoryIndexes \<Rightarrow> (internal_id, Timestamp) btree_map" where
  "in_memory_indexes_last_modified mem = map (\<lambda>(i, m). (i, dim_last_modified m)) mem"

subsection \<open>Keys of documents are prefix-free\<close>

definition keyable_document :: "PackedDocument \<Rightarrow> bool" where
  "keyable_document doc \<longleftrightarrow> keyable (Object (pd_value doc)) \<and> wf_id (developer_id (pd_id doc))"

lemma keyable_empty: "keyable (Object object_empty)"
  by (simp add: keyable_def object_empty_def object_try_from_iff max_nesting_def MAX_SIZE_def MAX_NESTING_def
      MAX_OBJECT_FIELDS_def)

lemma keyable_document_valid: "keyable_document doc \<Longrightarrow> valid_document doc"
  by (simp add: keyable_document_def wf_id_def valid_document_def)

lemma get_path_loop_keyable: "keyable v \<Longrightarrow> get_path_loop v fs = Some w \<Longrightarrow> keyable w"
proof (induction v fs rule: get_path_loop.induct)
  case (2 ob f fs)
  obtain sz n fields where ob: "ob = ConvexObject sz n fields" by (cases ob)
  from "2.prems"(2) obtain v where v: "bt_get fields f = Some v" "get_path_loop v fs = Some w"
    by (auto simp: ob split: option.splits)
  then have "(f, v) \<in> set fields" by (auto simp: bt_get_def dest: map_of_SomeD)
  with "2.prems"(1) have "keyable v" using keyable_object [of sz n fields "(f, v)"] by (simp add: ob)
  with 2(1) [of v] v show ?case by (simp add: ob)
qed auto

lemma get_path_keyable: "keyable (Object ob) \<Longrightarrow> get_path ob path = Some w \<Longrightarrow> keyable w"
  using get_path_loop_keyable [of "Object ob" path w] by (cases path) auto

lemma alphabet_nonzero: "c \<in> set ALPHABET \<Longrightarrow> c \<noteq> 0"
proof -
  have "list_all (\<lambda>c. c \<noteq> 0) ALPHABET" by code_simp
  then show "c \<in> set ALPHABET \<Longrightarrow> c \<noteq> 0" by (auto simp: list_all_iff)
qed

lemma id_encode_alphabet:
  assumes "wf_id did" "id_encode did = Inr s"
  shows "set s \<subseteq> set ALPHABET"
  using assms padded_encoding_alphabet [of "id_binary did"] set_take_subset
  by (fastforce simp: id_encode_b32 b32_encode_eq wf_id_def)

lemma write_escaped_plain: "0 \<notin> set s \<Longrightarrow> write_escaped_bytes s = s @ [0]"
  by (induction s) auto

lemma plain_prefix: "0 \<notin> set b \<Longrightarrow> (a @ [0]) @ z = b @ [0 :: byte] \<Longrightarrow> a = b \<and> z = []"
  by (induction a arbitrary: b) (auto simp: Cons_eq_append_conv append_eq_Cons_conv)

lemma seq_prefix:
  assumes "length xs = length ys" "\<And>v. v \<in> set xs \<union> set ys \<Longrightarrow> v = None \<or> keyable (the v)"
    and z: "(concat (map optional_bytes xs) @ value_bytes a) @ z = concat (map optional_bytes ys) @ value_bytes b"
  shows "xs = ys \<and> value_bytes a @ z = value_bytes b"
proof -
  let ?k = "concat (map optional_bytes xs) @ value_bytes a" and ?l = "concat (map optional_bytes ys) @ value_bytes b"
  have cmp: "cmp_of (?k @ w) ?l = then_with (lex_cmp optional_ordering xs ys) (cmp_of (value_bytes a @ w) (value_bytes b))" for w
    using optional.seq [OF assms(1,2), of "value_bytes a @ w" "value_bytes b"] value_bytes_tame [of b "[]"] by simp
  have "lex_cmp optional_ordering xs ys \<noteq> Less"
  proof
    assume "lex_cmp optional_ordering xs ys = Less"
    then have "?k @ z @ [0] < ?l" using cmp [of "z @ [0]"] by simp
    moreover have "?k @ z @ [0] = ?l @ [0]" using z by (metis append.assoc)
    ultimately have "?l @ [0] < ?l @ []" by (metis append_Nil2)
    then show False by (simp only: append_less_iff) simp
  qed
  moreover have "lex_cmp optional_ordering xs ys \<noteq> Greater"
  proof
    assume "lex_cmp optional_ordering xs ys = Greater"
    then have "?l < ?k @ []" using cmp [of "[]"] by simp
    then have "?k @ z < ?k @ []" unfolding z .
    then show False by (simp only: append_less_iff) simp
  qed
  ultimately have "lex_cmp optional_ordering xs ys = Equal" by (cases "lex_cmp optional_ordering xs ys") auto
  then have "xs = ys" using optional_seq_inj [OF assms(1,2)] by simp
  with z show ?thesis by simp
qed

lemma pd_index_key_prefix_free:
  assumes "keyable_document d" "keyable_document e" "pd_index_key d paths = Inr k" "pd_index_key e paths = Inr k'"
    and "prefix k k'"
  shows "k = k'" "developer_id (pd_id d) = developer_id (pd_id e)"
proof -
  let ?vs = "\<lambda>doc. map (get_path (pd_value doc)) paths"
  obtain s where s: "id_encode (developer_id (pd_id d)) = Inr s" "k = concat (map optional_bytes (?vs d)) @ value_bytes (String s)"
    using assms(3) by (auto simp: pd_index_key_iff o_def)
  obtain t where t: "id_encode (developer_id (pd_id e)) = Inr t" "k' = concat (map optional_bytes (?vs e)) @ value_bytes (String t)"
    using assms(4) by (auto simp: pd_index_key_iff o_def)
  have ids: "wf_id (developer_id (pd_id d))" "wf_id (developer_id (pd_id e))"
    using assms(1,2) by (simp_all add: keyable_document_def)
  have "v = None \<or> keyable (the v)" if "v \<in> set (?vs d) \<union> set (?vs e)" for v
    using that assms(1,2) get_path_keyable by (cases v) (force simp: keyable_document_def)+
  moreover obtain z where z: "k @ z = k'" using assms(5) by (auto simp: prefix_def)
  ultimately have "value_bytes (String s) @ z = value_bytes (String t)"
    using seq_prefix [of "?vs d" "?vs e" "String s" z "String t"] s(2) t(2) by fastforce
  moreover have "0 \<notin> set s" "0 \<notin> set t"
    using id_encode_alphabet [OF ids(1) s(1)] id_encode_alphabet [OF ids(2) t(1)] alphabet_nonzero by auto
  ultimately have "s = t" "z = []"
    using plain_prefix [of t s z] by (simp_all add: write_escaped_plain)
  then show "k = k'" using z by simp
  have "Inr (developer_id (pd_id d)) = (Inr (developer_id (pd_id e)) :: error + DeveloperDocumentId)"
    using id_decode_encode [OF ids(1) s(1)] id_decode_encode [OF ids(2) t(1)] \<open>s = t\<close> by simp
  then show "developer_id (pd_id d) = developer_id (pd_id e)" by simp
qed

lemma pd_index_key_inj:
  assumes "keyable_document d" "keyable_document e" "pd_index_key d paths = Inr k" "pd_index_key e paths = Inr k"
    and "tablet_id (pd_id d) = tablet_id (pd_id e)"
  shows "pd_id d = pd_id e"
  using pd_index_key_prefix_free(2) [OF assms(1-4) prefix_order.refl] assms(5) by (cases "pd_id d"; cases "pd_id e") simp

subsection \<open>The updates as a map\<close>

text \<open>An update under its index and the bytes of its key.\<close>

definition update_key :: "DatabaseIndexUpdate \<Rightarrow> internal_id \<times> IndexKeyBytes" where
  "update_key u = (diu_index_id u, projr (index_key_to_bytes (diu_key u)))"

definition keyed :: "DatabaseIndexUpdate list \<Rightarrow> (internal_id \<times> IndexKeyBytes, DatabaseIndexUpdate) btree_map" where
  "keyed us = map (\<lambda>u. (update_key u, u)) us"

lemma keyed_simps [simp]: "keyed [] = []" "keyed (u # us) = (update_key u, u) # keyed us" "set (map snd (keyed us)) = set us"
  by (simp_all add: keyed_def o_def image_image)

definition comparable :: "DatabaseIndexUpdate \<Rightarrow> DatabaseIndexUpdate \<Rightarrow> bool" where
  "comparable u v \<longleftrightarrow> update_cmp u v = Inr (cmp_of (update_key u) (update_key v))"

lemma bt_insert_Cons:
  assumes "bt_wf (e # m)"
  shows "bt_insert k v (e # m) = (if k < fst e then (k, v) # e # m else if k = fst e then (k, v) # m else e # bt_insert k v m)"
proof -
  have later: "fst e < fst x" if "x \<in> set m" for x using assms that by (simp add: bt_wf_Cons)
  have "filter (\<lambda>x. fst x < k) m = []" "filter (\<lambda>x. k < fst x) m = m" if "k \<le> fst e"
    using later that by (auto simp: filter_empty_conv filter_id_conv not_less intro: less_imp_le le_less_trans order_trans)
  then show ?thesis by (auto simp: bt_insert_def not_less)
qed

lemma updates_insert_eq:
  assumes "bt_wf (keyed us)" "\<forall>v \<in> set us. comparable u v"
  shows "\<exists>us'. updates_insert u us = Inr us' \<and> keyed us' = bt_insert (update_key u) u (keyed us)"
  using assms
proof (induction us)
  case (Cons v us)
  have c: "update_cmp u v = Inr (cmp_of (update_key u) (update_key v))" using Cons.prems(2) by (simp add: comparable_def)
  have ins: "bt_insert (update_key u) u (keyed (v # us)) = (if update_key u < update_key v then (update_key u, u) # keyed (v # us)
      else if update_key u = update_key v then (update_key u, u) # keyed us
      else (update_key v, v) # bt_insert (update_key u) u (keyed us))"
    using bt_insert_Cons [of "(update_key v, v)" "keyed us" "update_key u" u] Cons.prems(1) by simp
  obtain us' where "updates_insert u us = Inr us'" "keyed us' = bt_insert (update_key u) u (keyed us)"
    using Cons by (auto simp: bt_wf_Cons)
  then show ?case
    unfolding ins by (auto simp: c cmp_of_def)
qed (simp add: bt_insert_def)

lemma updates_extend_eq:
  assumes "bt_wf (keyed us)" "\<forall>v \<in> set vs. \<forall>w \<in> set us \<union> set vs. comparable v w"
  shows "\<exists>us'. updates_extend vs us = Inr us' \<and> keyed us' = fold (\<lambda>(k, u). bt_insert k u) (keyed vs) (keyed us)"
  using assms
proof (induction vs arbitrary: us)
  case (Cons v vs)
  obtain us1 where us1: "updates_insert v us = Inr us1" "keyed us1 = bt_insert (update_key v) v (keyed us)"
    using updates_insert_eq [OF Cons.prems(1), of v] Cons.prems(2) by auto
  have wf: "bt_wf (keyed us1)" unfolding us1(2) using Cons.prems(1) by auto
  have "set us1 \<subseteq> insert v (set us)"
    using arg_cong [OF us1(2), of "\<lambda>m. snd ` set m"] by (auto simp: keyed_def set_bt_insert image_iff)
  with Cons.prems(2) have "\<forall>x \<in> set vs. \<forall>w \<in> set us1 \<union> set vs. comparable x w" by auto
  from Cons.IH [OF wf this] us1 show ?case by auto
qed simp

subsection \<open>The updates of a document\<close>

text \<open>An index over the documents of a table on the given fields is registered under an id.\<close>

definition database_index :: "index_documents \<Rightarrow> internal_id \<Rightarrow> tablet_id \<Rightarrow> field_path list \<Rightarrow> bool" where
  "database_index D i t paths \<longleftrightarrow>
     (\<exists>m st. D i = Some m \<and> index_table (metadata_name m) = t \<and> metadata_config m = Database (DatabaseIndexSpec paths) st)"

lemma database_index_fun: "database_index D i t paths \<Longrightarrow> database_index D i t' paths' \<Longrightarrow> t = t' \<and> paths = paths'"
  by (auto simp: database_index_def)

lemma set_indexes_by_table:
  assumes "registry_of r D" "indexes_by_table r t = Inr is"
  shows "x \<in> set is \<longleftrightarrow> (\<exists>m. live D m \<and> x = index_new m \<and> index_table (metadata_name m) = t)"
proof -
  have named: "x \<in> set (named r n) \<longleftrightarrow> (\<exists>m. live D m \<and> x = index_new m \<and> metadata_name m = n)" for n
  proof -
    have "x \<in> set (named r n) \<longleftrightarrow> (\<exists>b. bt_get (state_map r b) n = Some x)"
      unfolding ex_bool_eq named_def
      by (cases "bt_get (state_map r True) n"; cases "bt_get (state_map r False) n") (auto simp: map_filter_simps)
    then show ?thesis using registry_ofD(6) [OF assms(1)] by blast
  qed
  have "set is = (\<Union>n \<in> set (table_names r t). set (named r n))"
    using assms(2) indexes_by_table_eq [OF assms(1), of t] by auto
  then show ?thesis using set_table_names [OF assms(1)] named by auto
qed

lemma rd_index_key_bytes:
  assumes "wf_id (dd_id (rd_document d))"
  obtains k s where "rd_index_key d paths = Inr k" "id_encode (dd_id (rd_document d)) = Inr s"
    "values_with_id k = map (get_path (dd_value (rd_document d))) paths @ [Some (String s)]"
    "\<exists>b. index_key_to_bytes k = Inr b \<and> pd_index_key (pd_pack d) paths = Inr b"
proof -
  obtain s where s: "id_encode (dd_id (rd_document d)) = Inr s" "id_to_value (dd_id (rd_document d)) = Inr (String s)"
    using id_to_value_total assms by (auto simp: wf_id_def)
  show thesis
    by (rule that [of "\<lparr>values_with_id = map (get_path (dd_value (rd_document d))) paths @ [Some (String s)],
          key_id = dd_id (rd_document d)\<rparr>" s])
      (simp_all add: s rd_index_key_def new_allow_missing_def index_key_to_bytes_def values_to_bytes_concat
        pd_index_key_iff pd_pack_def rd_id_def o_def optional_bytes_def)
qed

lemma resolved_index_keys_total:
  assumes "wf_id (dd_id (rd_document d))"
  shows "\<exists>ks. resolved_index_keys d is = Inr ks
    \<and> (\<forall>i k. (i, k) \<in> set ks \<longleftrightarrow> i \<in> set is
         \<and> (\<exists>spec st. metadata_config (index_metadata i) = Database spec st \<and> rd_index_key d (db_fields spec) = Inr k))"
proof (induction "is")
  case (Cons i "is")
  show ?case
  proof (cases "metadata_config (index_metadata i)")
    case (Database spec st)
    obtain k where "rd_index_key d (db_fields spec) = Inr k" using rd_index_key_bytes [OF assms] by metis
    with Cons Database show ?thesis by auto
  qed (use Cons in auto)
qed simp

text \<open>An update that a document causes in an index of its table.\<close>

definition caused :: "index_documents \<Rightarrow> ResolvedDocument \<Rightarrow> DatabaseIndexUpdate \<Rightarrow> bool" where
  "caused D d u \<longleftrightarrow> (\<exists>paths b s. database_index D (diu_index_id u) (rd_tablet_id d) paths
     \<and> id_encode (dd_id (rd_document d)) = Inr s
     \<and> values_with_id (diu_key u) = map (get_path (dd_value (rd_document d))) paths @ [Some (String s)]
     \<and> index_key_to_bytes (diu_key u) = Inr b \<and> pd_index_key (pd_pack d) paths = Inr b)"

lemma cmp_of_Pair: "cmp_of (a, b) (c, d) = (if a < c then Less else if c < a then Greater else cmp_of b d)"
  by (auto simp: cmp_of_def less_prod_def)

lemma caused_comparable:
  assumes "keyable_document (pd_pack d)" "keyable_document (pd_pack e)" "caused D d u" "caused D e v"
  shows "comparable u v"
proof (cases "diu_index_id u = diu_index_id v")
  case False
  then show ?thesis by (auto simp: comparable_def update_cmp_def update_key_def cmp_of_Pair)
next
  case True
  obtain paths b s where u: "database_index D (diu_index_id u) (rd_tablet_id d) paths" "id_encode (dd_id (rd_document d)) = Inr s"
    "values_with_id (diu_key u) = map (get_path (dd_value (rd_document d))) paths @ [Some (String s)]"
    "index_key_to_bytes (diu_key u) = Inr b"
    using assms(3) unfolding caused_def by blast
  obtain paths' c t where v: "database_index D (diu_index_id v) (rd_tablet_id e) paths'" "id_encode (dd_id (rd_document e)) = Inr t"
    "values_with_id (diu_key v) = map (get_path (dd_value (rd_document e))) paths' @ [Some (String t)]"
    "index_key_to_bytes (diu_key v) = Inr c"
    using assms(4) unfolding caused_def by blast
  let ?xs = "values_with_id (diu_key u)" and ?ys = "values_with_id (diu_key v)"
  have len: "length ?xs = length ?ys" using database_index_fun u(1) v(1) True by (fastforce simp: u(3) v(3))
  have ids: "wf_id (dd_id (rd_document d))" "wf_id (dd_id (rd_document e))" and
    objs: "keyable (Object (dd_value (rd_document d)))" "keyable (Object (dd_value (rd_document e)))"
    using assms(1,2) by (simp_all add: keyable_document_def pd_pack_def rd_id_def)
  have wf: "w = None \<or> keyable (the w)" if "w \<in> set ?xs \<union> set ?ys" for w
    using that objs get_path_keyable keyable_id [OF _ u(2)] keyable_id [OF _ v(2)] ids
    by (cases w) (auto simp: u(3) v(3) wf_id_def dest: sym)
  have "cmp_of (concat (map optional_bytes ?xs)) (concat (map optional_bytes ?ys)) = lex_cmp optional_ordering ?xs ?ys"
    using optional.seq [OF len wf, of "[]" "[]"] by (cases "lex_cmp optional_ordering ?xs ?ys") simp_all
  moreover have "b = concat (map optional_bytes ?xs)" "c = concat (map optional_bytes ?ys)"
    using u(4) v(4) by (simp_all add: index_key_to_bytes_def values_to_bytes_concat)
  ultimately show ?thesis
    using cmp_optionals_eq [OF wf] u(4) v(4) True
    by (simp add: comparable_def update_cmp_def update_key_def cmp_of_Pair index_key_cmp_def)
qed

lemma caused_bytes: "caused D d u \<Longrightarrow> index_key_to_bytes (diu_key u) = Inr (snd (update_key u))"
  by (auto simp: caused_def update_key_def)

text \<open>The key of an optional document in an index.\<close>

definition key_in :: "index_documents \<Rightarrow> ResolvedDocument option \<Rightarrow> internal_id \<Rightarrow> IndexKeyBytes \<Rightarrow> bool" where
  "key_in D doc i k \<longleftrightarrow> (\<exists>d paths. doc = Some d \<and> database_index D i (rd_tablet_id d) paths
     \<and> pd_index_key (pd_pack d) paths = Inr k)"

lemma live_iff: "registry_of r D \<Longrightarrow> live D m \<longleftrightarrow> (\<exists>i. D i = Some m \<and> index_id (index_new m) = i)"
  by (auto simp: live_def index_new_def)

lemma rd_index_keys_caused:
  assumes r: "registry_of r D" and d: "keyable_document (pd_pack d)"
  obtains ks where "rd_index_keys r d = Inr ks"
    "\<And>u. u \<in> set (map (index_update v) ks) \<Longrightarrow> caused D d u \<and> diu_value u = v"
    "\<And>i k. (\<exists>u \<in> set (map (index_update v) ks). update_key u = (i, k)) \<longleftrightarrow> key_in D (Some d) i k"
proof -
  have wf: "wf_id (dd_id (rd_document d))" using d by (simp add: keyable_document_def pd_pack_def rd_id_def)
  obtain "is" where "is": "indexes_by_table r (rd_tablet_id d) = Inr is" using indexes_by_table_eq [OF r] by blast
  obtain ks where ks: "resolved_index_keys d is = Inr ks"
    "\<And>i k. (i, k) \<in> set ks \<longleftrightarrow> i \<in> set is
         \<and> (\<exists>spec st. metadata_config (index_metadata i) = Database spec st \<and> rd_index_key d (db_fields spec) = Inr k)"
    using resolved_index_keys_total [OF wf] by metis
  have mem: "(x, k) \<in> set ks \<longleftrightarrow> (\<exists>m paths st. D (index_id x) = Some m \<and> x = index_new m \<and> index_table (metadata_name m) = rd_tablet_id d
      \<and> metadata_config m = Database (DatabaseIndexSpec paths) st \<and> rd_index_key d paths = Inr k)" for x k
  proof -
    have "(\<exists>spec st. metadata_config m = Database spec st \<and> rd_index_key d (db_fields spec) = Inr k)
        \<longleftrightarrow> (\<exists>paths st. metadata_config m = Database (DatabaseIndexSpec paths) st \<and> rd_index_key d paths = Inr k)" for m
      by (metis DatabaseIndexSpec.collapse DatabaseIndexSpec.sel)
    then show ?thesis
      unfolding ks(2) set_indexes_by_table [OF r "is"] live_iff [OF r] by (fastforce simp: index_new_def)
  qed
  have step: "caused D d (index_update v (x, k)) \<and> update_key (index_update v (x, k)) = (index_id x, projr (index_key_to_bytes k))"
    if xk: "(x, k) \<in> set ks" for x k
  proof -
    obtain m paths st where m: "D (index_id x) = Some m" "index_table (metadata_name m) = rd_tablet_id d"
      "metadata_config m = Database (DatabaseIndexSpec paths) st" "rd_index_key d paths = Inr k"
      using xk mem by blast
    obtain k' s where "rd_index_key d paths = Inr k'" "id_encode (dd_id (rd_document d)) = Inr s"
      "values_with_id k' = map (get_path (dd_value (rd_document d))) paths @ [Some (String s)]"
      "\<exists>b. index_key_to_bytes k' = Inr b \<and> pd_index_key (pd_pack d) paths = Inr b"
      using rd_index_key_bytes [OF wf] by metis
    with m show ?thesis
      by (auto simp: caused_def database_index_def index_update_def update_key_def)
  qed
  show thesis
  proof (rule that [of ks])
    show "rd_index_keys r d = Inr ks" by (simp add: rd_index_keys_def "is" ks(1))
    show "caused D d u \<and> diu_value u = v" if "u \<in> set (map (index_update v) ks)" for u
      using that step by (auto simp: index_update_def)
    show "(\<exists>u \<in> set (map (index_update v) ks). update_key u = (i, k)) \<longleftrightarrow> key_in D (Some d) i k" for i k
    proof
      assume "\<exists>u \<in> set (map (index_update v) ks). update_key u = (i, k)"
      then obtain u where "u \<in> set (map (index_update v) ks)" "update_key u = (i, k)" by blast
      then have "caused D d u" using step by auto
      with \<open>update_key u = (i, k)\<close> show "key_in D (Some d) i k" by (auto simp: caused_def key_in_def update_key_def)
    next
      assume "key_in D (Some d) i k"
      then obtain m paths st where m: "D i = Some m" "index_table (metadata_name m) = rd_tablet_id d"
        "metadata_config m = Database (DatabaseIndexSpec paths) st" "pd_index_key (pd_pack d) paths = Inr k"
        by (auto simp: key_in_def database_index_def)
      obtain k' where k': "rd_index_key d paths = Inr k'" "index_key_to_bytes k' = Inr k"
        using rd_index_key_bytes [OF wf, of paths] m(4) by (metis sum.inject(2))
      have "index_id (index_new m) = i" using registry_ofD(4) [OF r m(1)] by (simp add: index_new_def)
      then have "(index_new m, k') \<in> set ks" using m k'(1) unfolding mem by blast
      with step [OF this] k'(2) \<open>index_id (index_new m) = i\<close>
      show "\<exists>u \<in> set (map (index_update v) ks). update_key u = (i, k)" by (intro bexI [of _ "index_update v (index_new m, k')"]) auto
    qed
  qed
qed

lemma extend_updates:
  assumes wf: "bt_wf (keyed us)" and cmp: "\<forall>v \<in> set vs. \<forall>w \<in> set us \<union> set vs. comparable v w"
    and val: "\<forall>v \<in> set vs. diu_value v = x"
  shows "\<exists>us'. updates_extend vs us = Inr us' \<and> bt_wf (keyed us') \<and> set us' \<subseteq> set us \<union> set vs
    \<and> (\<forall>k. map_option diu_value (bt_get (keyed us') k) =
         (if k \<in> update_key ` set vs then Some x else map_option diu_value (bt_get (keyed us) k)))"
proof -
  obtain us' where us': "updates_extend vs us = Inr us'" "keyed us' = fold (\<lambda>(k, u). bt_insert k u) (keyed vs) (keyed us)"
    using updates_extend_eq [OF wf cmp] by blast
  have get: "bt_get (keyed us') k = (case map_of (rev (keyed vs)) k of Some v \<Rightarrow> Some v | None \<Rightarrow> bt_get (keyed us) k)" for k
    unfolding us'(2) by (rule bt.get_fold_insert [OF wf])
  have wf': "bt_wf (keyed us')" unfolding us'(2) by (rule bt.invar_fold_insert [OF wf])
  have some: "u \<in> set vs" if "map_of (rev (keyed vs)) k = Some u" for k u
    using map_of_SomeD [OF that] by (auto simp: keyed_def)
  have none: "map_of (rev (keyed vs)) k = None \<longleftrightarrow> k \<notin> update_key ` set vs" for k
    by (auto simp: map_of_eq_None_iff keyed_def image_iff)
  have "set us' \<subseteq> set us \<union> set vs"
  proof
    fix u assume "u \<in> set us'"
    then have "bt_get (keyed us') (update_key u) = Some u" using wf' by (auto simp: bt_get_iff keyed_def)
    then show "u \<in> set us \<union> set vs"
      unfolding get using some bt_get_iff [OF wf] by (auto simp: keyed_def split: option.splits)
  qed
  moreover have "map_option diu_value (bt_get (keyed us') k) =
      (if k \<in> update_key ` set vs then Some x else map_option diu_value (bt_get (keyed us) k))" for k
    using none [of k] some [of k] val by (auto simp: get split: option.splits)
  ultimately show ?thesis using us'(1) wf' by blast
qed

text \<open>
  The updates of a write, as a map from index and key: the new document under its keys, and deletions
  under the keys of the old one that the new one does not have.
\<close>

definition update_value ::
  "index_documents \<Rightarrow> ResolvedDocument option \<Rightarrow> ResolvedDocument option \<Rightarrow> internal_id \<times> IndexKeyBytes \<Rightarrow> DatabaseIndexValue option" where
  "update_value D old new ik =
     (if key_in D new (fst ik) (snd ik) then Some (NonClustered (rd_id (the new)))
      else if key_in D old (fst ik) (snd ik) then Some Deleted else None)"

lemma index_updates_eq:
  assumes r: "registry_of r D" and old: "\<forall>d. old = Some d \<longrightarrow> keyable_document (pd_pack d)"
    and new: "\<forall>d. new = Some d \<longrightarrow> keyable_document (pd_pack d)"
  obtains us where "index_updates r old new = Inr us" "bt_wf (keyed us)"
    "\<And>u. u \<in> set us \<Longrightarrow> index_key_to_bytes (diu_key u) = Inr (snd (update_key u))"
    "\<And>ik. map_option diu_value (bt_get (keyed us) ik) = update_value D old new ik"
proof -
  define C where "C = {u. \<exists>d. (old = Some d \<or> new = Some d) \<and> caused D d u}"
  have cmp: "comparable u v" if "u \<in> C" "v \<in> C" for u v
    using that caused_comparable old new unfolding C_def by blast
  have ext: "\<exists>us'. (case doc of None \<Rightarrow> Inr us
       | Some d \<Rightarrow> and_then (rd_index_keys r d) (\<lambda>ks. updates_extend (map (index_update (v d)) ks) us)) = Inr us'
      \<and> bt_wf (keyed us') \<and> set us' \<subseteq> C
      \<and> (\<forall>ik. map_option diu_value (bt_get (keyed us') ik) = (if key_in D doc (fst ik) (snd ik) then Some (v (the doc))
            else map_option diu_value (bt_get (keyed us) ik)))"
    if us: "bt_wf (keyed us)" "set us \<subseteq> C" and doc: "doc = old \<or> doc = new" for us doc v
  proof (cases doc)
    case None
    with us show ?thesis by (simp add: key_in_def)
  next
    case (Some d)
    then have d: "keyable_document (pd_pack d)" using doc old new by auto
    obtain ks where ks: "rd_index_keys r d = Inr ks"
      "\<And>u. u \<in> set (map (index_update (v d)) ks) \<Longrightarrow> caused D d u \<and> diu_value u = v d"
      "\<And>i k. (\<exists>u \<in> set (map (index_update (v d)) ks). update_key u = (i, k)) \<longleftrightarrow> key_in D (Some d) i k"
      by (rule rd_index_keys_caused [OF r d, of "v d"]) blast
    let ?vs = "map (index_update (v d)) ks"
    have vs: "set ?vs \<subseteq> C" using ks(2) doc Some by (auto simp: C_def)
    have "ik \<in> update_key ` set ?vs \<longleftrightarrow> key_in D doc (fst ik) (snd ik)" for ik
      using ks(3) [of "fst ik" "snd ik"] Some by (auto simp: image_iff)
    moreover have "\<forall>x \<in> set ?vs. \<forall>w \<in> set us \<union> set ?vs. comparable x w" using vs us(2) cmp by blast
    note extend_updates [OF us(1) this, of "v d"]
    moreover have "\<forall>x \<in> set ?vs. diu_value x = v d" using ks(2) by blast
    ultimately obtain us' where "updates_extend ?vs us = Inr us'" "bt_wf (keyed us')" "set us' \<subseteq> set us \<union> set ?vs"
      "\<forall>k. map_option diu_value (bt_get (keyed us') k) =
         (if key_in D doc (fst k) (snd k) then Some (v d) else map_option diu_value (bt_get (keyed us) k))"
      by auto
    moreover from this(3) have "set us' \<subseteq> C" using us(2) vs by blast
    ultimately show ?thesis using Some ks(1) by simp
  qed
  obtain us1 where us1: "(case old of None \<Rightarrow> Inr []
       | Some d \<Rightarrow> and_then (rd_index_keys r d) (\<lambda>ks. updates_extend (map (index_update Deleted) ks) [])) = Inr us1"
    "bt_wf (keyed us1)" "set us1 \<subseteq> C"
    "\<And>ik. map_option diu_value (bt_get (keyed us1) ik) = (if key_in D old (fst ik) (snd ik) then Some Deleted else None)"
    using ext [of "[]" old "\<lambda>_. Deleted"] by auto
  obtain us2 where us2: "(case new of None \<Rightarrow> Inr us1
       | Some d \<Rightarrow> and_then (rd_index_keys r d) (\<lambda>ks. updates_extend (map (index_update (NonClustered (rd_id d))) ks) us1)) = Inr us2"
    "bt_wf (keyed us2)" "set us2 \<subseteq> C"
    "\<And>ik. map_option diu_value (bt_get (keyed us2) ik) = (if key_in D new (fst ik) (snd ik) then Some (NonClustered (rd_id (the new)))
       else map_option diu_value (bt_get (keyed us1) ik))"
    using ext [OF us1(2,3), of new "\<lambda>d. NonClustered (rd_id d)"] by auto
  show thesis
  proof (rule that [OF _ us2(2)])
    show "index_updates r old new = Inr us2"
      using us2(1) unfolding index_updates_def us1(1) by simp
    show "index_key_to_bytes (diu_key u) = Inr (snd (update_key u))" if "u \<in> set us2" for u
      using that us2(3) caused_bytes by (auto simp: C_def)
    show "map_option diu_value (bt_get (keyed us2) ik) = update_value D old new ik" for ik
      unfolding us2(4) us1(4) update_value_def by simp
  qed
qed

subsection \<open>Applying the updates\<close>

definition updated_entry ::
  "Timestamp \<Rightarrow> ResolvedDocument option \<Rightarrow> DatabaseIndexValue option \<Rightarrow> (Timestamp \<times> PackedDocument) option \<Rightarrow> (Timestamp \<times> PackedDocument) option" where
  "updated_entry ts insertion v e = (case v of None \<Rightarrow> e | Some Deleted \<Rightarrow> None
     | Some (NonClustered _) \<Rightarrow> Some (ts, pd_pack (the insertion)))"

lemma apply_updates_eq:
  assumes "bt_wf (keyed us)" "bt_wf mem" "\<forall>i m. bt_get mem i = Some m \<longrightarrow> bt_wf (dim_inner m)"
    and "\<forall>u \<in> set us. index_key_to_bytes (diu_key u) = Inr (snd (update_key u))"
    and "\<forall>u \<in> set us. \<forall>i. diu_value u = NonClustered i \<longrightarrow> (\<exists>d. insertion = Some d \<and> i = rd_id d)"
  shows "\<exists>mem'. apply_updates ts insertion us mem = Inr mem' \<and> bt_wf mem'
    \<and> (\<forall>i m'. bt_get mem' i = Some m' \<longrightarrow> bt_wf (dim_inner m') \<and> (\<exists>m. bt_get mem i = Some m
         \<and> (\<forall>k. bt_get (dim_inner m') k = updated_entry ts insertion (map_option diu_value (bt_get (keyed us) (i, k))) (bt_get (dim_inner m) k))))"
  using assms
proof (induction us arbitrary: mem)
  case (Cons u us)
  obtain k where key: "update_key u = (diu_index_id u, k)" by (simp add: update_key_def)
  let ?i = "diu_index_id u" and ?k = k
  have fresh: "bt_get (keyed us) (update_key u) = None"
    using Cons.prems(1) by (force simp: bt_get_None_iff bt_wf_Cons)
  obtain mem1 where mem1: "apply_update ts insertion u mem = Inr mem1" "bt_wf mem1"
    "\<forall>i m1. bt_get mem1 i = Some m1 \<longrightarrow> bt_wf (dim_inner m1) \<and> (\<exists>m. bt_get mem i = Some m
       \<and> (\<forall>k. bt_get (dim_inner m1) k = updated_entry ts insertion (if (i, k) = (?i, ?k) then Some (diu_value u) else None) (bt_get (dim_inner m) k)))"
  proof (cases "bt_get mem ?i")
    case None
    then show ?thesis
      using Cons.prems(2,3) by (intro that [of mem]) (auto simp: apply_update_def updated_entry_def)
  next
    case (Some m)
    define m1 where "m1 = (case diu_value u of Deleted \<Rightarrow> index_map_remove ?k ts m
      | NonClustered _ \<Rightarrow> index_map_insert ?k ts (pd_pack (the insertion)) m)"
    have "apply_update ts insertion u mem = Inr (bt_insert ?i m1 mem)"
      using Cons.prems(4,5) Some by (auto simp: apply_update_def m1_def key split: DatabaseIndexValue.splits)
    moreover have "bt_wf (dim_inner m1)" using Cons.prems(3) Some
      by (auto simp: m1_def index_map_insert_def index_map_remove_def split: DatabaseIndexValue.splits)
    moreover have "bt_get (dim_inner m1) k = updated_entry ts insertion (if k = ?k then Some (diu_value u) else None) (bt_get (dim_inner m) k)" for k
      by (auto simp: m1_def index_map_insert_def index_map_remove_def updated_entry_def split: DatabaseIndexValue.splits)
    ultimately show ?thesis
      using Cons.prems(2,3) Some by (intro that [of "bt_insert ?i m1 mem"]) (auto simp: updated_entry_def split: if_splits)
  qed
  have "\<forall>i m. bt_get mem1 i = Some m \<longrightarrow> bt_wf (dim_inner m)" using mem1(3) by blast
  moreover have "bt_wf (keyed us)" using Cons.prems(1) by (simp add: bt_wf_Cons)
  ultimately obtain mem' where mem': "apply_updates ts insertion us mem1 = Inr mem'" "bt_wf mem'"
    "\<forall>i m'. bt_get mem' i = Some m' \<longrightarrow> bt_wf (dim_inner m') \<and> (\<exists>m. bt_get mem1 i = Some m
       \<and> (\<forall>k. bt_get (dim_inner m') k = updated_entry ts insertion (map_option diu_value (bt_get (keyed us) (i, k))) (bt_get (dim_inner m) k)))"
    using Cons.IH [of mem1] mem1(2) Cons.prems(4,5) by fastforce
  have "\<exists>m. bt_get mem i = Some m \<and> (\<forall>k. bt_get (dim_inner m') k
      = updated_entry ts insertion (map_option diu_value (bt_get (keyed (u # us)) (i, k))) (bt_get (dim_inner m) k))"
    if get: "bt_get mem' i = Some m'" for i m'
  proof -
    obtain m1 where m1: "bt_get mem1 i = Some m1" "\<forall>k. bt_get (dim_inner m') k
        = updated_entry ts insertion (map_option diu_value (bt_get (keyed us) (i, k))) (bt_get (dim_inner m1) k)"
      using mem'(3) get by blast
    then obtain m where m: "bt_get mem i = Some m" "\<forall>k. bt_get (dim_inner m1) k
        = updated_entry ts insertion (if (i, k) = (?i, ?k) then Some (diu_value u) else None) (bt_get (dim_inner m) k)"
      using mem1(3) by blast
    have "bt_get (dim_inner m') k
      = updated_entry ts insertion (map_option diu_value (bt_get (keyed (u # us)) (i, k))) (bt_get (dim_inner m) k)" for k
      using m1(2) [THEN spec, of k] m(2) [THEN spec, of k] fresh
      by (auto simp: key updated_entry_def split: if_splits option.splits)
    with m(1) show ?thesis by blast
  qed
  moreover have "apply_updates ts insertion (u # us) mem = Inr mem'" by (simp add: mem1(1) mem'(1))
  moreover have "\<forall>i m'. bt_get mem' i = Some m' \<longrightarrow> bt_wf (dim_inner m')" using mem'(3) by blast
  ultimately show ?case using mem'(2) by blast
next
  case Nil
  then show ?case by (simp add: updated_entry_def)
qed

subsection \<open>Indexes in memory as views of the documents\<close>

text \<open>
  The documents of a database with the timestamps of their last writes, an index as the view of a
  table that it should be, and the indexes in memory as such views.
\<close>

type_synonym document_store = "ResolvedDocumentId \<Rightarrow> (Timestamp \<times> PackedDocument) option"

definition keyable_store :: "document_store \<Rightarrow> bool" where
  "keyable_store S \<longleftrightarrow> (\<forall>i ts d. S i = Some (ts, d) \<longrightarrow> pd_id d = i \<and> keyable_document d)"

definition index_view ::
  "document_store \<Rightarrow> tablet_id \<Rightarrow> field_path list \<Rightarrow> (IndexKeyBytes, Timestamp \<times> PackedDocument) btree_map \<Rightarrow> bool" where
  "index_view S t paths inner \<longleftrightarrow> bt_wf inner
     \<and> (\<forall>k ts d. bt_get inner k = Some (ts, d) \<longleftrightarrow>
          S (pd_id d) = Some (ts, d) \<and> tablet_id (pd_id d) = t \<and> pd_index_key d paths = Inr k)"

definition in_memory_view :: "BackendInMemoryIndexes \<Rightarrow> index_documents \<Rightarrow> document_store \<Rightarrow> bool" where
  "in_memory_view mem D S \<longleftrightarrow> bt_wf mem
     \<and> (\<forall>i m. bt_get mem i = Some m \<longrightarrow> (\<exists>t paths. database_index D i t paths \<and> index_view S t paths (dim_inner m)))"

text \<open>A write replaces the current version of a document, or adds one that does not exist.\<close>

definition write_store ::
  "Timestamp \<Rightarrow> ResolvedDocument option \<Rightarrow> ResolvedDocument option \<Rightarrow> document_store \<Rightarrow> document_store" where
  "write_store ts old new S = (case new of
     Some d \<Rightarrow> S(rd_id d := Some (ts, pd_pack d))
   | None \<Rightarrow> (case old of Some d \<Rightarrow> S(rd_id d := None) | None \<Rightarrow> S))"

definition replaces :: "document_store \<Rightarrow> ResolvedDocument option \<Rightarrow> ResolvedDocument option \<Rightarrow> bool" where
  "replaces S old new \<longleftrightarrow> (\<forall>d. old = Some d \<longrightarrow> (\<exists>ts. S (rd_id d) = Some (ts, pd_pack d)))
     \<and> (\<forall>d. new = Some d \<longrightarrow> keyable_document (pd_pack d) \<and> (old = None \<longrightarrow> S (rd_id d) = None))"

lemma pd_pack_id [simp]: "pd_id (pd_pack d) = rd_id d" "tablet_id (rd_id d) = rd_tablet_id d"
  by (simp_all add: pd_pack_def rd_id_def)

lemma keyable_store_write:
  assumes "keyable_store S" "replaces S old new"
  shows "keyable_store (write_store ts old new S)"
  using assms by (auto simp: keyable_store_def replaces_def write_store_def split: option.splits if_splits)

text \<open>What a write does to the entry of a key of an index of the table.\<close>

definition entry_change ::
  "tablet_id \<Rightarrow> field_path list \<Rightarrow> ResolvedDocument option \<Rightarrow> ResolvedDocument option \<Rightarrow> IndexKeyBytes \<Rightarrow> DatabaseIndexValue option" where
  "entry_change t paths old new k =
     (if \<exists>d. new = Some d \<and> rd_tablet_id d = t \<and> pd_index_key (pd_pack d) paths = Inr k
      then Some (NonClustered (rd_id (the new)))
      else if \<exists>d. old = Some d \<and> rd_tablet_id d = t \<and> pd_index_key (pd_pack d) paths = Inr k
      then Some Deleted else None)"

lemma entry_change_update_value:
  assumes "database_index D i t paths"
  shows "update_value D old new (i, k) = entry_change t paths old new k"
proof -
  have k: "key_in D doc i k \<longleftrightarrow> (\<exists>d. doc = Some d \<and> rd_tablet_id d = t \<and> pd_index_key (pd_pack d) paths = Inr k)" for doc
    using assms database_index_fun [OF assms] unfolding key_in_def by metis
  show ?thesis unfolding update_value_def entry_change_def fst_conv snd_conv k ..
qed

lemma index_view_write:
  assumes view: "index_view S t paths inner" and S: "keyable_store S" and rep: "replaces S old new"
    and same: "\<forall>d d'. old = Some d \<and> new = Some d' \<longrightarrow> rd_id d = rd_id d'"
    and wf: "bt_wf inner'"
    and inner': "\<forall>k. bt_get inner' k = updated_entry ts new (entry_change t paths old new k) (bt_get inner k)"
  shows "index_view (write_store ts old new S) t paths inner'"
  unfolding index_view_def
proof (intro conjI allI)
  let ?S = "write_store ts old new S"
  have get: "bt_get inner k = Some (ts, d) \<longleftrightarrow> S (pd_id d) = Some (ts, d) \<and> tablet_id (pd_id d) = t \<and> pd_index_key d paths = Inr k"
    for k ts d using view by (simp add: index_view_def)
  have key: "keyable_document d" "pd_id d = i" if "?S i = Some (ts', d)" for i ts' d
    using keyable_store_write [OF S rep] that unfolding keyable_store_def by blast+
  fix k ts' d
  show "bt_get inner' k = Some (ts', d) \<longleftrightarrow> ?S (pd_id d) = Some (ts', d) \<and> tablet_id (pd_id d) = t \<and> pd_index_key d paths = Inr k"
  proof (cases "\<exists>n. new = Some n \<and> rd_tablet_id n = t \<and> pd_index_key (pd_pack n) paths = Inr k")
    case True
    then obtain n where n: "new = Some n" "rd_tablet_id n = t" "pd_index_key (pd_pack n) paths = Inr k" by blast
    then have Sn: "?S (rd_id n) = Some (ts, pd_pack n)" by (simp add: write_store_def)
    have "ts' = ts \<and> d = pd_pack n" if "?S (pd_id d) = Some (ts', d)" "tablet_id (pd_id d) = t" "pd_index_key d paths = Inr k"
    proof -
      have "pd_id d = pd_id (pd_pack n)"
        using key(1) [OF that(1)] key(1) [OF Sn] that n by (intro pd_index_key_inj [of _ _ paths k]) simp_all
      with that(1) Sn show ?thesis by simp
    qed
    with Sn n show ?thesis using inner' True by (auto simp: entry_change_def updated_entry_def)
  next
    case new: False
    show ?thesis
    proof (cases "\<exists>o'. old = Some o' \<and> rd_tablet_id o' = t \<and> pd_index_key (pd_pack o') paths = Inr k")
      case True
      then obtain o' where o': "old = Some o'" "rd_tablet_id o' = t" "pd_index_key (pd_pack o') paths = Inr k" by blast
      then obtain ts0 where So: "S (rd_id o') = Some (ts0, pd_pack o')" using rep unfolding replaces_def by blast
      have "\<not> (?S (pd_id d) = Some (ts', d) \<and> tablet_id (pd_id d) = t \<and> pd_index_key d paths = Inr k)"
      proof
        assume d: "?S (pd_id d) = Some (ts', d) \<and> tablet_id (pd_id d) = t \<and> pd_index_key d paths = Inr k"
        have "keyable_document (pd_pack o')" using S So unfolding keyable_store_def by blast
        then have "pd_id d = rd_id o'"
          using pd_index_key_inj [of d "pd_pack o'" paths k] key(1) d o' by auto
        with d o' new same show False by (cases new) (auto simp: write_store_def)
      qed
      with o' new show ?thesis using inner' by (auto simp: entry_change_def updated_entry_def)
    next
      case old: False
      have eq: "bt_get inner' k = bt_get inner k"
        using inner' unfolding entry_change_def by (simp only: if_not_P [OF new] if_not_P [OF old] updated_entry_def option.case)
      have "?S (pd_id d) = Some (ts', d) \<longleftrightarrow> S (pd_id d) = Some (ts', d)" if d: "tablet_id (pd_id d) = t" "pd_index_key d paths = Inr k"
      proof (cases "\<exists>w. (old = Some w \<or> new = Some w) \<and> rd_id w = pd_id d")
        case False
        then show ?thesis by (auto simp: write_store_def split: option.splits)
      next
        case True
        have "S (pd_id d) \<noteq> Some (ts', d)"
        proof
          assume Sd: "S (pd_id d) = Some (ts', d)"
          obtain w where w: "old = Some w \<or> new = Some w" "rd_id w = pd_id d" using True by blast
          have "old \<noteq> None"
            using w Sd conjunct2 [OF rep [unfolded replaces_def], THEN spec, of w] by auto
          then obtain o' where o': "old = Some o'" by blast
          with w same have "rd_id o' = pd_id d" by (metis option.inject)
          moreover from this Sd o' have "pd_pack o' = d" using rep unfolding replaces_def by fastforce
          ultimately show False using old d o' by (metis pd_pack_id)
        qed
        moreover have "?S (pd_id d) \<noteq> Some (ts', d)"
        proof (cases new)
          case None
          with True obtain w where "old = Some w" "rd_id w = pd_id d" by auto
          with None show ?thesis by (simp add: write_store_def)
        next
          case (Some n)
          with True same have n: "rd_id n = pd_id d" by (metis option.inject)
          with Some d new have "pd_pack n \<noteq> d" by (metis pd_pack_id)
          with Some n show ?thesis by (simp add: write_store_def flip: n)
        qed
        ultimately show ?thesis by simp
      qed
      then show ?thesis unfolding eq get by blast
    qed
  qed
qed (rule wf)

subsection \<open>Writes to the index table\<close>

definition write_documents ::
  "metadata_codec \<Rightarrow> tablet_id \<Rightarrow> ResolvedDocument option \<Rightarrow> ResolvedDocument option \<Rightarrow> index_documents \<Rightarrow> index_documents" where
  "write_documents conv t old new D = insert_document conv t new (delete_document t old D)"

lemma verify_update_replace:
  assumes "verify_update conv r (Some o') (Some n) = Inr ()" "rd_tablet_id o' = reg_index_table r"
  obtains m m' where "from_document conv o' = Inr m" "from_document conv n = Inr m'"
    "index_table (metadata_name m) = index_table (metadata_name m')" "same_spec (metadata_config m) (metadata_config m')"
  using assms by (auto simp: verify_update_def verify_replace_def and_then_Inr_iff split: if_splits)

lemma same_spec_database: "same_spec (Database spec st) c \<Longrightarrow> \<exists>st'. c = Database spec st'"
  by (cases c) auto

lemma database_index_kept:
  assumes cur: "current conv (reg_index_table r) old new D" and verified: "verify_update conv r old new = Inr ()"
    and i: "database_index D i t paths"
    and keep: "\<not> (\<exists>d. old = Some d \<and> new = None \<and> rd_tablet_id d = reg_index_table r \<and> internal_id_of (rd_id d) = i)"
  shows "database_index (write_documents conv (reg_index_table r) old new D) i t paths"
proof (cases "\<exists>d. new = Some d \<and> rd_tablet_id d = reg_index_table r \<and> internal_id_of (rd_id d) = i")
  case True
  then obtain d where d: "new = Some d" "rd_tablet_id d = reg_index_table r" "internal_id_of (rd_id d) = i" by blast
  obtain m st where m: "D i = Some m" "index_table (metadata_name m) = t" "metadata_config m = Database (DatabaseIndexSpec paths) st"
    using i unfolding database_index_def by blast
  from cur d m(1) obtain o' where o': "old = Some o'" unfolding current_def by (cases old) auto
  note same = verify_update_same [OF verified [unfolded o' d(1)]]
  obtain m0 m1 where m01: "from_document conv o' = Inr m0" "from_document conv d = Inr m1"
    "index_table (metadata_name m0) = index_table (metadata_name m1)" "same_spec (metadata_config m0) (metadata_config m1)"
    using verify_update_replace [OF verified [unfolded o' d(1)]] same d(2) by auto
  have "live D m0" using cur o' same d(2) m01(1) unfolding current_def by auto
  then have "m0 = m" using m(1) from_document_Inr(1) [OF m01(1)] same d(3) by (simp add: live_def)
  with m01 m same_spec_database [of "DatabaseIndexSpec paths" st "metadata_config m1"] d show ?thesis
    by (auto simp: database_index_def write_documents_def insert_document_def)
next
  case False
  have "\<not> (\<exists>d. old = Some d \<and> rd_tablet_id d = reg_index_table r \<and> internal_id_of (rd_id d) = i)"
  proof
    assume "\<exists>d. old = Some d \<and> rd_tablet_id d = reg_index_table r \<and> internal_id_of (rd_id d) = i"
    then obtain d where d: "old = Some d" "rd_tablet_id d = reg_index_table r" "internal_id_of (rd_id d) = i" by blast
    with keep obtain n where n: "new = Some n" by (cases new) auto
    from verify_update_same [OF verified [unfolded d(1) n]] d n False show False by auto
  qed
  then have "write_documents conv (reg_index_table r) old new D i = D i"
    using False by (auto simp: write_documents_def insert_document_def delete_document_def split: option.splits)
  with i show ?thesis by (simp add: database_index_def)
qed

lemma in_memory_update_view:
  assumes r: "registry_of r D" and conv: "valid_codec conv" and view: "in_memory_view mem D S"
    and S: "keyable_store S" and rep: "replaces S old new" and cur: "current conv (reg_index_table r) old new D"
    and upd: "registry_update conv r old new = Inr r'"
  shows "\<exists>mem' us. in_memory_update r' ts old new mem = Inr (mem', us)
    \<and> in_memory_view mem' (write_documents conv (reg_index_table r) old new D) (write_store ts old new S)"
proof -
  let ?D = "write_documents conv (reg_index_table r) old new D"
  have verified: "verify_update conv r old new = Inr ()" using upd by (auto simp: registry_update_def and_then_Inr_iff)
  from apply_verified_update_of [OF r conv cur verified] upd verified
  have r': "registry_of r' ?D" "reg_index_table r' = reg_index_table r"
    by (auto simp: registry_update_def write_documents_def)
  have keyable: "\<forall>d. old = Some d \<longrightarrow> keyable_document (pd_pack d)" "\<forall>d. new = Some d \<longrightarrow> keyable_document (pd_pack d)"
    using rep S unfolding replaces_def keyable_store_def by blast+
  obtain us where us: "index_updates r' old new = Inr us" "bt_wf (keyed us)"
    "\<And>u. u \<in> set us \<Longrightarrow> index_key_to_bytes (diu_key u) = Inr (snd (update_key u))"
    "\<And>ik. map_option diu_value (bt_get (keyed us) ik) = update_value ?D old new ik"
    using index_updates_eq [OF r'(1) keyable] by blast
  have inserted: "\<exists>d. new = Some d \<and> j = rd_id d" if "u \<in> set us" "diu_value u = NonClustered j" for u j
  proof -
    have "bt_get (keyed us) (update_key u) = Some u" using that us(2) by (auto simp: bt_get_iff keyed_def)
    then have "update_value ?D old new (update_key u) = Some (NonClustered j)" using us(4) [of "update_key u"] that by simp
    then show ?thesis by (auto simp: update_value_def key_in_def split: if_splits)
  qed
  define mem1 where "mem1 = (case (old, new) of
          (Some o', None) \<Rightarrow> if rd_tablet_id o' = reg_index_table r' then bt_remove (internal_id_of (rd_id o')) mem else mem
        | _ \<Rightarrow> mem)"
  have wf: "bt_wf mem" using view by (simp add: in_memory_view_def)
  then have "bt_wf mem1" by (auto simp: mem1_def split: option.splits)
  moreover have kept: "bt_get mem i = Some m
      \<and> \<not> (\<exists>d. old = Some d \<and> new = None \<and> rd_tablet_id d = reg_index_table r \<and> internal_id_of (rd_id d) = i)"
    if "bt_get mem1 i = Some m" for i m
    using that r'(2) by (auto simp: mem1_def split: option.splits if_splits)
  have "\<forall>i m. bt_get mem1 i = Some m \<longrightarrow> bt_wf (dim_inner m)"
    using kept view unfolding in_memory_view_def index_view_def by blast
  ultimately obtain mem' where mem': "apply_updates ts new us mem1 = Inr mem'" "bt_wf mem'"
    "\<forall>i m'. bt_get mem' i = Some m' \<longrightarrow> bt_wf (dim_inner m') \<and> (\<exists>m. bt_get mem1 i = Some m
       \<and> (\<forall>k. bt_get (dim_inner m') k = updated_entry ts new (map_option diu_value (bt_get (keyed us) (i, k))) (bt_get (dim_inner m) k)))"
    using apply_updates_eq [OF us(2), of mem1 new ts] us(3) inserted by blast
  have same: "\<forall>d d'. old = Some d \<and> new = Some d' \<longrightarrow> rd_id d = rd_id d'" using verify_update_same verified by blast
  have "\<exists>t paths. database_index ?D i t paths \<and> index_view (write_store ts old new S) t paths (dim_inner m')"
    if get: "bt_get mem' i = Some m'" for i m'
  proof -
    obtain m where m: "bt_wf (dim_inner m')" "bt_get mem1 i = Some m" "\<And>k. bt_get (dim_inner m') k
        = updated_entry ts new (map_option diu_value (bt_get (keyed us) (i, k))) (bt_get (dim_inner m) k)"
      using mem'(3) get by blast
    obtain t paths where t: "database_index D i t paths" "index_view S t paths (dim_inner m)"
      using kept [OF m(2)] view unfolding in_memory_view_def by blast
    have d: "database_index ?D i t paths" using database_index_kept [OF cur verified t(1)] kept [OF m(2)] by blast
    then show ?thesis
      using index_view_write [OF t(2) S rep same m(1)] m(3) us(4) entry_change_update_value [OF d] by metis
  qed
  then have "in_memory_view mem' ?D (write_store ts old new S)" using mem'(2) by (simp add: in_memory_view_def)
  moreover have "in_memory_update r' ts old new mem = Inr (mem', us)"
    using mem'(1) unfolding in_memory_update_def Let_def mem1_def us(1) by simp
  ultimately show ?thesis by blast
qed

subsection \<open>Loading an index\<close>

lemma load_documents_eq:
  assumes "\<forall>(ts, d) \<in> set docs. key d = Inr (f d)" "bt_wf (dim_inner m)"
  shows "\<exists>m'. load_documents key docs m = Inr m'
    \<and> dim_inner m' = fold (\<lambda>(k, v). bt_insert k v) (map (\<lambda>(ts, d). (f d, ts, d)) docs) (dim_inner m)"
  using assms
proof (induction docs arbitrary: m)
  case (Cons e docs)
  obtain ts d where e: "e = (ts, d)" by (cases e)
  have "bt_wf (dim_inner (index_map_insert (f d) ts d m))" using Cons.prems(2) by (auto simp: index_map_insert_def)
  from Cons.IH [OF _ this] Cons.prems(1) show ?case by (auto simp: e index_map_insert_def)
qed simp

lemma load_documents_view:
  assumes S: "keyable_store S"
    and docs: "set docs = {(ts, d). S (pd_id d) = Some (ts, d) \<and> tablet_id (pd_id d) = t}"
  shows "\<exists>m. load_documents (\<lambda>doc. pd_index_key doc paths) docs (index_map_new_at ts0) = Inr m \<and> index_view S t paths (dim_inner m)"
proof -
  let ?f = "\<lambda>d. projr (pd_index_key d paths)"
  have key: "keyable_document d" if "(ts, d) \<in> set docs" for ts d
    using that S unfolding docs keyable_store_def by blast
  have f: "pd_index_key d paths = Inr (?f d)" if "(ts, d) \<in> set docs" for ts d
    using keyable_document_valid [OF key [OF that]] pd_index_key_total [of d paths] by (auto simp: valid_document_def)
  obtain m where m: "load_documents (\<lambda>doc. pd_index_key doc paths) docs (index_map_new_at ts0) = Inr m"
    "dim_inner m = fold (\<lambda>(k, v). bt_insert k v) (map (\<lambda>(ts, d). (?f d, ts, d)) docs) []"
    using load_documents_eq [of docs "\<lambda>doc. pd_index_key doc paths" ?f "index_map_new_at ts0"] f
    by (auto simp: index_map_new_at_def)
  have get: "bt_get (dim_inner m) k = map_of (rev (map (\<lambda>(ts, d). (?f d, ts, d)) docs)) k" for k
    using bt.get_fold_insert [of "[]" "map (\<lambda>(ts, d). (?f d, ts, d)) docs" k] by (simp add: m(2) split: option.splits)
  have "bt_get (dim_inner m) k = Some (ts, d) \<longleftrightarrow> (ts, d) \<in> set docs \<and> pd_index_key d paths = Inr k" for k ts d
  proof
    assume "bt_get (dim_inner m) k = Some (ts, d)"
    then have "(k, ts, d) \<in> set (map (\<lambda>(ts, d). (?f d, ts, d)) docs)" unfolding get by (auto dest!: map_of_SomeD)
    then show "(ts, d) \<in> set docs \<and> pd_index_key d paths = Inr k" using f by auto
  next
    assume d: "(ts, d) \<in> set docs \<and> pd_index_key d paths = Inr k"
    then have "map_of (rev (map (\<lambda>(ts, d). (?f d, ts, d)) docs)) k \<noteq> None"
      by (auto simp: map_of_eq_None_iff image_iff intro!: bexI [of _ "(ts, d)"])
    then obtain ts' d' where e: "map_of (rev (map (\<lambda>(ts, d). (?f d, ts, d)) docs)) k = Some (ts', d')" by auto
    then have d': "(ts', d') \<in> set docs" "pd_index_key d' paths = Inr k" using f by (auto dest!: map_of_SomeD)
    have "pd_id d = pd_id d'"
      using key d d' docs by (intro pd_index_key_inj [of d d' paths k]) auto
    with d d'(1) e show "bt_get (dim_inner m) k = Some (ts, d)" unfolding get docs by auto
  qed
  moreover have "bt_wf (dim_inner m)" unfolding m(2) by (rule bt.invar_fold_insert) simp
  ultimately show ?thesis using m(1) docs by (auto simp: index_view_def)
qed

subsection \<open>Range queries\<close>

lemma index_map_range_view:
  assumes "index_view S t paths (dim_inner m)"
  shows "sorted_wrt (<) (map fst (index_map_range m ivl))"
    and "set (index_map_range m ivl) = {(k, ts, d). S (pd_id d) = Some (ts, d) \<and> tablet_id (pd_id d) = t
      \<and> pd_index_key d paths = Inr k \<and> ivl_contains ivl k}"
proof -
  have wf: "bt_wf (dim_inner m)" using assms by (simp add: index_view_def)
  then show "sorted_wrt (<) (map fst (index_map_range m ivl))"
    using bt_wf_filter [OF wf] by (simp add: index_map_range_def bt_wf_def)
  show "set (index_map_range m ivl) = {(k, ts, d). S (pd_id d) = Some (ts, d) \<and> tablet_id (pd_id d) = t
      \<and> pd_index_key d paths = Inr k \<and> ivl_contains ivl k}"
    using assms bt_get_iff [OF wf] by (auto simp: index_map_range_def index_view_def)
qed

subsection \<open>Properties\<close>

text \<open>
  C8: an index in memory stays the view of its table, as long as the documents have no empty field
  names. Let the indexes in memory present the documents of the database, all of them well-formed with
  valid ids and without empty field names, and let the registry accept a write that replaces the
  stored version of a document by another such one, deletes it, or adds a new one. Then updating the
  indexes never panics, the index of a deleted index document is dropped, and afterwards every index in memory
  answers a range query with exactly the documents of its table after the write whose keys lie in
  the range, in the order of their keys and with the timestamps of their last writes.
\<close>

theorem in_memory_indexes_follow_writes:
  assumes "registry_of r D" and "in_memory_view mem D S" and "keyable_store S" and "replaces S old new"
    and "current (metadata_codec_of serde parse_id) (reg_index_table r) old new D"
    and "registry_update (metadata_codec_of serde parse_id) r old new = Inr r'"
    and "D' = write_documents (metadata_codec_of serde parse_id) (reg_index_table r) old new D"
    and "S' = write_store ts old new S"
  shows "\<exists>mem' us. in_memory_update r' ts old new mem = Inr (mem', us) \<and> in_memory_view mem' D' S'
    \<and> (\<forall>i ivl l. in_memory_range mem' i ivl Asc = Some l \<longrightarrow>
         (\<exists>t paths. database_index D' i t paths \<and> sorted_wrt (<) (map fst l)
            \<and> set l = {(k, ts, d). S' (pd_id d) = Some (ts, d) \<and> tablet_id (pd_id d) = t
                 \<and> pd_index_key d paths = Inr k \<and> ivl_contains ivl k}))"
proof -
  obtain mem' us where mem': "in_memory_update r' ts old new mem = Inr (mem', us)" "in_memory_view mem' D' S'"
    using in_memory_update_view [OF assms(1) valid_codec_of assms(2-6), of ts] assms(7,8) by blast
  have "\<exists>t paths. database_index D' i t paths \<and> sorted_wrt (<) (map fst l)
            \<and> set l = {(k, ts, d). S' (pd_id d) = Some (ts, d) \<and> tablet_id (pd_id d) = t
                 \<and> pd_index_key d paths = Inr k \<and> ivl_contains ivl k}"
    if range: "in_memory_range mem' i ivl Asc = Some l" for i ivl l
  proof -
    obtain m where m: "bt_get mem' i = Some m" "l = index_map_range m ivl" using range by (auto simp: in_memory_range_def)
    obtain t paths where t: "database_index D' i t paths" "index_view S' t paths (dim_inner m)"
      using mem'(2) m(1) unfolding in_memory_view_def by blast
    with index_map_range_view [OF t(2), of ivl] m(2) show ?thesis by blast
  qed
  with mem' show ?thesis by blast
qed

theorem in_memory_indexes_follow_writes_witness:
  "\<exists>mem' us. in_memory_update
      (registry_with [9] (example_metadata 1 (new_enabled (by_id [9]) [])) (example_metadata 2 (new_enabled (by_id [7]) [])))
      5 None (Some \<lparr>rd_tablet_id = [7], rd_document = \<lparr>dd_id = \<lparr>dev_table = 1, dev_internal_id = replicate 16 4\<rparr>,
         dd_creation_time = 0, dd_value = object_empty\<rparr>\<rparr>) [(replicate 16 2, index_map_new_at 1)] = Inr (mem', us)"
proof -
  let ?conv = "metadata_codec_of (\<lambda>_. Inl (Bail ''no index document'')) Inr"
  let ?a = "example_metadata 1 (new_enabled (by_id [9]) [])" and ?b = "example_metadata 2 (new_enabled (by_id [7]) [])"
  let ?d = "\<lparr>rd_tablet_id = [7], rd_document = \<lparr>dd_id = \<lparr>dev_table = 1, dev_internal_id = replicate 16 4\<rparr>,
         dd_creation_time = 0, dd_value = object_empty\<rparr>\<rparr>"
  let ?r = "registry_with [9] ?a ?b" and ?D = "[replicate 16 1 \<mapsto> ?a, replicate 16 2 \<mapsto> ?b]"
  let ?mem = "[(replicate 16 2, index_map_new_at 1)]"
  have r: "registry_of ?r ?D" "reg_index_table ?r = [9]"
    using registry_of_two [of ?a ?b "[9]"] by (simp_all add: new_enabled_def by_id_def valid_reserved_names [unfolded by_id_def])
  have db: "database_index ?D (replicate 16 2) [7] []"
    by (auto simp: database_index_def new_enabled_def by_id_def)
  then have view: "in_memory_view ?mem ?D (\<lambda>_. None)"
    by (auto simp: in_memory_view_def index_view_def index_map_new_at_def bt_wf_Cons split: if_splits)
  have key: "keyable_document (pd_pack ?d)"
    by (simp add: keyable_document_def pd_pack_def rd_id_def keyable_empty wf_id_def)
  then have rep: "replaces (\<lambda>_. None) None (Some ?d)" "keyable_store (\<lambda>_. None)"
    by (simp_all add: replaces_def keyable_store_def)
  have cur: "current ?conv (reg_index_table ?r) None (Some ?d) ?D" by (simp add: current_def r(2))
  have "verify_update ?conv ?r None (Some ?d) = Inr ()" by code_simp
  then have upd: "registry_update ?conv ?r None (Some ?d) = Inr ?r"
    by (simp add: registry_update_def apply_verified_update_def r(2))
  show ?thesis
    using in_memory_indexes_follow_writes [OF r(1) view rep(2,1) cur upd refl refl, of 5] by blast
qed

end
