(* ===== verification/Snapshot_Cache.thy ===== *)
theory Snapshot_Cache
  imports In_Memory_Indexes
begin

text \<open>
  Range queries of a transaction on its snapshot
  (\<^verbatim>\<open>src/crates/indexing/src/backend_in_memory_indexes.rs\<close>): the cache of what the transaction has already
  read, and the fetch that serves a query from the indexes in memory, from the cache and from
  persistence. The scan of an index in persistence is an argument that gives a stream of entries or
  errors; the size of a packed document and the limit of the cache are arguments; the three forms of
  a lazy document are one, the packed document; and the order in which the requests of a batch
  complete is an argument. The theory shows that the cache is transparent.
\<close>

subsection \<open>The cache\<close>

type_synonym index_entry = "IndexKeyBytes \<times> Timestamp \<times> PackedDocument"

record DatabaseIndexSnapshotCache =
  cache_documents :: "(internal_id \<times> IndexKeyBytes, Timestamp \<times> PackedDocument) btree_map"
  cache_intervals :: "(internal_id, IntervalSet) btree_map"
  cache_size :: nat

datatype DatabaseIndexSnapshotCacheResult =
    CacheDocument IndexKeyBytes Timestamp PackedDocument
  | CacheMiss interval

definition MAX_CACHED_RANGES_PER_INTERVAL :: nat where
  "MAX_CACHED_RANGES_PER_INTERVAL = 3"

definition cache_new :: DatabaseIndexSnapshotCache where
  "cache_new = \<lparr>cache_documents = [], cache_intervals = [], cache_size = 0\<rparr>"

definition add_interval :: "internal_id \<Rightarrow> interval \<Rightarrow> DatabaseIndexSnapshotCache \<Rightarrow> error + DatabaseIndexSnapshotCache" where
  "add_interval i ivl c =
     and_then (iset_add (entry_or iset_new (cache_intervals c) i) ivl) (\<lambda>s.
       Inr (c\<lparr>cache_intervals := bt_insert i s (cache_intervals c)\<rparr>))"

fun populate_keys ::
  "(internal_id \<times> IndexKeyBytes) list \<Rightarrow> Timestamp \<Rightarrow> PackedDocument \<Rightarrow> DatabaseIndexSnapshotCache
    \<Rightarrow> error + DatabaseIndexSnapshotCache" where
  "populate_keys [] ts doc c = Inr c"
| "populate_keys ((i, k) # ks) ts doc c =
     and_then (add_interval i (ivl_prefix k) (c\<lparr>cache_documents := bt_insert (i, k) (ts, doc) (cache_documents c)\<rparr>))
       (populate_keys ks ts doc)"

text \<open>The keys are a lazy iterator, whose panics only happen when it is run.\<close>

definition cache_populate ::
  "nat \<Rightarrow> (PackedDocument \<Rightarrow> nat) \<Rightarrow> error + (internal_id \<times> IndexKeyBytes) list \<Rightarrow> Timestamp \<Rightarrow> PackedDocument
    \<Rightarrow> DatabaseIndexSnapshotCache \<Rightarrow> error + DatabaseIndexSnapshotCache" where
  "cache_populate limit doc_size ks ts doc c =
     (if cache_size c \<le> limit
      then and_then ks (\<lambda>ks. and_then (populate_keys ks ts doc c) (\<lambda>c'.
        Inr (c'\<lparr>cache_size := cache_size c' + doc_size doc\<rparr>)))
      else Inr c)"

definition record_interval_populated ::
  "nat \<Rightarrow> internal_id \<Rightarrow> interval \<Rightarrow> DatabaseIndexSnapshotCache \<Rightarrow> error + DatabaseIndexSnapshotCache" where
  "record_interval_populated limit i ivl c = (if cache_size c \<le> limit then add_interval i ivl c else Inr c)"

definition cached_range :: "DatabaseIndexSnapshotCache \<Rightarrow> internal_id \<Rightarrow> interval \<Rightarrow> DatabaseIndexSnapshotCacheResult list" where
  "cached_range c i ivl = map (\<lambda>((_, k), ts, doc). CacheDocument k ts doc)
     (takeWhile (\<lambda>((i', k), _). i' = i \<and> greater_than (ivl_end ivl) k)
       (filter (\<lambda>e. (i, ivl_start ivl) \<le> fst e) (cache_documents c)))"

fun cache_get_loop ::
  "DatabaseIndexSnapshotCache \<Rightarrow> internal_id \<Rightarrow> End \<Rightarrow> nat \<Rightarrow> (bool \<times> interval) list \<Rightarrow> DatabaseIndexSnapshotCacheResult list" where
  "cache_get_loop c i e hits [] = []"
| "cache_get_loop c i e hits ((in_set, piece) # cs) =
     (if hits \<ge> MAX_CACHED_RANGES_PER_INTERVAL then [CacheMiss \<lparr>ivl_start = ivl_start piece, ivl_end = e\<rparr>]
      else if in_set then cached_range c i piece @ cache_get_loop c i e (hits + 1) cs
      else CacheMiss piece # cache_get_loop c i e hits cs)"

definition cache_get ::
  "DatabaseIndexSnapshotCache \<Rightarrow> internal_id \<Rightarrow> interval \<Rightarrow> Order \<Rightarrow> error + DatabaseIndexSnapshotCacheResult list" where
  "cache_get c i ivl order = (case bt_get (cache_intervals c) i of
     None \<Rightarrow> Inr [CacheMiss ivl]
   | Some s \<Rightarrow> and_then (split_interval_components s ivl) (\<lambda>cs.
       Inr (order_apply order (cache_get_loop c i (ivl_end ivl) 0 cs))))"

subsection \<open>Fetching ranges\<close>

record DatabaseIndexSnapshot =
  dis_index_registry :: IndexRegistry
  dis_in_memory_indexes :: BackendInMemoryIndexes
  dis_cache :: DatabaseIndexSnapshotCache

record RangeRequest =
  rr_index_name :: TabletIndexName
  rr_interval :: interval
  rr_order :: Order
  rr_max_size :: nat

datatype RangeFetchResult =
    MemoryCached "index_entry list" CursorPosition
  | NonCached internal_id "DatabaseIndexSnapshotCacheResult list"

definition database_index_snapshot_new :: "IndexRegistry \<Rightarrow> BackendInMemoryIndexes \<Rightarrow> DatabaseIndexSnapshot" where
  "database_index_snapshot_new r mem = \<lparr>dis_index_registry = r, dis_in_memory_indexes = mem, dis_cache = cache_new\<rparr>"

definition start_range_fetch :: "DatabaseIndexSnapshot \<Rightarrow> RangeRequest \<Rightarrow> error + RangeFetchResult" where
  "start_range_fetch s q = (case require_enabled (dis_index_registry s) (rr_index_name q) of
     Inl e \<Rightarrow> if index_table (rr_index_name q) \<noteq> reg_index_table (dis_index_registry s)
              then Inr (MemoryCached [] CursorEnd) else Inl e
   | Inr index \<Rightarrow> (case metadata_config (index_metadata index) of
       Database _ on_disk_state \<Rightarrow>
         (if on_disk_state \<noteq> Enabled then Inl (Bail ''Index returned from `require_enabled` but not enabled?'')
          else case in_memory_range (dis_in_memory_indexes s) (index_id index) (rr_interval q) (rr_order q) of
              Some docs \<Rightarrow> Inr (MemoryCached docs CursorEnd)
            | None \<Rightarrow> and_then (cache_get (dis_cache s) (index_id index) (rr_interval q) (rr_order q)) (\<lambda>rs.
                Inr (NonCached (index_id index) rs)))
     | _ \<Rightarrow> Inl (BadRequest ''IndexNotADatabaseIndex'')))"

type_synonym index_scan = "internal_id \<Rightarrow> tablet_id \<Rightarrow> interval \<Rightarrow> Order \<Rightarrow> nat \<Rightarrow> (error + index_entry) list"

text \<open>Reading a stream until it ends, fails, or the results are enough.\<close>

fun read_stream ::
  "nat \<Rightarrow> (error + index_entry) list \<Rightarrow> index_entry list \<Rightarrow> (Timestamp \<times> PackedDocument) list
    \<Rightarrow> error + index_entry list \<times> (Timestamp \<times> PackedDocument) list" where
  "read_stream max_size [] results misses = Inr (results, misses)"
| "read_stream max_size (Inl e # stream) results misses = Inl e"
| "read_stream max_size (Inr (k, ts, doc) # stream) results misses =
     (if length results + 1 \<ge> max_size then Inr (results @ [(k, ts, doc)], misses @ [(ts, doc)])
      else read_stream max_size stream (results @ [(k, ts, doc)]) (misses @ [(ts, doc)]))"

fun fetch_cache_misses ::
  "index_scan \<Rightarrow> internal_id \<Rightarrow> RangeRequest \<Rightarrow> DatabaseIndexSnapshotCacheResult list \<Rightarrow> index_entry list
    \<Rightarrow> (Timestamp \<times> PackedDocument) list
    \<Rightarrow> error + index_entry list \<times> (Timestamp \<times> PackedDocument) list \<times> CursorPosition" where
  "fetch_cache_misses scan i q [] results misses = Inr (results, misses, CursorEnd)"
| "fetch_cache_misses scan i q (r # rs) results misses =
     and_then (case r of
         CacheDocument k ts doc \<Rightarrow> Inr (results @ [(k, ts, doc)], misses)
       | CacheMiss ivl \<Rightarrow> read_stream (rr_max_size q)
           (scan i (index_table (rr_index_name q)) ivl (rr_order q) (rr_max_size q)) results misses)
     (\<lambda>(results, misses).
       if length results \<ge> rr_max_size q
       then (if results = [] then Inl (Panic ''should be at least one result'')
             else Inr (results, misses, After (fst (last results))))
       else fetch_cache_misses scan i q rs results misses)"

text \<open>One request of a batch: its result, and what it has to add to the cache.\<close>

definition fetch_range ::
  "index_scan \<Rightarrow> DatabaseIndexSnapshot \<Rightarrow> RangeRequest
    \<Rightarrow> (error + index_entry list \<times> CursorPosition) \<times> (internal_id \<times> (Timestamp \<times> PackedDocument) list \<times> CursorPosition) option" where
  "fetch_range scan s q = (case start_range_fetch s q of
     Inl e \<Rightarrow> (Inl e, None)
   | Inr (MemoryCached docs cursor) \<Rightarrow> (Inr (docs, cursor), None)
   | Inr (NonCached i rs) \<Rightarrow> (case fetch_cache_misses scan i q rs [] [] of
       Inl e \<Rightarrow> (Inl e, None)
     | Inr (results, misses, cursor) \<Rightarrow> (Inr (results, cursor), Some (i, misses, cursor))))"

fun populate_documents ::
  "nat \<Rightarrow> (PackedDocument \<Rightarrow> nat) \<Rightarrow> IndexRegistry \<Rightarrow> (Timestamp \<times> PackedDocument) list \<Rightarrow> DatabaseIndexSnapshotCache
    \<Rightarrow> error + DatabaseIndexSnapshotCache" where
  "populate_documents limit doc_size r [] c = Inr c"
| "populate_documents limit doc_size r ((ts, doc) # docs) c =
     and_then (cache_populate limit doc_size
         (and_then (index_keys r doc) (\<lambda>ks. Inr (map (\<lambda>(index, k). (index_id index, k)) ks))) ts doc c)
       (populate_documents limit doc_size r docs)"

definition populate_cache ::
  "nat \<Rightarrow> (PackedDocument \<Rightarrow> nat) \<Rightarrow> IndexRegistry \<Rightarrow> RangeRequest
    \<Rightarrow> (internal_id \<times> (Timestamp \<times> PackedDocument) list \<times> CursorPosition) option \<Rightarrow> DatabaseIndexSnapshotCache
    \<Rightarrow> error + DatabaseIndexSnapshotCache" where
  "populate_cache limit doc_size r q fetched c = (case fetched of
     None \<Rightarrow> Inr c
   | Some (i, misses, cursor) \<Rightarrow> and_then (populate_documents limit doc_size r misses c) (\<lambda>c'.
       record_interval_populated limit i (fst (ivl_split (rr_interval q) cursor (rr_order q))) c'))"

fun populate_all ::
  "nat \<Rightarrow> (PackedDocument \<Rightarrow> nat) \<Rightarrow> IndexRegistry
    \<Rightarrow> (RangeRequest \<times> (internal_id \<times> (Timestamp \<times> PackedDocument) list \<times> CursorPosition) option) list
    \<Rightarrow> DatabaseIndexSnapshotCache \<Rightarrow> error + DatabaseIndexSnapshotCache" where
  "populate_all limit doc_size r [] c = Inr c"
| "populate_all limit doc_size r ((q, fetched) # fs) c =
     and_then (populate_cache limit doc_size r q fetched c) (populate_all limit doc_size r fs)"

text \<open>A batch: all fetches run on the same snapshot, then the cache is filled in order of completion.\<close>

definition range_batch ::
  "index_scan \<Rightarrow> nat \<Rightarrow> (PackedDocument \<Rightarrow> nat) \<Rightarrow> (RangeRequest list \<Rightarrow> RangeRequest list) \<Rightarrow> DatabaseIndexSnapshot \<Rightarrow> RangeRequest list
    \<Rightarrow> error + (error + index_entry list \<times> CursorPosition) list \<times> DatabaseIndexSnapshot" where
  "range_batch scan limit doc_size completion s qs =
     and_then (populate_all limit doc_size (dis_index_registry s)
         (map (\<lambda>q. (q, snd (fetch_range scan s q))) (completion qs)) (dis_cache s))
       (\<lambda>c. Inr (map (\<lambda>q. fst (fetch_range scan s q)) qs, s\<lparr>dis_cache := c\<rparr>))"

subsection \<open>Sorted lists of entries\<close>

lemma bt_eqI:
  assumes "bt_wf m" "bt_wf m'" "set m = set m'"
  shows "m = m'"
proof -
  have "map fst m = map fst m'"
    using assms by (intro strict_sorted_equal) (simp_all add: bt_wf_def)
  moreover have "map snd m = map (\<lambda>k. the (map_of m k)) (map fst m)" if "bt_wf m" for m :: "('a \<times> 'b) list"
    using bt_wf_distinct [OF that] by (auto simp: map_of_eq_Some_iff intro!: map_cong)
  moreover have "map_of m = map_of m'"
    using assms by (metis bt_wf_distinct map_of_inject_set)
  ultimately show ?thesis using assms(1,2) by (metis zip_map_fst_snd)
qed

lemma bt_filter_append:
  assumes "bt_wf E" "s \<le> t" "\<And>k. k < t \<Longrightarrow> R k"
  shows "filter (\<lambda>x. s \<le> fst x \<and> fst x < t) E @ filter (\<lambda>x. t \<le> fst x \<and> R (fst x)) E = filter (\<lambda>x. s \<le> fst x \<and> R (fst x)) E"
proof (rule bt_eqI)
  show "bt_wf (filter (\<lambda>x. s \<le> fst x \<and> fst x < t) E @ filter (\<lambda>x. t \<le> fst x \<and> R (fst x)) E)"
    using assms(1) by (auto simp: bt_wf_append intro: bt_wf_filter)
  show "bt_wf (filter (\<lambda>x. s \<le> fst x \<and> R (fst x)) E)" using assms(1) by (rule bt_wf_filter)
  show "set (filter (\<lambda>x. s \<le> fst x \<and> fst x < t) E @ filter (\<lambda>x. t \<le> fst x \<and> R (fst x)) E)
      = set (filter (\<lambda>x. s \<le> fst x \<and> R (fst x)) E)"
    using assms(2,3) by (auto simp: not_less intro: order_trans)
qed

subsection \<open>The cache as part of the indexes\<close>

text \<open>
  The cache holds entries of indexes, and all those of the keys in its interval sets.
\<close>

definition is_entry ::
  "document_store \<Rightarrow> tablet_id \<Rightarrow> field_path list \<Rightarrow> IndexKeyBytes \<Rightarrow> Timestamp \<times> PackedDocument \<Rightarrow> bool" where
  "is_entry S t paths k = (\<lambda>(ts, d). S (pd_id d) = Some (ts, d) \<and> tablet_id (pd_id d) = t \<and> pd_index_key d paths = Inr k)"

definition cache_view :: "DatabaseIndexSnapshotCache \<Rightarrow> index_documents \<Rightarrow> document_store \<Rightarrow> bool" where
  "cache_view c D S \<longleftrightarrow> bt_wf (cache_documents c) \<and> bt_wf (cache_intervals c)
     \<and> (\<forall>i k v. bt_get (cache_documents c) (i, k) = Some v \<longrightarrow> (\<exists>t paths. database_index D i t paths \<and> is_entry S t paths k v))
     \<and> (\<forall>i s. bt_get (cache_intervals c) i = Some s \<longrightarrow> wf_iset s
          \<and> (\<forall>t paths k v. database_index D i t paths \<and> is_entry S t paths k v \<and> iset_contains s k
               \<longrightarrow> bt_get (cache_documents c) (i, k) = Some v))"

lemma cache_viewD:
  assumes "cache_view c D S"
  shows "bt_wf (cache_documents c)" "bt_wf (cache_intervals c)"
    "bt_get (cache_documents c) (i, k) = Some v \<Longrightarrow> \<exists>t paths. database_index D i t paths \<and> is_entry S t paths k v"
    "bt_get (cache_intervals c) i = Some s \<Longrightarrow> wf_iset s"
    "bt_get (cache_intervals c) i = Some s \<Longrightarrow> database_index D i t paths \<Longrightarrow> is_entry S t paths k v \<Longrightarrow> iset_contains s k
      \<Longrightarrow> bt_get (cache_documents c) (i, k) = Some v"
  using assms unfolding cache_view_def by blast+

lemma cache_view_cong:
  "cache_documents c' = cache_documents c \<Longrightarrow> cache_intervals c' = cache_intervals c \<Longrightarrow> cache_view c' D S \<longleftrightarrow> cache_view c D S"
  unfolding cache_view_def by (simp only:)

lemma cache_view_new: "cache_view cache_new D S"
  by (simp add: cache_view_def cache_new_def)

lemma index_view_entries:
  "index_view S t paths E \<longleftrightarrow> bt_wf E \<and> (\<forall>k v. bt_get E k = Some v \<longleftrightarrow> is_entry S t paths k v)"
  by (auto simp: index_view_def is_entry_def)

lemma index_view_unique:
  assumes "index_view S t paths E" "index_view S t paths E'"
  shows "E = E'"
proof (rule bt_eqI)
  show wf: "bt_wf E" "bt_wf E'" using assms by (simp_all add: index_view_def)
  have "bt_get E k = Some v \<longleftrightarrow> bt_get E' k = Some v" for k v using assms unfolding index_view_entries by blast
  then show "set E = set E'" unfolding bt_get_iff [OF wf(1)] bt_get_iff [OF wf(2)] by (auto simp: set_eq_iff)
qed

text \<open>Entries of one index whose keys extend each other are the same.\<close>

lemma is_entry_prefix:
  assumes "keyable_store S" "is_entry S t paths k v" "is_entry S t paths k' v'" "prefix k k'"
  shows "k = k' \<and> v = v'"
proof -
  obtain ts d ts' d' where v: "v = (ts, d)" "v' = (ts', d')" by (cases v; cases v')
  have key: "keyable_document d" "keyable_document d'" "pd_index_key d paths = Inr k" "pd_index_key d' paths = Inr k'"
    using assms(1-3) unfolding keyable_store_def is_entry_def v by blast+
  have "k = k'" "developer_id (pd_id d) = developer_id (pd_id d')"
    using pd_index_key_prefix_free [OF key assms(4)] by simp_all
  moreover from this(2) have "pd_id d = pd_id d'"
    using assms(2,3) by (cases "pd_id d"; cases "pd_id d'") (simp add: is_entry_def v)
  ultimately show ?thesis using assms(2,3) by (simp add: is_entry_def v)
qed

lemma is_entry_fun: "keyable_store S \<Longrightarrow> is_entry S t paths k v \<Longrightarrow> is_entry S t paths k v' \<Longrightarrow> v = v'"
  using is_entry_prefix by blast

text \<open>Growing: nothing cached is lost or changed.\<close>

definition grows :: "DatabaseIndexSnapshotCache \<Rightarrow> DatabaseIndexSnapshotCache \<Rightarrow> bool" where
  "grows c c' \<longleftrightarrow> (\<forall>ik v. bt_get (cache_documents c) ik = Some v \<longrightarrow> bt_get (cache_documents c') ik = Some v)
     \<and> cache_size c \<le> cache_size c'"

lemma grows_refl [simp]: "grows c c"
  by (simp add: grows_def)

lemma grows_trans [trans]: "grows a b \<Longrightarrow> grows b c \<Longrightarrow> grows a c"
  unfolding grows_def by (meson le_trans)

text \<open>Adding an interval whose entries are all in the cache.\<close>

lemma add_interval_view:
  assumes view: "cache_view c D S"
    and all: "\<And>t paths k v. database_index D i t paths \<Longrightarrow> is_entry S t paths k v \<Longrightarrow> ivl_contains ivl k
      \<Longrightarrow> bt_get (cache_documents c) (i, k) = Some v"
  shows "\<exists>c'. add_interval i ivl c = Inr c' \<and> cache_view c' D S \<and> cache_documents c' = cache_documents c \<and> cache_size c' = cache_size c"
proof -
  let ?s = "entry_or iset_new (cache_intervals c) i"
  have s: "wf_iset ?s"
    and old: "\<And>t paths k v. database_index D i t paths \<Longrightarrow> is_entry S t paths k v \<Longrightarrow> iset_contains ?s k
      \<Longrightarrow> bt_get (cache_documents c) (i, k) = Some v"
    using iset.invar_new iset.member_new cache_viewD(4,5) [OF view] by (auto simp: entry_or_def split: option.splits)
  obtain s' where s': "iset_add ?s ivl = Inr s'" using iset.add_ok [OF s] by blast
  let ?c = "c\<lparr>cache_intervals := bt_insert i s' (cache_intervals c)\<rparr>"
  have "wf_iset s'" "iset_contains s' k \<longleftrightarrow> iset_contains ?s k \<or> ivl_contains ivl k" for k
    using iset.invar_add [OF s s'] iset.member_add [OF s s'] by blast+
  then have "cache_view ?c D S"
    unfolding cache_view_def using cache_viewD [OF view] old all by (auto split: if_splits)
  then show ?thesis using s' by (auto simp: add_interval_def)
qed

lemma populate_keys_view:
  assumes S: "keyable_store S" and view: "cache_view c D S"
    and ks: "\<forall>(i, k) \<in> set ks. \<exists>t paths. database_index D i t paths \<and> is_entry S t paths k (ts, d)"
  shows "\<exists>c'. populate_keys ks ts d c = Inr c' \<and> cache_view c' D S \<and> grows c c' \<and> cache_size c' = cache_size c
    \<and> (\<forall>ik \<in> set ks. bt_get (cache_documents c') ik = Some (ts, d))"
  using view ks
proof (induction ks arbitrary: c)
  case (Cons ik ks)
  obtain i k where ik: "ik = (i, k)" by (cases ik)
  obtain t paths where e: "database_index D i t paths" "is_entry S t paths k (ts, d)" using Cons.prems(2) ik by auto
  let ?c = "c\<lparr>cache_documents := bt_insert (i, k) (ts, d) (cache_documents c)\<rparr>"
  have same: "v = (ts, d)" if "bt_get (cache_documents c) (i, k) = Some v" for v
    using cache_viewD(3) [OF Cons.prems(1) that] e database_index_fun is_entry_fun [OF S] by metis
  have "cache_view ?c D S"
    unfolding cache_view_def using cache_viewD [OF Cons.prems(1)] e same by (auto split: if_splits)
  moreover have "bt_get (cache_documents ?c) (i, k') = Some v"
    if "database_index D i t' paths'" "is_entry S t' paths' k' v" "ivl_contains (ivl_prefix k) k'" for t' paths' k' v
  proof -
    have "prefix k k'" using that(3) ivl_prefix_points [of k] by (simp add: ivl_points_def set_eq_iff)
    then have "k = k' \<and> (ts, d) = v"
      using is_entry_prefix [OF S e(2)] that(1,2) database_index_fun e(1) by metis
    then show ?thesis by simp
  qed
  ultimately obtain c1 where c1: "add_interval i (ivl_prefix k) ?c = Inr c1" "cache_view c1 D S"
    "cache_documents c1 = cache_documents ?c" "cache_size c1 = cache_size ?c"
    using add_interval_view [of ?c D S i "ivl_prefix k"] by auto
  obtain c' where c': "populate_keys ks ts d c1 = Inr c'" "cache_view c' D S" "grows c1 c'" "cache_size c' = cache_size c1"
    "\<forall>ik \<in> set ks. bt_get (cache_documents c') ik = Some (ts, d)"
    using Cons.IH [OF c1(2)] Cons.prems(2) by auto
  moreover have "grows c c1" using c1(3,4) same by (auto simp: grows_def split: if_splits)
  moreover have "bt_get (cache_documents c') (i, k) = Some (ts, d)" using c'(3) c1(3) by (simp add: grows_def)
  ultimately show ?case using c1(1,4) grows_trans by (auto simp: ik)
qed simp

lemma packed_index_keys_total:
  assumes "keyable_document d"
  shows "\<exists>ks. packed_index_keys d is = Inr ks
    \<and> (\<forall>i k. (i, k) \<in> set ks \<longleftrightarrow> i \<in> set is
         \<and> (\<exists>paths st. metadata_config (index_metadata i) = Database (DatabaseIndexSpec paths) st \<and> pd_index_key d paths = Inr k))"
proof (induction "is")
  case (Cons i "is")
  show ?case
  proof (cases "metadata_config (index_metadata i)")
    case (Database spec st)
    obtain k where "pd_index_key d (db_fields spec) = Inr k"
      using keyable_document_valid [OF assms] pd_index_key_total [of d] by (auto simp: valid_document_def)
    with Cons Database show ?thesis by (cases spec) auto
  qed (use Cons in auto)
qed simp

text \<open>The registry gives the keys of a document in the database indexes of its table.\<close>

lemma index_keys_total:
  assumes r: "registry_of r D" and d: "keyable_document d"
  obtains ks where "index_keys r d = Inr ks"
    "\<And>i k. (i, k) \<in> set (map (\<lambda>(index, k). (index_id index, k)) ks)
      \<longleftrightarrow> (\<exists>paths. database_index D i (tablet_id (pd_id d)) paths \<and> pd_index_key d paths = Inr k)"
proof -
  obtain "is" where "is": "indexes_by_table r (tablet_id (pd_id d)) = Inr is" using indexes_by_table_eq [OF r] by blast
  obtain ks where ks: "packed_index_keys d is = Inr ks"
    "\<And>i k. (i, k) \<in> set ks \<longleftrightarrow> i \<in> set is
         \<and> (\<exists>paths st. metadata_config (index_metadata i) = Database (DatabaseIndexSpec paths) st \<and> pd_index_key d paths = Inr k)"
    using packed_index_keys_total [OF d] by metis
  have "(i, k) \<in> set (map (\<lambda>(index, k). (index_id index, k)) ks)
      \<longleftrightarrow> (\<exists>paths. database_index D i (tablet_id (pd_id d)) paths \<and> pd_index_key d paths = Inr k)" for i k
  proof -
    have "(i, k) \<in> set (map (\<lambda>(index, k). (index_id index, k)) ks) \<longleftrightarrow> (\<exists>x. (x, k) \<in> set ks \<and> index_id x = i)" by force
    also have "\<dots> \<longleftrightarrow> (\<exists>m paths st. D i = Some m \<and> index_table (metadata_name m) = tablet_id (pd_id d)
        \<and> metadata_config m = Database (DatabaseIndexSpec paths) st \<and> pd_index_key d paths = Inr k)"
      (is "_ \<longleftrightarrow> (\<exists>m paths st. ?Q m paths st)")
    proof
      assume "\<exists>x. (x, k) \<in> set ks \<and> index_id x = i"
      then show "\<exists>m paths st. ?Q m paths st"
        unfolding ks(2) set_indexes_by_table [OF r "is"] live_def by (auto simp: index_new_def)
    next
      assume "\<exists>m paths st. ?Q m paths st"
      then obtain m paths st where m: "?Q m paths st" by blast
      with registry_ofD(4) [OF r, of i m] have "(index_new m, k) \<in> set ks" "index_id (index_new m) = i"
        unfolding ks(2) set_indexes_by_table [OF r "is"] live_def by (auto simp: index_new_def)
      then show "\<exists>x. (x, k) \<in> set ks \<and> index_id x = i" by blast
    qed
    finally show ?thesis unfolding database_index_def by blast
  qed
  with ks(1) "is" show thesis by (intro that [of ks]) (simp_all add: index_keys_def)
qed

definition stored :: "document_store \<Rightarrow> Timestamp \<times> PackedDocument \<Rightarrow> bool" where
  "stored S = (\<lambda>(ts, d). S (pd_id d) = Some (ts, d))"

text \<open>The entries of a document, in all database indexes of its table, are in the cache.\<close>

definition cached :: "DatabaseIndexSnapshotCache \<Rightarrow> index_documents \<Rightarrow> Timestamp \<times> PackedDocument \<Rightarrow> bool" where
  "cached c D = (\<lambda>(ts, d). \<forall>i k paths. database_index D i (tablet_id (pd_id d)) paths \<and> pd_index_key d paths = Inr k
     \<longrightarrow> bt_get (cache_documents c) (i, k) = Some (ts, d))"

lemma cached_grows: "cached c D v \<Longrightarrow> grows c c' \<Longrightarrow> cached c' D v"
  by (cases v) (auto simp: cached_def grows_def)

lemma populate_documents_view:
  assumes r: "registry_of r D" and S: "keyable_store S" and view: "cache_view c D S" and docs: "\<forall>v \<in> set docs. stored S v"
  shows "\<exists>c'. populate_documents limit doc_size r docs c = Inr c' \<and> cache_view c' D S \<and> grows c c'
    \<and> (cache_size c' \<le> limit \<longrightarrow> (\<forall>v \<in> set docs. cached c' D v))"
  using view docs
proof (induction docs arbitrary: c)
  case (Cons v docs)
  obtain ts d where v: "v = (ts, d)" by (cases v)
  have Sd: "S (pd_id d) = Some (ts, d)" using Cons.prems(2) by (simp add: v stored_def)
  then have d: "keyable_document d" using S unfolding keyable_store_def by blast
  obtain ks where ks: "index_keys r d = Inr ks"
    "\<And>i k. (i, k) \<in> set (map (\<lambda>(index, k). (index_id index, k)) ks)
      \<longleftrightarrow> (\<exists>paths. database_index D i (tablet_id (pd_id d)) paths \<and> pd_index_key d paths = Inr k)"
    by (rule index_keys_total [OF r d]) blast
  let ?ks = "map (\<lambda>(index, k). (index_id index, k)) ks"
  have entries: "\<forall>(i, k) \<in> set ?ks. \<exists>t paths. database_index D i t paths \<and> is_entry S t paths k (ts, d)"
    using ks(2) Sd by (auto simp: is_entry_def simp del: set_map)
  obtain c1 where c1: "cache_populate limit doc_size (Inr ?ks) ts d c = Inr c1" "cache_view c1 D S" "grows c c1"
    "cache_size c \<le> limit \<Longrightarrow> cached c1 D v"
  proof (cases "cache_size c \<le> limit")
    case False
    then show ?thesis using Cons.prems(1) by (intro that [of c]) (simp_all add: cache_populate_def)
  next
    case True
    obtain c0 where c0: "populate_keys ?ks ts d c = Inr c0" "cache_view c0 D S" "grows c c0"
      "\<forall>ik \<in> set ?ks. bt_get (cache_documents c0) ik = Some (ts, d)"
      using populate_keys_view [OF S Cons.prems(1) entries] by blast
    let ?c = "c0\<lparr>cache_size := cache_size c0 + doc_size d\<rparr>"
    have "cache_populate limit doc_size (Inr ?ks) ts d c = Inr ?c" using True c0(1) by (simp add: cache_populate_def)
    moreover have "cache_view ?c D S" using c0(2) cache_view_cong [of ?c c0] by simp
    moreover have "grows c ?c" using c0(3) by (simp add: grows_def)
    moreover have "cached ?c D v" using c0(4) ks(2) by (auto simp: cached_def v simp del: set_map)
    ultimately show ?thesis by (rule that)
  qed
  obtain c' where c': "populate_documents limit doc_size r docs c1 = Inr c'" "cache_view c' D S" "grows c1 c'"
    "cache_size c' \<le> limit \<longrightarrow> (\<forall>v \<in> set docs. cached c' D v)"
    using Cons.IH [OF c1(2)] Cons.prems(2) by auto
  have "cached c' D v" if "cache_size c' \<le> limit"
    using that c1(3,4) c'(3) cached_grows unfolding grows_def by (meson le_trans)
  with c' c1 ks(1) show ?case using grows_trans by (auto simp: v)
qed simp

subsection \<open>Reading through the cache\<close>

text \<open>What a result of the cache stands for: a document, or the entries that a scan gives.\<close>

fun expand :: "Order \<Rightarrow> index_entry list \<Rightarrow> DatabaseIndexSnapshotCacheResult \<Rightarrow> index_entry list" where
  "expand order E (CacheDocument k ts d) = [(k, ts, d)]"
| "expand order E (CacheMiss ivl) = order_apply order (filter (\<lambda>e. ivl_contains ivl (fst e)) E)"

lemma expand_documents: "concat (map (expand order E) (map (\<lambda>((_, k), ts, doc). CacheDocument k ts doc) xs))
    = map (\<lambda>((_, k), v). (k, v)) xs"
  by (induction xs) auto

lemma takeWhile_filter_sorted:
  assumes "sorted_wrt R xs" "\<And>x y. R x y \<Longrightarrow> P y \<Longrightarrow> P x"
  shows "takeWhile P xs = filter P xs"
  using assms(1)
proof (induction xs)
  case (Cons x xs)
  then have "filter P xs = []" if "\<not> P x" using that assms(2) by (auto simp: filter_empty_conv)
  with Cons show ?case by simp
qed simp

lemma cached_range_view:
  assumes view: "cache_view c D S" and i: "database_index D i t paths" and E: "index_view S t paths E"
    and all: "\<And>k. ivl_contains ivl k \<Longrightarrow> iset_contains s k" and s: "bt_get (cache_intervals c) i = Some s"
  shows "concat (map (expand order E') (cached_range c i ivl)) = filter (\<lambda>e. ivl_contains ivl (fst e)) E"
proof -
  let ?docs = "filter (\<lambda>e. fst (fst e) = i \<and> ivl_contains ivl (snd (fst e))) (cache_documents c)"
  have wf: "bt_wf (cache_documents c)" "bt_wf E" using cache_viewD(1) [OF view] E by (simp_all add: index_view_def)
  have "takeWhile (\<lambda>((i', k), _). i' = i \<and> greater_than (ivl_end ivl) k)
      (filter (\<lambda>e. (i, ivl_start ivl) \<le> fst e) (cache_documents c))
    = filter (\<lambda>((i', k), _). i' = i \<and> greater_than (ivl_end ivl) k)
      (filter (\<lambda>e. (i, ivl_start ivl) \<le> fst e) (cache_documents c))"
  proof (rule takeWhile_filter_sorted [of "\<lambda>x y. fst x < fst y \<and> (i, ivl_start ivl) \<le> fst x"])
    show "sorted_wrt (\<lambda>x y. fst x < fst y \<and> (i, ivl_start ivl) \<le> fst x)
        (filter (\<lambda>e. (i, ivl_start ivl) \<le> fst e) (cache_documents c))"
      using bt_wf_filter [OF wf(1), of "\<lambda>e. (i, ivl_start ivl) \<le> fst e"]
      by (auto simp: bt_wf_def sorted_wrt_map elim!: sorted_wrt_mono_rel [rotated])
  qed (auto simp: less_prod_def less_eq_prod_def greater_than_iff elim!: order.strict_trans [rotated] split: prod.splits)
  also have "\<dots> = ?docs"
    by (auto simp: ivl_contains_iff less_eq_prod_def intro!: filter_cong)
  finally have eq: "concat (map (expand order E') (cached_range c i ivl)) = map (\<lambda>((_, k), v). (k, v)) ?docs"
    unfolding cached_range_def by (simp only: expand_documents)
  show ?thesis unfolding eq
  proof (rule bt_eqI)
    show "bt_wf (filter (\<lambda>e. ivl_contains ivl (fst e)) E)" using wf(2) by (rule bt_wf_filter)
    have "sorted_wrt (\<lambda>x y. snd (fst x) < snd (fst y)) ?docs"
      using bt_wf_filter [OF wf(1), of "\<lambda>e. fst (fst e) = i \<and> ivl_contains ivl (snd (fst e))"]
      by (auto simp: bt_wf_def sorted_wrt_map less_prod_def elim!: sorted_wrt_mono_rel [rotated])
    then show "bt_wf (map (\<lambda>((_, k), v). (k, v)) ?docs)"
      by (simp add: bt_wf_def sorted_wrt_map case_prod_beta)
    have "((i, k), v) \<in> set (cache_documents c) \<longleftrightarrow> (k, v) \<in> set E" if "ivl_contains ivl k" for k v
    proof -
      have "bt_get (cache_documents c) (i, k) = Some v \<longleftrightarrow> is_entry S t paths k v"
        using cache_viewD(3) [OF view] cache_viewD(5) [OF view s i _ all [OF that]] database_index_fun [OF i] by metis
      then show ?thesis using E bt_get_iff [OF wf(1)] bt_get_iff [OF wf(2)] unfolding index_view_entries by metis
    qed
    then show "set (map (\<lambda>((_, k), v). (k, v)) ?docs) = set (filter (\<lambda>e. ivl_contains ivl (fst e)) E)"
      by (force simp: image_iff)
  qed
qed

lemma cache_get_loop_view:
  assumes view: "cache_view c D S" and i: "database_index D i t paths" and E: "index_view S t paths E"
    and s: "bt_get (cache_intervals c) i = Some s"
  shows "components b st e cs \<Longrightarrow> flags_match (iset_points s) cs
    \<Longrightarrow> concat (map (expand Asc E) (cache_get_loop c i e hits cs)) = filter (\<lambda>x. st \<le> fst x \<and> greater_than e (fst x)) E"
proof (induction b st e cs arbitrary: hits rule: components.induct)
  case (1 b st e)
  then show ?case by simp
next
  case (2 b st e f ivl)
  have "concat (map (expand Asc E) (cached_range c i ivl)) = filter (\<lambda>x. ivl_contains ivl (fst x)) E" if f
    using 2 that cache_viewD(4) [OF view s]
    by (intro cached_range_view [OF view i E _ s]) (auto simp: iset_contains_points ivl_contains_iff)
  with 2 show ?case by (auto simp: ivl_contains_iff)
next
  case (3 b st e f ivl p cs)
  then obtain u where u: "ivl = \<lparr>ivl_start = st, ivl_end = Excluded u\<rparr>" "st < u" and cs: "components (\<not> b) u e (p # cs)"
    by auto
  have cached: "concat (map (expand Asc E) (cached_range c i ivl)) = filter (\<lambda>x. ivl_contains ivl (fst x)) E" if f
    using 3 that cache_viewD(4) [OF view s]
    by (intro cached_range_view [OF view i E _ s]) (auto simp: iset_contains_points ivl_contains_iff)
  have rest: "concat (map (expand Asc E) (cache_get_loop c i e h (p # cs))) = filter (\<lambda>x. u \<le> fst x \<and> greater_than e (fst x)) E" for h
    using "3.IH" [OF cs] "3.prems"(2) by simp
  have "greater_than e k" if "k < u" for k
    using that components_less [OF cs] by (auto simp: greater_than_iff intro: order.strict_trans [of _ "Excluded u"])
  then have split: "filter (\<lambda>x. st \<le> fst x \<and> fst x < u) E @ filter (\<lambda>x. u \<le> fst x \<and> greater_than e (fst x)) E
      = filter (\<lambda>x. st \<le> fst x \<and> greater_than e (fst x)) E"
    using E u(2) by (intro bt_filter_append) (auto simp: index_view_def)
  show ?case
  proof (cases "hits \<ge> MAX_CACHED_RANGES_PER_INTERVAL")
    case True
    then show ?thesis using u(1) by (simp add: ivl_contains_iff)
  next
    case False
    have "concat (map (expand Asc E) (cache_get_loop c i e hits ((f, ivl) # p # cs)))
        = filter (\<lambda>x. ivl_contains ivl (fst x)) E @ filter (\<lambda>x. u \<le> fst x \<and> greater_than e (fst x)) E"
      using False cached rest by (cases f) simp_all
    also have "filter (\<lambda>x. ivl_contains ivl (fst x)) E = filter (\<lambda>x. st \<le> fst x \<and> fst x < u) E"
      by (simp add: u(1) ivl_contains_iff)
    finally show ?thesis using split by simp
  qed
qed

lemma expand_order: "concat (map (expand order E) (order_apply order rs)) = order_apply order (concat (map (expand Asc E) rs))"
proof (cases order)
  case Desc
  have "expand Desc E r = (rev \<circ> expand Asc E) r" for r by (cases r) simp_all
  then have "expand Desc E = rev \<circ> expand Asc E" by blast
  with Desc show ?thesis by (simp add: rev_concat rev_map)
qed simp

text \<open>Whatever is cached, the results of the cache stand for the entries of the interval.\<close>

lemma cache_get_view:
  assumes view: "cache_view c D S" and i: "database_index D i t paths" and E: "index_view S t paths E"
  shows "\<exists>rs. cache_get c i ivl order = Inr rs
    \<and> concat (map (expand order E) rs) = order_apply order (filter (\<lambda>e. ivl_contains ivl (fst e)) E)"
proof (cases "bt_get (cache_intervals c) i")
  case None
  then show ?thesis by (simp add: cache_get_def)
next
  case (Some s)
  have "\<exists>cs. split_interval_components s ivl = Inr cs
    \<and> concat (map (expand Asc E) (cache_get_loop c i (ivl_end ivl) 0 cs)) = filter (\<lambda>e. ivl_contains ivl (fst e)) E"
  proof (cases "ivl_is_empty ivl")
    case True
    then have empty: "\<not> ivl_contains ivl k" for k by (auto simp: ivl_is_empty_points ivl_points_def)
    then have "concat (map (expand Asc E) (cached_range c i ivl)) = []"
      using cached_range_view [OF view i E _ Some, of ivl Asc E] by simp
    with True empty show ?thesis by (cases s) (simp_all add: MAX_CACHED_RANGES_PER_INTERVAL_def)
  next
    case False
    from split_interval_components_correct [OF cache_viewD(4) [OF view Some] False] obtain b cs where
      "split_interval_components s ivl = Inr cs" "components b (ivl_start ivl) (ivl_end ivl) cs" "flags_match (iset_points s) cs"
      by blast
    then show ?thesis using cache_get_loop_view [OF view i E Some] by (auto simp: ivl_contains_iff)
  qed
  with Some show ?thesis using expand_order by (fastforce simp: cache_get_def)
qed

lemma cache_get_documents:
  assumes view: "cache_view c D S" and rs: "cache_get c i ivl order = Inr rs" and "CacheDocument k ts d \<in> set rs"
  shows "bt_get (cache_documents c) (i, k) = Some (ts, d)"
proof -
  have range: "bt_get (cache_documents c) (i, k) = Some (ts, d)" if "CacheDocument k ts d \<in> set (cached_range c i j)" for j
    using that bt_get_iff [OF cache_viewD(1) [OF view]] by (auto simp: cached_range_def dest!: set_takeWhileD)
  have "bt_get (cache_documents c) (i, k) = Some (ts, d)" if "CacheDocument k ts d \<in> set (cache_get_loop c i e hits cs)" for e hits cs
    using that by (induction cs arbitrary: hits) (auto split: if_splits dest: range)
  with assms(2,3) show ?thesis
    by (cases order) (auto simp: cache_get_def and_then_Inr_iff split: option.splits)
qed

subsection \<open>Fetching a page\<close>

text \<open>The first entries of a range, at most as many as asked for, and where they end.\<close>

definition page :: "nat \<Rightarrow> index_entry list \<Rightarrow> index_entry list \<times> CursorPosition" where
  "page n all = (if length all < n then (all, CursorEnd) else (take n all, After (fst (last (take n all)))))"

lemma read_stream_eq:
  "length results < n \<Longrightarrow> read_stream n (map Inr xs) results misses
     = Inr (results @ take (n - length results) xs, misses @ map snd (take (n - length results) xs))"
proof (induction xs arbitrary: results misses)
  case (Cons x xs)
  obtain k ts d where x: "x = (k, ts, d)" by (cases x)
  have "take (n - length results) (x # xs) = x # take (n - (length results + 1)) xs"
    using Cons.prems by (simp add: take_Cons')
  with Cons.IH [of "results @ [(k, ts, d)]" "misses @ [(ts, d)]"] Cons.prems show ?case
    by (auto simp: x not_le)
qed simp

lemma fetch_cache_misses_eq:
  assumes scan: "\<And>ivl. scan i (index_table (rr_index_name q)) ivl (rr_order q) (rr_max_size q)
      = map Inr (order_apply (rr_order q) (filter (\<lambda>e. ivl_contains ivl (fst e)) E))"
    and "length results < rr_max_size q"
  shows "\<exists>misses'. fetch_cache_misses scan i q rs results misses
      = Inr (case page (rr_max_size q) (results @ concat (map (expand (rr_order q) E) rs)) of (rows, cursor) \<Rightarrow> (rows, misses', cursor))
    \<and> set misses \<subseteq> set misses' \<and> set misses' \<subseteq> set misses \<union> snd ` set E
    \<and> (\<forall>(k, ts, d) \<in> set (fst (page (rr_max_size q) (results @ concat (map (expand (rr_order q) E) rs)))).
         (k, ts, d) \<in> set results \<or> CacheDocument k ts d \<in> set rs \<or> (ts, d) \<in> set misses')"
  using assms(2)
proof (induction rs arbitrary: results misses)
  case Nil
  then show ?case by (auto simp: page_def)
next
  case (Cons r rs)
  let ?n = "rr_max_size q"
  let ?xs = "expand (rr_order q) E r"
  let ?taken = "take (?n - length results) ?xs"
  let ?all = "results @ concat (map (expand (rr_order q) E) (r # rs))"
  define misses1 where "misses1 = (case r of CacheDocument _ _ _ \<Rightarrow> misses | CacheMiss _ \<Rightarrow> misses @ map snd ?taken)"
  have "set ?taken \<subseteq> set ?xs" by (rule set_take_subset)
  then have m1: "set misses \<subseteq> set misses1" "set misses1 \<subseteq> set misses \<union> snd ` set E"
    "\<forall>(k, ts, d) \<in> set ?taken. r = CacheDocument k ts d \<or> (ts, d) \<in> set misses1"
    by (cases r; cases "rr_order q"; force simp: misses1_def)+
  have step: "fetch_cache_misses scan i q (r # rs) results misses =
      (if length (results @ ?taken) \<ge> ?n
       then (if results @ ?taken = [] then Inl (Panic ''should be at least one result'')
             else Inr (results @ ?taken, misses1, After (fst (last (results @ ?taken)))))
       else fetch_cache_misses scan i q rs (results @ ?taken) misses1)"
    using Cons.prems by (cases r) (simp_all add: misses1_def scan read_stream_eq)
  show ?case
  proof (cases "length ?xs < ?n - length results")
    case True
    let ?res = "results @ ?xs"
    have all: "?all = ?res @ concat (map (expand (rr_order q) E) rs)" by simp
    have "length ?res < ?n" using True by simp
    then obtain misses' where m': "fetch_cache_misses scan i q rs ?res misses1
        = Inr (case page ?n ?all of (rows, cursor) \<Rightarrow> (rows, misses', cursor))"
      "set misses1 \<subseteq> set misses'" "set misses' \<subseteq> set misses1 \<union> snd ` set E"
      "\<forall>(k, ts, d) \<in> set (fst (page ?n ?all)). (k, ts, d) \<in> set ?res \<or> CacheDocument k ts d \<in> set rs \<or> (ts, d) \<in> set misses'"
      using Cons.IH [of ?res misses1] unfolding all by blast
    have "fetch_cache_misses scan i q (r # rs) results misses = Inr (case page ?n ?all of (rows, cursor) \<Rightarrow> (rows, misses', cursor))"
      unfolding step using True m'(1) by simp
    moreover have "\<forall>(k, ts, d) \<in> set (fst (page ?n ?all)).
        (k, ts, d) \<in> set results \<or> CacheDocument k ts d \<in> set (r # rs) \<or> (ts, d) \<in> set misses'"
      using m'(2,4) m1(3) True by fastforce
    ultimately show ?thesis using m'(2,3) m1(1,2) by blast
  next
    case False
    then have len: "length (results @ ?taken) = ?n" using Cons.prems by simp
    have "?all = results @ (?taken @ drop (?n - length results) ?xs) @ concat (map (expand (rr_order q) E) rs)" by simp
    then obtain rest where rest: "?all = (results @ ?taken) @ rest" by (simp only: append.assoc)
    have "take ?n ?all = results @ ?taken" using rest len by (metis append_eq_conv_conj)
    moreover have "\<not> length ?all < ?n" unfolding rest length_append [of "results @ ?taken"] len by simp
    ultimately have page: "page ?n ?all = (results @ ?taken, After (fst (last (results @ ?taken))))" by (simp only: page_def if_False)
    have "results @ ?taken \<noteq> []" using len Cons.prems by (metis list.size(3) not_less_zero)
    then have "fetch_cache_misses scan i q (r # rs) results misses = Inr (case page ?n ?all of (rows, cursor) \<Rightarrow> (rows, misses1, cursor))"
      unfolding step page using len by simp
    moreover have "\<forall>(k, ts, d) \<in> set (fst (page ?n ?all)).
        (k, ts, d) \<in> set results \<or> CacheDocument k ts d \<in> set (r # rs) \<or> (ts, d) \<in> set misses1"
      unfolding page using m1(3) by fastforce
    ultimately show ?thesis using m1(1,2) by blast
  qed
qed

text \<open>A page holds all entries of the part of the interval that its cursor closes.\<close>

lemma page_covers:
  assumes S: "keyable_store S" and E: "index_view S t paths E" and n: "n > 0" and entry: "is_entry S t paths k v"
    and page: "page n (order_apply order (filter (\<lambda>e. ivl_contains ivl (fst e)) E)) = (rows, cursor)"
    and k: "ivl_contains (fst (ivl_split ivl cursor order)) k"
  shows "(k, v) \<in> set rows"
proof -
  let ?all = "order_apply order (filter (\<lambda>e. ivl_contains ivl (fst e)) E)"
  have E': "bt_wf E" "\<And>k v. (k, v) \<in> set E \<longleftrightarrow> is_entry S t paths k v"
    using E bt_get_iff unfolding index_view_entries by (auto simp: bt_get_iff)
  have set_all: "(k, v) \<in> set ?all \<longleftrightarrow> is_entry S t paths k v \<and> ivl_contains ivl k" for k v
    using E'(2) by (cases order) auto
  have sorted: "sorted_wrt (\<lambda>x y. case order of Asc \<Rightarrow> fst x < fst y | Desc \<Rightarrow> fst y < fst x) ?all"
    using bt_wf_filter [OF E'(1), of "\<lambda>e. ivl_contains ivl (fst e)"]
    by (cases order) (simp_all add: bt_wf_def sorted_wrt_map sorted_wrt_rev)
  show ?thesis
  proof (cases "length ?all < n")
    case True
    with page have "rows = ?all" "cursor = CursorEnd" by (auto simp: page_def)
    with k entry show ?thesis by (simp only: set_all ivl_split.simps fst_conv)
  next
    case False
    with page have rows: "rows = take n ?all" "cursor = After (fst (last rows))" by (auto simp: page_def)
    have "rows \<noteq> []" using False n by (auto simp: rows(1))
    then have last: "last rows \<in> set rows" by simp
    then have "last rows \<in> set ?all" using rows(1) by (metis in_set_takeD)
    then have lk: "is_entry S t paths (fst (last rows)) (snd (last rows))" "ivl_contains ivl (fst (last rows))"
      using set_all [of "fst (last rows)" "snd (last rows)"] by simp_all
    have after: "case order of Asc \<Rightarrow> fst (last rows) < fst y | Desc \<Rightarrow> fst y < fst (last rows)" if "y \<in> set (drop n ?all)" for y
    proof -
      have "sorted_wrt (\<lambda>x y. case order of Asc \<Rightarrow> fst x < fst y | Desc \<Rightarrow> fst y < fst x) (take n ?all @ drop n ?all)"
        using sorted by simp
      with that last show ?thesis unfolding rows(1) sorted_wrt_append by blast
    qed
    have read: "(case order of Asc \<Rightarrow> k \<le> fst (last rows) | Desc \<Rightarrow> fst (last rows) \<le> k) \<and> ivl_contains ivl k"
    proof (cases order)
      case Asc
      with k have k': "ivl_start ivl \<le> k" "greater_than (after_prefix (fst (last rows))) k"
        using rows(2) split_after_read [of ivl "fst (last rows)" order k] by simp_all
      have "k \<le> fst (last rows)"
      proof (rule ccontr)
        assume "\<not> k \<le> fst (last rows)"
        then have "prefix (fst (last rows)) k" using k'(2) by (simp add: prefix_iff_after_prefix)
        with is_entry_prefix [OF S lk(1) entry] \<open>\<not> k \<le> fst (last rows)\<close> show False by simp
      qed
      with k' lk(2) Asc show ?thesis by (auto simp: ivl_contains_iff dest: greater_than_anti)
    next
      case Desc
      with k lk(2) show ?thesis
        using rows(2) split_after_read [of ivl "fst (last rows)" order k] by (auto simp: ivl_contains_iff)
    qed
    have "(k, v) \<notin> set (drop n ?all)" using after [of "(k, v)"] read by (cases order) auto
    moreover have "(k, v) \<in> set (take n ?all @ drop n ?all)" using set_all entry read by simp
    ultimately show ?thesis unfolding rows(1) set_append by blast
  qed
qed

subsection \<open>Filling the cache\<close>

text \<open>What a fetch hands to the cache: documents of the snapshot, enough for the page it returned.\<close>

definition fetched_view ::
  "DatabaseIndexSnapshotCache \<Rightarrow> index_documents \<Rightarrow> document_store \<Rightarrow> RangeRequest
    \<Rightarrow> (internal_id \<times> (Timestamp \<times> PackedDocument) list \<times> CursorPosition) option \<Rightarrow> bool" where
  "fetched_view c D S q fetched = (case fetched of None \<Rightarrow> True | Some (i, misses, cursor) \<Rightarrow> (\<exists>t paths E rows.
     database_index D i t paths \<and> index_view S t paths E
     \<and> page (rr_max_size q) (order_apply (rr_order q) (filter (\<lambda>e. ivl_contains (rr_interval q) (fst e)) E)) = (rows, cursor)
     \<and> (\<forall>v \<in> set misses. stored S v)
     \<and> (\<forall>(k, v) \<in> set rows. bt_get (cache_documents c) (i, k) = Some v \<or> v \<in> set misses)))"

lemma populate_cache_view:
  assumes r: "registry_of r D" and S: "keyable_store S" and view: "cache_view c D S" and c0: "grows c0 c"
    and f: "fetched_view c0 D S q fetched" and n: "rr_max_size q > 0"
  shows "\<exists>c'. populate_cache limit doc_size r q fetched c = Inr c' \<and> cache_view c' D S \<and> grows c c'"
proof (cases fetched)
  case None
  then show ?thesis using view by (auto simp: populate_cache_def)
next
  case (Some a)
  obtain i misses cursor where a: "a = (i, misses, cursor)" by (cases a)
  obtain t paths E rows where i: "database_index D i t paths" "index_view S t paths E"
    and page: "page (rr_max_size q) (order_apply (rr_order q) (filter (\<lambda>e. ivl_contains (rr_interval q) (fst e)) E)) = (rows, cursor)"
    and misses: "\<forall>v \<in> set misses. stored S v"
    and rows: "\<forall>(k, v) \<in> set rows. bt_get (cache_documents c0) (i, k) = Some v \<or> v \<in> set misses"
    using f unfolding fetched_view_def Some a by (simp only: option.case prod.case) blast
  obtain c1 where c1: "populate_documents limit doc_size r misses c = Inr c1" "cache_view c1 D S" "grows c c1"
    "cache_size c1 \<le> limit \<longrightarrow> (\<forall>v \<in> set misses. cached c1 D v)"
    using populate_documents_view [OF r S view misses] by blast
  show ?thesis
  proof (cases "cache_size c1 \<le> limit")
    case False
    then show ?thesis using c1 by (simp add: populate_cache_def Some a record_interval_populated_def)
  next
    case True
    have all: "bt_get (cache_documents c1) (i, k) = Some v"
      if "database_index D i t' paths'" and e: "is_entry S t' paths' k v"
        and k: "ivl_contains (fst (ivl_split (rr_interval q) cursor (rr_order q))) k" for t' paths' k v
    proof -
      have e: "is_entry S t paths k v" using database_index_fun [OF i(1) that(1)] e by simp
      then have "(k, v) \<in> set rows" by (rule page_covers [OF S i(2) n _ page k])
      then consider "bt_get (cache_documents c0) (i, k) = Some v" | "v \<in> set misses" using rows by blast
      then show ?thesis
      proof cases
        case 1
        then show ?thesis using grows_trans [OF c0 c1(3)] unfolding grows_def by blast
      next
        case 2
        then have "cached c1 D v" using c1(4) True by blast
        with e i(1) show ?thesis by (cases v) (auto simp: cached_def is_entry_def)
      qed
    qed
    obtain c' where c': "add_interval i (fst (ivl_split (rr_interval q) cursor (rr_order q))) c1 = Inr c'" "cache_view c' D S"
      "cache_documents c' = cache_documents c1" "cache_size c' = cache_size c1"
      using add_interval_view [OF c1(2), of i] all by blast
    have "grows c1 c'" using c'(3,4) by (simp add: grows_def)
    with c1(3) have "grows c c'" by (rule grows_trans)
    with c'(1,2) c1(1) True show ?thesis by (simp add: populate_cache_def Some a record_interval_populated_def)
  qed
qed

lemma populate_all_view:
  assumes r: "registry_of r D" and S: "keyable_store S" and view: "cache_view c D S" and c0: "grows c0 c"
    and f: "\<forall>(q, fetched) \<in> set fs. fetched_view c0 D S q fetched \<and> rr_max_size q > 0"
  shows "\<exists>c'. populate_all limit doc_size r fs c = Inr c' \<and> cache_view c' D S"
  using view c0 f
proof (induction fs arbitrary: c)
  case (Cons p fs)
  obtain q fetched where p: "p = (q, fetched)" by (cases p)
  then obtain c1 where c1: "populate_cache limit doc_size r q fetched c = Inr c1" "cache_view c1 D S" "grows c c1"
    using populate_cache_view [OF r S Cons.prems(1,2), of q fetched limit doc_size] Cons.prems(3) by auto
  with Cons.IH [OF c1(2) grows_trans [OF Cons.prems(2) c1(3)]] Cons.prems(3) show ?case by (simp add: p)
qed simp

subsection \<open>A snapshot\<close>

definition snapshot_view :: "DatabaseIndexSnapshot \<Rightarrow> index_documents \<Rightarrow> document_store \<Rightarrow> bool" where
  "snapshot_view s D S \<longleftrightarrow> registry_of (dis_index_registry s) D \<and> in_memory_view (dis_in_memory_indexes s) D S
     \<and> cache_view (dis_cache s) D S"

definition enabled_index :: "index_documents \<Rightarrow> TabletIndexName \<Rightarrow> internal_id \<Rightarrow> field_path list \<Rightarrow> bool" where
  "enabled_index D n i paths \<longleftrightarrow>
     (\<exists>m. D i = Some m \<and> metadata_name m = n \<and> metadata_config m = Database (DatabaseIndexSpec paths) Enabled)"

text \<open>Scans of an enabled index give its entries in the interval, in order.\<close>

definition scans_indexes :: "index_scan \<Rightarrow> index_documents \<Rightarrow> document_store \<Rightarrow> bool" where
  "scans_indexes scan D S \<longleftrightarrow> (\<forall>n i paths. enabled_index D n i paths \<longrightarrow> (\<exists>E. index_view S (index_table n) paths E
     \<and> (\<forall>ivl order limit. scan i (index_table n) ivl order limit
          = map Inr (order_apply order (filter (\<lambda>e. ivl_contains ivl (fst e)) E)))))"

text \<open>
  The answer to a request on an enabled index: all of the range for an index in memory, otherwise a
  page of it.
\<close>

definition answers :: "DatabaseIndexSnapshot \<Rightarrow> index_documents \<Rightarrow> document_store \<Rightarrow> RangeRequest
    \<Rightarrow> error + index_entry list \<times> CursorPosition \<Rightarrow> bool" where
  "answers s D S q res \<longleftrightarrow> (\<forall>i paths. enabled_index D (rr_index_name q) i paths \<longrightarrow>
     (\<exists>E. index_view S (index_table (rr_index_name q)) paths E
       \<and> (let all = order_apply (rr_order q) (filter (\<lambda>e. ivl_contains (rr_interval q) (fst e)) E)
          in res = Inr (if bt_get (dis_in_memory_indexes s) i = None then page (rr_max_size q) all else (all, CursorEnd)))))"

lemma answersD:
  assumes "answers s D S q res" "enabled_index D (rr_index_name q) i paths" "bt_get (dis_in_memory_indexes s) i = None"
  shows "\<exists>E. index_view S (index_table (rr_index_name q)) paths E
    \<and> res = Inr (page (rr_max_size q) (order_apply (rr_order q) (filter (\<lambda>e. ivl_contains (rr_interval q) (fst e)) E)))"
  using assms(1) [unfolded answers_def Let_def, THEN spec, THEN spec, THEN mp, OF assms(2)]
  by (simp only: assms(3) simp_thms if_True)

lemma require_enabled_database:
  assumes r: "registry_of r D"
  shows "enabled_index D n i paths \<Longrightarrow> \<exists>index. require_enabled r n = Inr index \<and> index_id index = i
      \<and> metadata_config (index_metadata index) = Database (DatabaseIndexSpec paths) Enabled"
    and "require_enabled r n = Inr index \<Longrightarrow> metadata_config (index_metadata index) = Database spec st
      \<Longrightarrow> st = Enabled \<and> enabled_index D n (index_id index) (db_fields spec)"
proof -
  have get: "get_enabled r n = Some x \<longleftrightarrow> (\<exists>m. live D m \<and> x = index_new m \<and> metadata_name m = n \<and> is_enabled (metadata_config m))" for x
    using registry_ofD(6) [OF r, of True n x] by (simp add: get_enabled_def state_map_def)
  show "\<exists>index. require_enabled r n = Inr index \<and> index_id index = i
      \<and> metadata_config (index_metadata index) = Database (DatabaseIndexSpec paths) Enabled" if en: "enabled_index D n i paths"
  proof -
    obtain m where m: "D i = Some m" "metadata_name m = n" "metadata_config m = Database (DatabaseIndexSpec paths) Enabled"
      using en unfolding enabled_index_def by blast
    then have "get_enabled r n = Some (index_new m)" using registry_ofD(4) [OF r m(1)] unfolding get by (auto simp: live_def)
    with m registry_ofD(4) [OF r m(1)] show ?thesis by (simp add: require_enabled_def index_new_def)
  qed
  show "st = Enabled \<and> enabled_index D n (index_id index) (db_fields spec)"
    if req: "require_enabled r n = Inr index" "metadata_config (index_metadata index) = Database spec st"
  proof -
    have "get_enabled r n = Some index" using req(1) by (auto simp: require_enabled_def split: option.splits if_splits)
    then obtain m where m: "live D m" "index = index_new m" "metadata_name m = n" "is_enabled (metadata_config m)"
      unfolding get by blast
    with req(2) have "st = Enabled" by (cases st) (simp_all add: index_new_def)
    with m req(2) show ?thesis by (cases spec) (simp add: enabled_index_def live_def index_new_def)
  qed
qed

lemma enabled_index_database: "enabled_index D n i paths \<Longrightarrow> database_index D i (index_table n) paths"
  by (auto simp: enabled_index_def database_index_def)

lemma fetch_range_view:
  assumes s: "snapshot_view s D S" and scan: "scans_indexes scan D S" and n: "rr_max_size q > 0"
  shows "answers s D S q (fst (fetch_range scan s q))"
    and "fetched_view (dis_cache s) D S q (snd (fetch_range scan s q))"
proof -
  have r: "registry_of (dis_index_registry s) D" and mem: "in_memory_view (dis_in_memory_indexes s) D S"
    and cache: "cache_view (dis_cache s) D S" using s by (simp_all add: snapshot_view_def)
  let ?t = "index_table (rr_index_name q)"
  let ?all = "\<lambda>E. order_apply (rr_order q) (filter (\<lambda>e. ivl_contains (rr_interval q) (fst e)) E)"
  have direct: "\<exists>E. index_view S ?t paths E
      \<and> (if bt_get (dis_in_memory_indexes s) i = None
         then \<exists>misses. fetch_range scan s q = (Inr (page (rr_max_size q) (?all E)), Some (i, misses, snd (page (rr_max_size q) (?all E))))
           \<and> (\<forall>v \<in> set misses. stored S v)
           \<and> (\<forall>(k, v) \<in> set (fst (page (rr_max_size q) (?all E))). bt_get (cache_documents (dis_cache s)) (i, k) = Some v \<or> v \<in> set misses)
         else fetch_range scan s q = (Inr (?all E, CursorEnd), None))"
    if en: "enabled_index D (rr_index_name q) i paths" for i paths
  proof -
    obtain index where index: "require_enabled (dis_index_registry s) (rr_index_name q) = Inr index" "index_id index = i"
      "metadata_config (index_metadata index) = Database (DatabaseIndexSpec paths) Enabled"
      using require_enabled_database(1) [OF r en] by blast
    have db: "database_index D i ?t paths" using en by (rule enabled_index_database)
    show ?thesis
    proof (cases "bt_get (dis_in_memory_indexes s) i")
      case (Some m)
      then have "index_view S ?t paths (dim_inner m)"
        using mem database_index_fun [OF db] unfolding in_memory_view_def by blast
      with Some index show ?thesis
        by (intro exI [of _ "dim_inner m"]) (simp add: fetch_range_def start_range_fetch_def in_memory_range_def index_map_range_def)
    next
      case None
      obtain E where E: "index_view S ?t paths E" and scan_E: "\<And>ivl order limit. scan i ?t ivl order limit
          = map Inr (order_apply order (filter (\<lambda>e. ivl_contains ivl (fst e)) E))"
        using scan en unfolding scans_indexes_def by blast
      obtain rs where rs: "cache_get (dis_cache s) i (rr_interval q) (rr_order q) = Inr rs"
        "concat (map (expand (rr_order q) E) rs) = ?all E"
        using cache_get_view [OF cache db E] by blast
      obtain misses where m: "fetch_cache_misses scan i q rs [] []
          = Inr (case page (rr_max_size q) (?all E) of (rows, cursor) \<Rightarrow> (rows, misses, cursor))"
        "set misses \<subseteq> snd ` set E"
        "\<forall>(k, ts, d) \<in> set (fst (page (rr_max_size q) (?all E))). CacheDocument k ts d \<in> set rs \<or> (ts, d) \<in> set misses"
        using fetch_cache_misses_eq [of scan i q E "[]" rs "[]"] scan_E n rs(2) by auto
      have "fetch_range scan s q = (Inr (page (rr_max_size q) (?all E)), Some (i, misses, snd (page (rr_max_size q) (?all E))))"
        using None index rs(1) m(1)
        by (simp add: fetch_range_def start_range_fetch_def in_memory_range_def split: prod.splits)
      moreover have "stored S v" if "v \<in> set misses" for v
        using that m(2) E bt_get_iff [of E] by (auto simp: index_view_def stored_def)
      moreover have "\<forall>(k, v) \<in> set (fst (page (rr_max_size q) (?all E))).
          bt_get (cache_documents (dis_cache s)) (i, k) = Some v \<or> v \<in> set misses"
        using m(3) cache_get_documents [OF cache rs(1)] by fastforce
      ultimately show ?thesis using E None by auto
    qed
  qed
  show "answers s D S q (fst (fetch_range scan s q))"
    unfolding answers_def Let_def
  proof (intro allI impI)
    fix i paths assume "enabled_index D (rr_index_name q) i paths"
    from direct [OF this] show "\<exists>E. index_view S ?t paths E
        \<and> fst (fetch_range scan s q) = Inr (if bt_get (dis_in_memory_indexes s) i = None then page (rr_max_size q) (?all E) else (?all E, CursorEnd))"
      by (auto split: if_splits)
  qed
  show "fetched_view (dis_cache s) D S q (snd (fetch_range scan s q))"
  proof (cases "snd (fetch_range scan s q)")
    case None
    then show ?thesis by (simp add: fetched_view_def)
  next
    case (Some a)
    then obtain index spec st where req: "require_enabled (dis_index_registry s) (rr_index_name q) = Inr index"
      "metadata_config (index_metadata index) = Database spec st"
      by (auto simp: fetch_range_def start_range_fetch_def split: sum.splits IndexConfig.splits if_splits)
    then have en: "enabled_index D (rr_index_name q) (index_id index) (db_fields spec)"
      using require_enabled_database(2) [OF r] by blast
    from direct [OF en] Some obtain E misses where E: "index_view S ?t (db_fields spec) E"
      "a = (index_id index, misses, snd (page (rr_max_size q) (?all E)))" "\<forall>v \<in> set misses. stored S v"
      "\<forall>(k, v) \<in> set (fst (page (rr_max_size q) (?all E))). bt_get (cache_documents (dis_cache s)) (index_id index, k) = Some v \<or> v \<in> set misses"
      by (auto split: if_splits)
    moreover obtain rows cursor where "page (rr_max_size q) (?all E) = (rows, cursor)" by (cases "page (rr_max_size q) (?all E)")
    ultimately show ?thesis using enabled_index_database [OF en] Some
      unfolding fetched_view_def by auto
  qed
qed

subsection \<open>Properties\<close>

text \<open>
  C3: the cache of a snapshot is transparent, as long as the documents have no empty field names. On a
  snapshot of well-formed documents with valid ids and without empty field names, whose indexes in
  memory and whose cache present the documents, with scans of persistence that give the entries of
  the enabled indexes, a batch of range queries with positive page sizes never panics, whatever the limit of the cache and the order in which the
  queries complete; each query on an enabled index returns exactly the entries of the index in its
  interval, in its order, all of them for an index in memory and otherwise the first ones up to its
  limit with the cursor after the last of them; and the filled cache again presents the documents of
  the snapshot, so that this holds for all batches of the transaction.
\<close>

theorem range_batch_transparent:
  assumes "snapshot_view s D S" and "keyable_store S" and "scans_indexes scan D S"
    and "\<forall>q \<in> set qs. rr_max_size q > 0" and "set (completion qs) \<subseteq> set qs"
  shows "\<exists>results c. range_batch scan limit doc_size completion s qs = Inr (results, s\<lparr>dis_cache := c\<rparr>)
    \<and> list_all2 (answers s D S) qs results \<and> snapshot_view (s\<lparr>dis_cache := c\<rparr>) D S"
proof -
  have s: "registry_of (dis_index_registry s) D" "cache_view (dis_cache s) D S" using assms(1) by (simp_all add: snapshot_view_def)
  let ?fs = "map (\<lambda>q. (q, snd (fetch_range scan s q))) (completion qs)"
  have "\<forall>(q, fetched) \<in> set ?fs. fetched_view (dis_cache s) D S q fetched \<and> rr_max_size q > 0"
    using assms(4,5) fetch_range_view(2) [OF assms(1,3)] by auto
  then obtain c where c: "populate_all limit doc_size (dis_index_registry s) ?fs (dis_cache s) = Inr c" "cache_view c D S"
    using populate_all_view [OF s(1) assms(2) s(2) grows_refl] by blast
  moreover have "list_all2 (answers s D S) qs (map (\<lambda>q. fst (fetch_range scan s q)) qs)"
    using assms(4) fetch_range_view(1) [OF assms(1,3)] by (simp add: list_all2_conv_all_nth)
  ultimately show ?thesis using assms(1) by (auto simp: range_batch_def snapshot_view_def)
qed

theorem range_batch_transparent_witness:
  "\<exists>c. range_batch (\<lambda>i t ivl order limit. if i = replicate 16 2 then map Inr (order_apply order
        (filter (\<lambda>e. ivl_contains ivl (fst e)) [(projr (pd_index_key example_document []), 5, example_document)])) else [])
      10 (\<lambda>_. 1) rev
      (database_index_snapshot_new (registry_with [9] (example_metadata 1 (new_enabled (by_id [9]) []))
        (example_metadata 2 (new_enabled (by_id [7]) []))) [])
      [\<lparr>rr_index_name = by_id [7], rr_interval = ivl_all, rr_order = Asc, rr_max_size = 2\<rparr>]
    = Inr ([Inr ([(projr (pd_index_key example_document []), 5, example_document)], CursorEnd)], c)"
proof -
  let ?a = "example_metadata 1 (new_enabled (by_id [9]) [])" and ?b = "example_metadata 2 (new_enabled (by_id [7]) [])"
  let ?r = "registry_with [9] ?a ?b" and ?D = "[replicate 16 1 \<mapsto> ?a, replicate 16 2 \<mapsto> ?b]"
  let ?S = "[pd_id example_document \<mapsto> (5, example_document)]"
  let ?E = "[(projr (pd_index_key example_document []), 5 :: Timestamp, example_document)]"
  let ?scan = "\<lambda>i t ivl order limit. if i = replicate 16 2 then map Inr (order_apply order
        (filter (\<lambda>e. ivl_contains ivl (fst e)) ?E)) else []"
  let ?s = "database_index_snapshot_new ?r []"
  let ?q = "\<lparr>rr_index_name = by_id [7], rr_interval = ivl_all, rr_order = Asc, rr_max_size = 2\<rparr>"
  have r: "registry_of ?r ?D"
    using registry_of_two [of ?a ?b "[9]"] by (simp_all add: new_enabled_def by_id_def valid_reserved_names [unfolded by_id_def])
  have key: "keyable_document example_document"
    by (simp add: keyable_document_def example_document_def keyable_empty wf_id_def)
  then have k: "pd_index_key example_document [] = Inr (projr (pd_index_key example_document []))"
    using pd_index_key_total [of example_document "[]"] keyable_document_valid by (auto simp: valid_document_def)
  have S: "keyable_store ?S" using key by (auto simp: keyable_store_def split: if_splits)
  have E: "index_view ?S [7] [] E \<longleftrightarrow> E = ?E" "index_view ?S [9] [] []" for E
  proof -
    have views: "index_view ?S [7] [] ?E" "index_view ?S [9] [] []"
      using k by (auto simp: index_view_def bt_wf_Cons split: if_splits)
    then show "index_view ?S [9] [] []" by blast
    show "index_view ?S [7] [] E \<longleftrightarrow> E = ?E" using views(1) index_view_unique by blast
  qed
  have "scans_indexes ?scan ?D ?S"
    unfolding scans_indexes_def
  proof (intro allI impI)
    fix n i paths assume "enabled_index ?D n i paths"
    then consider "i = replicate 16 2" "n = by_id [7]" "paths = []" | "i = replicate 16 1" "n = by_id [9]" "paths = []"
      by (auto simp: enabled_index_def new_enabled_def split: if_splits)
    then show "\<exists>E. index_view ?S (index_table n) paths E
        \<and> (\<forall>ivl order limit. ?scan i (index_table n) ivl order limit = map Inr (order_apply order (filter (\<lambda>e. ivl_contains ivl (fst e)) E)))"
    proof cases
      case 1
      then show ?thesis using E(1) by (intro exI [of _ ?E]) (simp add: by_id_def)
    next
      case 2
      have "order_apply order ([] :: index_entry list) = []" for order by (cases order) simp_all
      with 2 show ?thesis using E(2) by (intro exI [of _ "[]"]) (simp add: by_id_def)
    qed
  qed
  moreover have "snapshot_view ?s ?D ?S"
    using r by (simp add: snapshot_view_def database_index_snapshot_new_def in_memory_view_def cache_view_new)
  ultimately obtain results c where res: "range_batch ?scan 10 (\<lambda>_. 1) rev ?s [?q] = Inr (results, ?s\<lparr>dis_cache := c\<rparr>)"
    "list_all2 (answers ?s ?D ?S) [?q] results"
    using range_batch_transparent [of ?s ?D ?S ?scan "[?q]" rev 10 "\<lambda>_. 1"] S by auto
  then obtain res' where res': "results = [res']" "answers ?s ?D ?S ?q res'" by (auto simp: list_all2_Cons1)
  have en: "enabled_index ?D (rr_index_name ?q) (replicate 16 2) []"
    by (simp add: enabled_index_def new_enabled_def)
  have t: "index_table (by_id [7 :: byte]) = [7]" by (simp add: by_id_def)
  have mem: "dis_in_memory_indexes ?s = []" by (simp add: database_index_snapshot_new_def)
  from answersD [OF res'(2) en] mem obtain E' where E': "index_view ?S (index_table (rr_index_name ?q)) [] E'"
    "res' = Inr (page (rr_max_size ?q) (order_apply (rr_order ?q) (filter (\<lambda>e. ivl_contains (rr_interval ?q) (fst e)) E')))"
    by (metis bt_get_simps(1))
  have "E' = ?E" using E'(1) E(1) [of E'] t by simp
  then have "res' = Inr (page 2 (filter (\<lambda>e. ivl_contains ivl_all (fst e)) ?E))" using E'(2) by simp
  also have "\<dots> = Inr (?E, CursorEnd)" by (simp add: page_def ivl_all_def ivl_contains_def)
  finally show ?thesis using res(1) res'(1) by blast
qed

end
