(* ===== verification/Transaction_Writes.thy ===== *)
theory Transaction_Writes
  imports Registry_View
begin

text \<open>
  The writes of a transaction (\<^verbatim>\<open>src/crates/database/src/writes.rs\<close>): the write set, which keeps one
  update per document and records what the writes depend on, its limits, and the stack of nested
  writes of sub-transactions. The encoding of a table id as a string is the one of a library and is an
  argument, as are the limits and the stack trace of a read. An update that fails leaves the sizes and
  the reads changed, so operations return their result together with the new state. The order of the
  set of updates is the derived order of document ids, as a key.
\<close>

subsection \<open>Document updates\<close>

record DocumentUpdateWithPrevTs =
  du_id :: ResolvedDocumentId
  du_old_document :: "(ResolvedDocument \<times> Timestamp) option"
  du_new_document :: "ResolvedDocument option"

definition du_old :: "DocumentUpdateWithPrevTs \<Rightarrow> ResolvedDocument option" where
  "du_old u = map_option fst (du_old_document u)"

type_synonym doc_key = "tablet_id \<times> table_number \<times> internal_id"

definition doc_key :: "ResolvedDocumentId \<Rightarrow> doc_key" where
  "doc_key i = (tablet_id i, dev_table (developer_id i), dev_internal_id (developer_id i))"

definition INTERNAL_ID_MAX_SIZE :: nat where
  "INTERNAL_ID_MAX_SIZE = 17"

definition tablet_id_size :: "tablet_id \<Rightarrow> nat" where
  "tablet_id_size t = INTERNAL_ID_MAX_SIZE"

definition table_number_size :: "table_number \<Rightarrow> nat" where
  "table_number_size n = INTERNAL_ID_MAX_SIZE"

definition internal_id_size :: "internal_id \<Rightarrow> nat" where
  "internal_id_size i = 16"

definition developer_id_size :: "DeveloperDocumentId \<Rightarrow> nat" where
  "developer_id_size i = table_number_size (dev_table i) + internal_id_size (dev_internal_id i)"

definition resolved_id_size :: "ResolvedDocumentId \<Rightarrow> nat" where
  "resolved_id_size i = tablet_id_size (tablet_id i) + developer_id_size (developer_id i)"

subsection \<open>The tables that never change\<close>

record TabletIdAndTableNumber =
  tn_table_number :: table_number
  tn_tablet_id :: tablet_id

record BootstrapTableIds =
  tables_id :: TabletIdAndTableNumber
  bootstrap_index_id :: TabletIdAndTableNumber

definition is_index_table :: "BootstrapTableIds \<Rightarrow> tablet_id \<Rightarrow> bool" where
  "is_index_table b t = (tn_tablet_id (bootstrap_index_id b) = t)"

definition is_tables_table :: "BootstrapTableIds \<Rightarrow> tablet_id \<Rightarrow> bool" where
  "is_tables_table b t = (tn_tablet_id (tables_id b) = t)"

subsection \<open>The reads of a write\<close>

definition index_metadata_serialize_tablet_id :: "(bytes \<Rightarrow> bytes) \<Rightarrow> tablet_id \<Rightarrow> error + ConvexValue" where
  "index_metadata_serialize_tablet_id encode_urlsafe t = and_then (string_try_from (encode_urlsafe t)) (\<lambda>s. Inr (String s))"

text \<open>Continuing with a changed read set; a failure leaves it as it was.\<close>

definition reads_then ::
  "TransactionReadSet \<Rightarrow> error + TransactionReadSet \<Rightarrow> (TransactionReadSet \<Rightarrow> (error + unit) \<times> TransactionReadSet)
    \<Rightarrow> (error + unit) \<times> TransactionReadSet" where
  "reads_then trs r k = (case r of Inl e \<Rightarrow> (Inl e, trs) | Inr trs' \<Rightarrow> k trs')"

definition record_reads_for_write ::
  "(bytes \<Rightarrow> bytes) \<Rightarrow> StackTrace option \<Rightarrow> BootstrapTableIds \<Rightarrow> TransactionReadSet \<Rightarrow> tablet_id
    \<Rightarrow> (error + unit) \<times> TransactionReadSet" where
  "record_reads_for_write encode_urlsafe trace b trs t =
     (if is_index_table b t \<or> is_tables_table b t then
        reads_then trs (record_indexed_derived trace trs (by_id (tn_tablet_id (tables_id b))) [] ivl_all) (\<lambda>trs1.
        reads_then trs1 (record_indexed_derived trace trs1 (by_id (tn_tablet_id (bootstrap_index_id b))) [] ivl_all) (\<lambda>trs2.
          (Inr (), trs2)))
      else
        reads_then trs (and_then (and_then (index_key_new [] \<lparr>dev_table = tn_table_number (tables_id b), dev_internal_id = t\<rparr>)
            index_key_to_bytes) (\<lambda>table_id_bytes.
          record_indexed_derived trace trs (by_id (tn_tablet_id (tables_id b))) [] (ivl_prefix table_id_bytes))) (\<lambda>trs1.
        reads_then trs1 (and_then (index_metadata_serialize_tablet_id encode_urlsafe t) (\<lambda>v.
          and_then (values_to_bytes [Some v]) (\<lambda>tablet_id_bytes.
          and_then (index_name_new (tn_tablet_id (bootstrap_index_id b)) INDEX_BY_TABLE_ID_VIRTUAL_INDEX_DESCRIPTOR) (\<lambda>n.
            record_indexed_derived trace trs1 n [TABLE_ID_FIELD_PATH] (ivl_prefix tablet_id_bytes))))) (\<lambda>trs2.
          (Inr (), trs2))))"

definition register_new_id ::
  "StackTrace option \<Rightarrow> TransactionReadSet \<Rightarrow> ResolvedDocumentId \<Rightarrow> (error + unit) \<times> TransactionReadSet" where
  "register_new_id trace trs i =
     reads_then trs (and_then (and_then (index_key_new [] (developer_id i)) index_key_to_bytes) (\<lambda>id_bytes.
       record_indexed_derived trace trs (by_id (tablet_id i)) [] (ivl_prefix id_bytes))) (\<lambda>trs'. (Inr (), trs'))"

subsection \<open>The write set\<close>

record TransactionWriteSize =
  num_writes :: nat
  write_size :: nat

record Writes =
  w_updates :: "(doc_key, DocumentUpdateWithPrevTs) btree_map"
  w_user_tx_size :: TransactionWriteSize
  w_system_tx_size :: TransactionWriteSize

record WriteLimits =
  TRANSACTION_MAX_NUM_USER_WRITES :: nat
  TRANSACTION_MAX_USER_WRITE_SIZE_BYTES :: nat
  TRANSACTION_MAX_SYSTEM_NUM_WRITES :: nat
  TRANSACTION_MAX_SYSTEM_WRITE_SIZE_BYTES :: nat

definition writes_new :: Writes where
  "writes_new = \<lparr>w_updates = [], w_user_tx_size = \<lparr>num_writes = 0, write_size = 0\<rparr>,
     w_system_tx_size = \<lparr>num_writes = 0, write_size = 0\<rparr>\<rparr>"

definition writes_is_empty :: "Writes \<Rightarrow> bool" where
  "writes_is_empty w = (w_updates w = [])"

definition count_write :: "nat \<Rightarrow> TransactionWriteSize \<Rightarrow> TransactionWriteSize" where
  "count_write n s = \<lparr>num_writes = num_writes s + 1, write_size = write_size s + n\<rparr>"

definition check_write_limits :: "WriteLimits \<Rightarrow> bool \<Rightarrow> Writes \<Rightarrow> error + unit" where
  "check_write_limits limits is_system w =
     (if is_system then
        (if num_writes (w_system_tx_size w) > TRANSACTION_MAX_SYSTEM_NUM_WRITES limits
         then Inl (Bail ''Too many system document writes in a single transaction'')
         else if write_size (w_system_tx_size w) > TRANSACTION_MAX_SYSTEM_WRITE_SIZE_BYTES limits
         then Inl (Bail ''Too many bytes written in system tables in a single transaction'')
         else Inr ())
      else
        (if num_writes (w_user_tx_size w) > TRANSACTION_MAX_NUM_USER_WRITES limits
         then Inl (PaginationLimit ''TooManyWrites'')
         else if write_size (w_user_tx_size w) > TRANSACTION_MAX_USER_WRITE_SIZE_BYTES limits
         then Inl (PaginationLimit ''TooManyBytesWritten'')
         else Inr ()))"

text \<open>The update to store: merged with the one the transaction already has for the document, if any.\<close>

definition merged_update ::
  "Writes \<Rightarrow> ResolvedDocumentId \<Rightarrow> (ResolvedDocument \<times> WriteTimestamp) option \<Rightarrow> ResolvedDocument option
    \<Rightarrow> error + DocumentUpdateWithPrevTs" where
  "merged_update w i old new = (case bt_get (w_updates w) (doc_key i) of
     Some old_update \<Rightarrow>
       (if du_new_document old_update \<noteq> map_option fst old
        then Inl (Bail ''Inconsistent update: The old update's new document does not match the new document's old update'')
        else if map_option snd old \<notin> {None, Some Pending}
        then Inl (Bail ''Inconsistent update: The new document's old update timestamp should be Pending'')
        else Inr \<lparr>du_id = i, du_old_document = du_old_document old_update, du_new_document = new\<rparr>)
   | None \<Rightarrow> (case old of
       None \<Rightarrow> Inr \<lparr>du_id = i, du_old_document = None, du_new_document = new\<rparr>
     | Some (d, Committed ts) \<Rightarrow> Inr \<lparr>du_id = i, du_old_document = Some (d, ts), du_new_document = new\<rparr>
     | Some (d, Pending) \<Rightarrow> Inl (Bail ''Old document timestamp is Pending, but there is no pending write'')))"

definition writes_update ::
  "WriteLimits \<Rightarrow> (bytes \<Rightarrow> bytes) \<Rightarrow> StackTrace option \<Rightarrow> BootstrapTableIds \<Rightarrow> bool \<Rightarrow> TransactionReadSet \<Rightarrow> Writes
    \<Rightarrow> ResolvedDocumentId \<Rightarrow> (ResolvedDocument \<times> WriteTimestamp) option \<Rightarrow> ResolvedDocument option
    \<Rightarrow> (error + unit) \<times> Writes \<times> TransactionReadSet" where
  "writes_update limits encode_urlsafe trace b is_system trs w i old new =
     (if old = None \<and> bt_get (w_updates w) (doc_key i) \<noteq> None then (Inl (Bail ''Duplicate insert''), w, trs)
      else case (if old = None then register_new_id trace trs i else (Inr (), trs)) of
          (Inl e, trs1) \<Rightarrow> (Inl e, w, trs1)
        | (Inr _, trs1) \<Rightarrow> (case record_reads_for_write encode_urlsafe trace b trs1 (tablet_id i) of
            (Inl e, trs2) \<Rightarrow> (Inl e, w, trs2)
          | (Inr _, trs2) \<Rightarrow>
              (let n = resolved_id_size i + (case new of None \<Rightarrow> 0 | Some d \<Rightarrow> obj_size (dd_value (rd_document d)));
                   w1 = (if is_system then w\<lparr>w_system_tx_size := count_write n (w_system_tx_size w)\<rparr>
                         else w\<lparr>w_user_tx_size := count_write n (w_user_tx_size w)\<rparr>)
               in case check_write_limits limits is_system w1 of
                    Inl e \<Rightarrow> (Inl e, w1, trs2)
                  | Inr _ \<Rightarrow> (case merged_update w1 i old new of
                      Inl e \<Rightarrow> (Inl e, w1, trs2)
                    | Inr u \<Rightarrow> (Inr (), w1\<lparr>w_updates := bt_insert (doc_key i) u (w_updates w1)\<rparr>, trs2)))))"

definition coalesced_writes :: "Writes \<Rightarrow> DocumentUpdateWithPrevTs list" where
  "coalesced_writes w = map snd (w_updates w)"

definition generated_ids :: "Writes \<Rightarrow> ResolvedDocumentId list" where
  "generated_ids w = map du_id (filter (\<lambda>u. du_old_document u = None) (coalesced_writes w))"

subsection \<open>Nested writes\<close>

text \<open>The token of a nesting level is a 32-bit number; the build checks additions for overflow.\<close>

datatype 'w NestedWrites =
  NestedWrites (nw_parent: "'w NestedWrites option") (nw_pending: 'w) (nw_token: "32 word")

definition nested_new :: "'w \<Rightarrow> 'w NestedWrites" where
  "nested_new w = NestedWrites None w 0"

definition begin_nested :: "'w NestedWrites \<Rightarrow> error + 'w NestedWrites \<times> 32 word" where
  "begin_nested n =
     (if nw_token n = 0xFFFFFFFF then Inl (Panic ''attempt to add with overflow'')
      else let token = nw_token n + 1 in Inr (NestedWrites (Some n) (nw_pending n) token, token))"

definition commit_nested :: "'w NestedWrites \<Rightarrow> 32 word \<Rightarrow> error + 'w NestedWrites" where
  "commit_nested n token =
     (if nw_token n \<noteq> token then Inl (Bail ''Mismatched nested transaction token'')
      else case nw_parent n of
          None \<Rightarrow> Inl (Bail ''No nested transaction to commit'')
        | Some p \<Rightarrow> Inr (NestedWrites (nw_parent p) (nw_pending n) (nw_token p)))"

definition rollback_nested :: "'w NestedWrites \<Rightarrow> 32 word \<Rightarrow> error + 'w NestedWrites" where
  "rollback_nested n token =
     (if nw_token n \<noteq> token then Inl (Bail ''Mismatched nested transaction token'')
      else case nw_parent n of
          None \<Rightarrow> Inl (Bail ''No nested transaction to rollback'')
        | Some p \<Rightarrow> Inr p)"

definition require_not_nested :: "'w NestedWrites \<Rightarrow> error + unit" where
  "require_not_nested n = (if nw_parent n = None then Inr () else Inl (Bail ''Nested transaction in progress''))"

definition into_flat :: "'w NestedWrites \<Rightarrow> error + 'w" where
  "into_flat n = and_then (require_not_nested n) (\<lambda>_. Inr (nw_pending n))"

text \<open>Writing through the nesting (\<^verbatim>\<open>pending\<close>, \<^verbatim>\<open>deref_mut\<close>).\<close>

definition nested_pending :: "('w \<Rightarrow> 'w) \<Rightarrow> 'w NestedWrites \<Rightarrow> 'w NestedWrites" where
  "nested_pending f n = NestedWrites (nw_parent n) (f (nw_pending n)) (nw_token n)"

subsection \<open>The reads that a write records\<close>

lemma doc_key_inj [simp]: "doc_key i = doc_key j \<longleftrightarrow> i = j"
  by (cases i; cases j; cases "developer_id i"; cases "developer_id j") (auto simp: doc_key_def)

definition id_range :: "tablet_id \<Rightarrow> DeveloperDocumentId \<Rightarrow> RecordedRead" where
  "id_range t i = IndexRange (by_id t) [] (ivl_prefix (projr (and_then (index_key_new [] i) index_key_to_bytes)))"

definition table_reads :: "(bytes \<Rightarrow> bytes) \<Rightarrow> BootstrapTableIds \<Rightarrow> tablet_id \<Rightarrow> RecordedRead list" where
  "table_reads encode_urlsafe b t =
     (if is_index_table b t \<or> is_tables_table b t
      then [IndexRange (by_id (tn_tablet_id (tables_id b))) [] ivl_all, IndexRange (by_id (tn_tablet_id (bootstrap_index_id b))) [] ivl_all]
      else [id_range (tn_tablet_id (tables_id b)) \<lparr>dev_table = tn_table_number (tables_id b), dev_internal_id = t\<rparr>,
            IndexRange (GenericIndexName (tn_tablet_id (bootstrap_index_id b)) INDEX_BY_TABLE_ID_VIRTUAL_INDEX_DESCRIPTOR)
              [TABLE_ID_FIELD_PATH] (ivl_prefix (projr (values_to_bytes [Some (String (encode_urlsafe t))])))])"

lemma record_reads_for_write_recorded:
  assumes "recorded trs h" "record_reads_for_write encode_urlsafe trace b trs t = (Inr (), trs')"
  shows "recorded trs' (h @ table_reads encode_urlsafe b t)"
proof (cases "is_index_table b t \<or> is_tables_table b t")
  case True
  with assms(2) obtain trs1 where "record_indexed_derived trace trs (by_id (tn_tablet_id (tables_id b))) [] ivl_all = Inr trs1"
    "record_indexed_derived trace trs1 (by_id (tn_tablet_id (bootstrap_index_id b))) [] ivl_all = Inr trs'"
    by (auto simp: record_reads_for_write_def reads_then_def split: sum.splits)
  from recorded_derived [OF recorded_derived [OF assms(1) valid_reserved_names(1) this(1)] valid_reserved_names(1) this(2)] True
  show ?thesis by (simp add: table_reads_def)
next
  case False
  with assms(2) obtain k v k' n trs1 where
    k: "and_then (index_key_new [] \<lparr>dev_table = tn_table_number (tables_id b), dev_internal_id = t\<rparr>) index_key_to_bytes = Inr k"
    and first: "record_indexed_derived trace trs (by_id (tn_tablet_id (tables_id b))) [] (ivl_prefix k) = Inr trs1"
    and v: "index_metadata_serialize_tablet_id encode_urlsafe t = Inr v" "values_to_bytes [Some v] = Inr k'"
    and n: "index_name_new (tn_tablet_id (bootstrap_index_id b)) INDEX_BY_TABLE_ID_VIRTUAL_INDEX_DESCRIPTOR = Inr n"
    and second: "record_indexed_derived trace trs1 n [TABLE_ID_FIELD_PATH] (ivl_prefix k') = Inr trs'"
    by (auto simp: record_reads_for_write_def reads_then_def and_then_Inr_iff simp del: values_to_bytes.simps split: sum.splits)
  have "v = String (encode_urlsafe t)" using v(1) by (auto simp: index_metadata_serialize_tablet_id_def and_then_Inr_iff)
  moreover have "n = GenericIndexName (tn_tablet_id (bootstrap_index_id b)) INDEX_BY_TABLE_ID_VIRTUAL_INDEX_DESCRIPTOR"
    "valid_index_name n"
    using n unfolding index_name_new_iff by blast+
  ultimately show ?thesis
    using recorded_derived [OF recorded_derived [OF assms(1) valid_reserved_names(1) first] _ second] False k v(2)
    by (simp add: table_reads_def id_range_def del: values_to_bytes.simps)
qed

lemma register_new_id_recorded:
  assumes "recorded trs h" "register_new_id trace trs i = (Inr (), trs')"
  shows "recorded trs' (h @ [id_range (tablet_id i) (developer_id i)])"
proof -
  obtain k where "and_then (index_key_new [] (developer_id i)) index_key_to_bytes = Inr k"
    "record_indexed_derived trace trs (by_id (tablet_id i)) [] (ivl_prefix k) = Inr trs'"
    using assms(2) by (auto simp: register_new_id_def reads_then_def and_then_Inr_iff split: sum.splits)
  then show ?thesis using recorded_derived [OF assms(1) valid_reserved_names(1)] by (simp add: id_range_def)
qed

subsection \<open>When an update fails\<close>

text \<open>A read set in which the system indexes have the fields they should have.\<close>

definition system_reads :: "TransactionReadSet \<Rightarrow> bool" where
  "system_reads trs \<longleftrightarrow> wf_reads (trs_read_set trs)
     \<and> (\<forall>t. read_fields (trs_read_set trs) (by_id t) \<in> {None, Some []})
     \<and> (\<forall>t. read_fields (trs_read_set trs) (GenericIndexName t INDEX_BY_TABLE_ID_VIRTUAL_INDEX_DESCRIPTOR)
          \<in> {None, Some [TABLE_ID_FIELD_PATH]})"

lemma system_reads_new: "system_reads transaction_read_set_new"
  by (simp add: system_reads_def transaction_read_set_new_def wf_reads_empty read_fields_def) (simp add: read_set_empty_def)

lemma system_index_names:
  "by_id t \<noteq> GenericIndexName t' INDEX_BY_TABLE_ID_VIRTUAL_INDEX_DESCRIPTOR"
proof -
  have "INDEX_BY_ID_DESCRIPTOR \<noteq> INDEX_BY_TABLE_ID_VIRTUAL_INDEX_DESCRIPTOR" by code_simp
  then show ?thesis by (simp add: by_id_def)
qed

lemma record_indexed_derived_ok:
  assumes "wf_reads (trs_read_set trs)" "valid_index_name n" "read_fields (trs_read_set trs) n \<in> {None, Some paths}"
  shows "\<exists>trs'. record_indexed_derived trace trs n paths i = Inr trs' \<and> wf_reads (trs_read_set trs')
    \<and> (\<forall>n'. read_fields (trs_read_set trs') n' = (if n' = n then Some paths else read_fields (trs_read_set trs) n'))"
proof -
  let ?r = "entry_or \<lparr>ir_fields = paths, ir_intervals = iset_new, ir_stack_traces = (if trace = None then None else Some [])\<rparr>
      (rs_indexed (trs_read_set trs)) n"
  have "ir_fields ?r = paths" using assms(3) by (auto simp: read_fields_def entry_or_def split: option.splits)
  moreover have "wf_iset (ir_intervals ?r)"
    using wf_readsD(4) [OF assms(1)] iset.invar_new by (auto simp: entry_or_def split: option.splits)
  ultimately obtain trs' a c where rec: "record_indexed trace trs n paths [i] = Inr (trs', a, c)"
    using add_intervals_correct [of "ir_intervals ?r" trace "[i]" "ir_stack_traces ?r"] by (auto simp: record_indexed_def Let_def)
  from record_indexed_correct(1,3) [OF assms(1,2) rec] rec show ?thesis by (simp add: record_indexed_derived_def)
qed

lemma record_by_id_ok:
  assumes "system_reads trs"
  shows "\<exists>trs'. record_indexed_derived trace trs (by_id t) [] i = Inr trs' \<and> system_reads trs'"
  using record_indexed_derived_ok [of trs "by_id t" "[]" trace i] assms valid_reserved_names(1) [of t]
    system_index_names [of t] system_index_names [of t, symmetric]
  by (auto simp: system_reads_def by_id_def)

lemma record_virtual_ok:
  assumes "system_reads trs"
  shows "\<exists>n trs'. index_name_new t INDEX_BY_TABLE_ID_VIRTUAL_INDEX_DESCRIPTOR = Inr n
    \<and> record_indexed_derived trace trs n [TABLE_ID_FIELD_PATH] i = Inr trs' \<and> system_reads trs'"
proof -
  let ?n = "GenericIndexName t INDEX_BY_TABLE_ID_VIRTUAL_INDEX_DESCRIPTOR"
  have n: "index_name_new t INDEX_BY_TABLE_ID_VIRTUAL_INDEX_DESCRIPTOR = Inr ?n" by (rule virtual_index_name)
  then have "valid_index_name ?n" unfolding index_name_new_iff by blast
  then obtain trs' where trs': "record_indexed_derived trace trs ?n [TABLE_ID_FIELD_PATH] i = Inr trs'" "wf_reads (trs_read_set trs')"
    "\<And>n'. read_fields (trs_read_set trs') n' = (if n' = ?n then Some [TABLE_ID_FIELD_PATH] else read_fields (trs_read_set trs) n')"
    using record_indexed_derived_ok [of trs ?n "[TABLE_ID_FIELD_PATH]" trace i] assms unfolding system_reads_def by blast
  have "system_reads trs'" using assms trs'(2) by (auto simp: system_reads_def trs'(3) system_index_names)
  with n trs'(1) show ?thesis by blast
qed

lemma id_key_ok:
  assumes "length (dev_internal_id i) = 16"
  shows "\<exists>k. and_then (index_key_new [] i) index_key_to_bytes = Inr k"
  using id_to_value_total [OF assms]
  by (auto simp: index_key_new_def new_allow_missing_def index_key_to_bytes_def values_to_bytes_concat)

lemma register_new_id_ok:
  assumes "system_reads trs" "length (dev_internal_id (developer_id i)) = 16"
  shows "\<exists>trs'. register_new_id trace trs i = (Inr (), trs') \<and> system_reads trs'"
proof -
  obtain k where k: "and_then (index_key_new [] (developer_id i)) index_key_to_bytes = Inr k" using id_key_ok [OF assms(2)] by blast
  obtain trs' where "record_indexed_derived trace trs (by_id (tablet_id i)) [] (ivl_prefix k) = Inr trs'" "system_reads trs'"
    using record_by_id_ok [OF assms(1)] by blast
  with k show ?thesis by (simp add: register_new_id_def reads_then_def)
qed

lemma record_reads_for_write_ok:
  assumes "system_reads trs" "length t = 16" "length (encode_urlsafe t) + 2 \<le> MAX_SIZE"
  shows "\<exists>trs'. record_reads_for_write encode_urlsafe trace b trs t = (Inr (), trs') \<and> system_reads trs'"
proof (cases "is_index_table b t \<or> is_tables_table b t")
  case True
  obtain trs1 where trs1: "record_indexed_derived trace trs (by_id (tn_tablet_id (tables_id b))) [] ivl_all = Inr trs1" "system_reads trs1"
    using record_by_id_ok [OF assms(1)] by blast
  moreover obtain trs2 where "record_indexed_derived trace trs1 (by_id (tn_tablet_id (bootstrap_index_id b))) [] ivl_all = Inr trs2"
    "system_reads trs2"
    using record_by_id_ok [OF trs1(2)] by blast
  ultimately show ?thesis using True by (simp add: record_reads_for_write_def reads_then_def)
next
  case False
  obtain k where k: "and_then (index_key_new [] \<lparr>dev_table = tn_table_number (tables_id b), dev_internal_id = t\<rparr>) index_key_to_bytes = Inr k"
    using id_key_ok [of "\<lparr>dev_table = tn_table_number (tables_id b), dev_internal_id = t\<rparr>"] assms(2) by auto
  obtain trs1 where trs1: "record_indexed_derived trace trs (by_id (tn_tablet_id (tables_id b))) [] (ivl_prefix k) = Inr trs1" "system_reads trs1"
    using record_by_id_ok [OF assms(1)] by blast
  have v: "index_metadata_serialize_tablet_id encode_urlsafe t = Inr (String (encode_urlsafe t))"
    using assms(3) by (simp add: index_metadata_serialize_tablet_id_def and_then_Inr_iff)
  obtain k' where k': "values_to_bytes [Some (String (encode_urlsafe t))] = Inr k'" by (simp add: values_to_bytes_concat)
  obtain n trs2 where "index_name_new (tn_tablet_id (bootstrap_index_id b)) INDEX_BY_TABLE_ID_VIRTUAL_INDEX_DESCRIPTOR = Inr n"
    "record_indexed_derived trace trs1 n [TABLE_ID_FIELD_PATH] (ivl_prefix k') = Inr trs2" "system_reads trs2"
    using record_virtual_ok [OF trs1(2)] by blast
  then show ?thesis
    using False k trs1(1) v k' by (simp add: record_reads_for_write_def reads_then_def del: values_to_bytes.simps)
qed

text \<open>The write set with the write counted.\<close>

definition counted_write :: "bool \<Rightarrow> ResolvedDocumentId \<Rightarrow> ResolvedDocument option \<Rightarrow> Writes \<Rightarrow> Writes" where
  "counted_write is_system i new w =
     (let n = 50 + (case new of None \<Rightarrow> 0 | Some d \<Rightarrow> obj_size (dd_value (rd_document d)))
      in if is_system then w\<lparr>w_system_tx_size := count_write n (w_system_tx_size w)\<rparr>
         else w\<lparr>w_user_tx_size := count_write n (w_user_tx_size w)\<rparr>)"

lemma resolved_id_size_eq [simp]: "resolved_id_size i = 50"
  by (simp add: resolved_id_size_def tablet_id_size_def developer_id_size_def table_number_size_def internal_id_size_def
      INTERNAL_ID_MAX_SIZE_def)

lemma writes_update_eq:
  assumes "system_reads trs" "length (tablet_id i) = 16" "length (dev_internal_id (developer_id i)) = 16"
    and "length (encode_urlsafe (tablet_id i)) + 2 \<le> MAX_SIZE"
  shows "\<exists>trs'. system_reads trs' \<and> writes_update limits encode_urlsafe trace b is_system trs w i old new =
    (if old = None \<and> bt_get (w_updates w) (doc_key i) \<noteq> None then (Inl (Bail ''Duplicate insert''), w, trs')
     else case check_write_limits limits is_system (counted_write is_system i new w) of
         Inl e \<Rightarrow> (Inl e, counted_write is_system i new w, trs')
       | Inr _ \<Rightarrow> (case merged_update w i old new of
           Inl e \<Rightarrow> (Inl e, counted_write is_system i new w, trs')
         | Inr u \<Rightarrow> (Inr (), (counted_write is_system i new w)\<lparr>w_updates := bt_insert (doc_key i) u (w_updates w)\<rparr>, trs')))"
proof (cases "old = None \<and> bt_get (w_updates w) (doc_key i) \<noteq> None")
  case True
  then show ?thesis using assms(1) by (auto simp: writes_update_def)
next
  case False
  obtain trs1 where trs1: "(if old = None then register_new_id trace trs i else (Inr (), trs)) = (Inr (), trs1)" "system_reads trs1"
    using register_new_id_ok [OF assms(1,3)] assms(1) by (cases "old = None") auto
  obtain trs2 where trs2: "record_reads_for_write encode_urlsafe trace b trs1 (tablet_id i) = (Inr (), trs2)" "system_reads trs2"
    using record_reads_for_write_ok [of trs1 "tablet_id i" encode_urlsafe] trs1(2) assms(2,4) by blast
  have upd: "w_updates (counted_write is_system i new w) = w_updates w" by (simp add: counted_write_def Let_def)
  then have m: "merged_update (counted_write is_system i new w) i old new = merged_update w i old new" by (simp add: merged_update_def)
  show ?thesis
    unfolding writes_update_def if_not_P [OF False] trs1(1) prod.case sum.case trs2(1) resolved_id_size_eq Let_def
      counted_write_def [of is_system i new w, unfolded Let_def, symmetric] m upd
    using trs2(2) by (intro exI [of _ trs2]) (simp split: sum.splits)
qed

subsection \<open>The write set of a transaction\<close>

text \<open>
  What a transaction sees under an id: its own last write, or the document of its snapshot. The write
  sets that updates of visible documents lead to, with the reads and the writes so far.
\<close>

type_synonym snapshot_documents = "ResolvedDocumentId \<Rightarrow> (ResolvedDocument \<times> Timestamp) option"

definition visible :: "snapshot_documents \<Rightarrow> Writes \<Rightarrow> ResolvedDocumentId \<Rightarrow> (ResolvedDocument \<times> WriteTimestamp) option" where
  "visible B w i = (case bt_get (w_updates w) (doc_key i) of
     Some u \<Rightarrow> map_option (\<lambda>d. (d, Pending)) (du_new_document u)
   | None \<Rightarrow> map_option (\<lambda>(d, ts). (d, Committed ts)) (B i))"

inductive written ::
  "snapshot_documents \<Rightarrow> Writes \<Rightarrow> TransactionReadSet \<Rightarrow> RecordedRead list \<Rightarrow> (ResolvedDocumentId \<times> ResolvedDocument option) list \<Rightarrow> bool"
  for B where
  written_new: "recorded trs h \<Longrightarrow> written B writes_new trs h []"
| written_read: "written B w trs h ws \<Longrightarrow> recorded trs' (h @ h') \<Longrightarrow> written B w trs' (h @ h') ws"
| written_update: "written B w trs h ws
    \<Longrightarrow> writes_update limits encode_urlsafe trace b is_system trs w i (visible B w i) new = (Inr (), w', trs')
    \<Longrightarrow> written B w' trs' (h @ (if visible B w i = None then [id_range (tablet_id i) (developer_id i)] else [])
          @ table_reads encode_urlsafe b (tablet_id i)) (ws @ [(i, new)])"

lemma writes_update_Inr:
  assumes "writes_update limits encode_urlsafe trace b is_system trs w i old new = (Inr (), w', trs')"
  obtains trs1 u where
    "old = None \<Longrightarrow> bt_get (w_updates w) (doc_key i) = None"
    "(if old = None then register_new_id trace trs i else (Inr (), trs)) = (Inr (), trs1)"
    "record_reads_for_write encode_urlsafe trace b trs1 (tablet_id i) = (Inr (), trs')"
    "check_write_limits limits is_system w' = Inr ()" "merged_update w i old new = Inr u"
    "w_updates w' = bt_insert (doc_key i) u (w_updates w)"
proof -
  obtain trs1 where trs1: "(if old = None then register_new_id trace trs i else (Inr (), trs)) = (Inr (), trs1)"
    "record_reads_for_write encode_urlsafe trace b trs1 (tablet_id i) = (Inr (), trs')"
    and dup: "old = None \<Longrightarrow> bt_get (w_updates w) (doc_key i) = None"
    using assms by (auto simp: writes_update_def Let_def split: if_splits prod.splits sum.splits)
  let ?n = "resolved_id_size i + (case new of None \<Rightarrow> 0 | Some d \<Rightarrow> obj_size (dd_value (rd_document d)))"
  define w1 where "w1 = (if is_system then w\<lparr>w_system_tx_size := count_write ?n (w_system_tx_size w)\<rparr>
      else w\<lparr>w_user_tx_size := count_write ?n (w_user_tx_size w)\<rparr>)"
  have upd [simp]: "w_updates w1 = w_updates w" by (simp add: w1_def)
  have m: "merged_update w1 i old new = merged_update w i old new" by (simp add: merged_update_def)
  have lim: "check_write_limits limits is_system (w1\<lparr>w_updates := us\<rparr>) = check_write_limits limits is_system w1" for us
    by (simp add: check_write_limits_def)
  from assms dup trs1 obtain u where "check_write_limits limits is_system w1 = Inr ()" "merged_update w i old new = Inr u"
    "w' = w1\<lparr>w_updates := bt_insert (doc_key i) u (w_updates w)\<rparr>"
    unfolding writes_update_def w1_def [symmetric] Let_def m upd [symmetric]
    by (auto simp: m split: if_splits prod.splits sum.splits)
  with dup trs1 lim show thesis by (intro that [of trs1 u]) auto
qed

lemma merged_update_visible:
  assumes "merged_update w i (visible B w i) new = Inr u" "bt_get (w_updates w) (doc_key i) = Some v"
  shows "u = \<lparr>du_id = i, du_old_document = du_old_document v, du_new_document = new\<rparr>"
  using assms by (auto simp: merged_update_def split: if_splits)

lemma merged_update_first:
  assumes "merged_update w i (visible B w i) new = Inr u" "bt_get (w_updates w) (doc_key i) = None"
  shows "u = \<lparr>du_id = i, du_old_document = B i, du_new_document = new\<rparr>"
  using assms by (auto simp: merged_update_def visible_def split: option.splits)

lemma written_inv:
  assumes "written B w trs h ws"
  shows "recorded trs h \<and> bt_wf (w_updates w)
    \<and> (\<forall>k u. bt_get (w_updates w) k = Some u \<longrightarrow> k = doc_key (du_id u))
    \<and> (\<forall>i. bt_get (w_updates w) (doc_key i) =
         map_option (\<lambda>new. \<lparr>du_id = i, du_old_document = B i, du_new_document = new\<rparr>) (map_of (rev ws) i))
    \<and> (\<forall>i \<in> fst ` set ws. B i = None \<longrightarrow> id_range (tablet_id i) (developer_id i) \<in> set h)"
  using assms
proof (induction rule: written.induct)
  case (written_new trs h)
  then show ?case by (simp add: writes_new_def)
next
  case (written_read w trs h ws trs' h')
  then show ?case by auto
next
  case (written_update w trs h ws limits encode_urlsafe trace b is_system i new w' trs')
  obtain trs1 u where u: "(if visible B w i = None then register_new_id trace trs i else (Inr (), trs)) = (Inr (), trs1)"
    "record_reads_for_write encode_urlsafe trace b trs1 (tablet_id i) = (Inr (), trs')"
    "merged_update w i (visible B w i) new = Inr u" "w_updates w' = bt_insert (doc_key i) u (w_updates w)"
    by (rule writes_update_Inr [OF written_update.hyps(2)]) blast
  from written_update.IH have IH: "recorded trs h" "bt_wf (w_updates w)"
    "\<And>k u. bt_get (w_updates w) k = Some u \<Longrightarrow> k = doc_key (du_id u)"
    "\<And>i. bt_get (w_updates w) (doc_key i) =
       map_option (\<lambda>new. \<lparr>du_id = i, du_old_document = B i, du_new_document = new\<rparr>) (map_of (rev ws) i)"
    "\<And>i. i \<in> fst ` set ws \<Longrightarrow> B i = None \<Longrightarrow> id_range (tablet_id i) (developer_id i) \<in> set h"
    by auto
  have uu: "u = \<lparr>du_id = i, du_old_document = B i, du_new_document = new\<rparr>"
  proof (cases "bt_get (w_updates w) (doc_key i)")
    case None
    then show ?thesis using merged_update_first [OF u(3)] by blast
  next
    case (Some v)
    then show ?thesis using merged_update_visible [OF u(3) Some] IH(4) [of i] by auto
  qed
  let ?new = "if visible B w i = None then [id_range (tablet_id i) (developer_id i)] else []"
  have "recorded trs1 (h @ ?new)"
    using u(1) register_new_id_recorded [OF IH(1), of trace i] IH(1) by (auto split: if_splits)
  from record_reads_for_write_recorded [OF this u(2)] have "recorded trs' (h @ ?new @ table_reads encode_urlsafe b (tablet_id i))"
    by simp
  moreover have "id_range (tablet_id i) (developer_id i) \<in> set (h @ ?new)" if "B i = None"
  proof (cases "bt_get (w_updates w) (doc_key i)")
    case None
    with that show ?thesis by (simp add: visible_def)
  next
    case (Some v)
    then have "i \<in> fst ` set ws" using IH(4) [of i] by (force dest!: map_of_SomeD)
    with IH(5) that show ?thesis by auto
  qed
  ultimately show ?case
    using IH u(4) uu by (auto split: if_splits)
qed

lemma bt_wf_entries:
  assumes "bt_wf m" "\<And>k v. bt_get m k = Some v \<Longrightarrow> k = f v"
  shows "v \<in> snd ` set m \<longleftrightarrow> bt_get m (f v) = Some v"
  using assms(2) bt_get_iff [OF assms(1)] by force

subsection \<open>The limits\<close>

text \<open>
  The writes that a transaction has attempted: whether to a system table, the document, and its new
  version. An insertion of a document that the transaction has already written is turned down before
  it is counted.
\<close>

type_synonym write_attempt = "bool \<times> ResolvedDocumentId \<times> ResolvedDocument option"

fun attempt_bytes :: "write_attempt \<Rightarrow> nat" where
  "attempt_bytes (is_system, i, new) = 50 + (case new of None \<Rightarrow> 0 | Some d \<Rightarrow> obj_size (dd_value (rd_document d)))"

definition attempts_on :: "bool \<Rightarrow> write_attempt list \<Rightarrow> write_attempt list" where
  "attempts_on is_system A = filter (\<lambda>a. fst a = is_system) A"

inductive write_attempts :: "write_attempt list \<Rightarrow> TransactionReadSet \<Rightarrow> Writes \<Rightarrow> bool" where
  attempts_new: "system_reads trs \<Longrightarrow> write_attempts [] trs writes_new"
| attempts_read: "write_attempts A trs w \<Longrightarrow> system_reads trs' \<Longrightarrow> write_attempts A trs' w"
| attempts_update: "write_attempts A trs w \<Longrightarrow> length (tablet_id i) = 16 \<Longrightarrow> length (dev_internal_id (developer_id i)) = 16
    \<Longrightarrow> length (encode_urlsafe (tablet_id i)) + 2 \<le> MAX_SIZE
    \<Longrightarrow> writes_update limits encode_urlsafe trace b is_system trs w i old new = (r, w', trs')
    \<Longrightarrow> write_attempts (if old = None \<and> bt_get (w_updates w) (doc_key i) \<noteq> None then A else A @ [(is_system, i, new)]) trs' w'"

definition attempted_size :: "bool \<Rightarrow> write_attempt list \<Rightarrow> TransactionWriteSize" where
  "attempted_size is_system A = \<lparr>num_writes = length (attempts_on is_system A),
     write_size = sum_list (map attempt_bytes (attempts_on is_system A))\<rparr>"

lemma counted_write_sizes:
  assumes "w_user_tx_size w = attempted_size False A" "w_system_tx_size w = attempted_size True A"
  shows "w_user_tx_size (counted_write is_system i new w) = attempted_size False (A @ [(is_system, i, new)])"
    "w_system_tx_size (counted_write is_system i new w) = attempted_size True (A @ [(is_system, i, new)])"
    "w_updates (counted_write is_system i new w) = w_updates w"
  using assms by (cases is_system; simp add: counted_write_def count_write_def attempted_size_def attempts_on_def Let_def)+

lemma write_attempts_inv:
  assumes "write_attempts A trs w"
  shows "system_reads trs" "w_user_tx_size w = attempted_size False A" "w_system_tx_size w = attempted_size True A"
    "bt_wf (w_updates w)"
proof -
  have "system_reads trs \<and> w_user_tx_size w = attempted_size False A \<and> w_system_tx_size w = attempted_size True A
      \<and> bt_wf (w_updates w)"
    using assms
  proof (induction rule: write_attempts.induct)
    case (attempts_update A trs w i encode_urlsafe limits trace b is_system old new r w' trs')
    note sizes = counted_write_sizes [of w A is_system i new]
    from writes_update_eq [of trs i encode_urlsafe limits trace b is_system w old new] attempts_update
    show ?case using sizes by (auto split: if_splits sum.splits)
  qed (simp_all add: writes_new_def attempted_size_def attempts_on_def)
  then show "system_reads trs" "w_user_tx_size w = attempted_size False A" "w_system_tx_size w = attempted_size True A"
    "bt_wf (w_updates w)" by blast+
qed

lemma check_counted:
  assumes "w_user_tx_size w = attempted_size False A" "w_system_tx_size w = attempted_size True A"
    and "count = length (attempts_on is_system A) + 1"
    and "written_bytes = sum_list (map attempt_bytes (attempts_on is_system A)) + attempt_bytes (is_system, i, new)"
  shows "check_write_limits limits is_system (counted_write is_system i new w) =
    (if is_system then
       (if TRANSACTION_MAX_SYSTEM_NUM_WRITES limits < count
        then Inl (Bail ''Too many system document writes in a single transaction'')
        else if TRANSACTION_MAX_SYSTEM_WRITE_SIZE_BYTES limits < written_bytes
        then Inl (Bail ''Too many bytes written in system tables in a single transaction'') else Inr ())
     else if TRANSACTION_MAX_NUM_USER_WRITES limits < count then Inl (PaginationLimit ''TooManyWrites'')
     else if TRANSACTION_MAX_USER_WRITE_SIZE_BYTES limits < written_bytes then Inl (PaginationLimit ''TooManyBytesWritten'')
     else Inr ())"
  unfolding assms(3,4) check_write_limits_def counted_write_sizes [OF assms(1,2)]
  by (cases is_system) (simp_all add: attempted_size_def attempts_on_def)

fun committed_ts :: "WriteTimestamp \<Rightarrow> Timestamp" where
  "committed_ts (Committed ts) = ts"
| "committed_ts Pending = 0"

lemma merged_update_cases:
  "(\<exists>u. merged_update w i old new = Inr u) \<longleftrightarrow> (case bt_get (w_updates w) (doc_key i) of
       None \<Rightarrow> \<forall>d. old \<noteq> Some (d, Pending)
     | Some u \<Rightarrow> (old = None \<and> du_new_document u = None) \<or> (\<exists>d. old = Some (d, Pending) \<and> du_new_document u = Some d))"
  "merged_update w i old new = Inr u \<Longrightarrow> u = \<lparr>du_id = i, du_old_document = (case bt_get (w_updates w) (doc_key i) of
       None \<Rightarrow> map_option (\<lambda>(d, t). (d, committed_ts t)) old | Some u \<Rightarrow> du_old_document u), du_new_document = new\<rparr>"
  "merged_update w i old new \<noteq> Inl (Panic msg)"
  by (auto simp: merged_update_def split: option.splits if_splits WriteTimestamp.splits)

subsection \<open>Sub-transactions\<close>

text \<open>Runs of a nested write set that close every level they open.\<close>

inductive nested_run :: "'w NestedWrites \<Rightarrow> 'w NestedWrites \<Rightarrow> bool" where
  run_start: "nested_run n n"
| run_pending: "nested_run n m \<Longrightarrow> nested_run n (nested_pending f m)"
| run_commit: "nested_run n m \<Longrightarrow> begin_nested m = Inr (m1, token) \<Longrightarrow> nested_run m1 m2
    \<Longrightarrow> commit_nested m2 token = Inr m3 \<Longrightarrow> nested_run n m3"
| run_rollback: "nested_run n m \<Longrightarrow> begin_nested m = Inr (m1, token) \<Longrightarrow> nested_run m1 m2
    \<Longrightarrow> rollback_nested m2 token = Inr m3 \<Longrightarrow> nested_run n m3"

lemma nested_run_level: "nested_run n m \<Longrightarrow> nw_parent m = nw_parent n \<and> nw_token m = nw_token n"
proof (induction rule: nested_run.induct)
  case (run_commit n m m1 token m2 m3)
  then show ?case by (auto simp: begin_nested_def commit_nested_def Let_def split: if_splits option.splits)
next
  case (run_rollback n m m1 token m2 m3)
  then show ?case by (auto simp: begin_nested_def rollback_nested_def Let_def split: if_splits option.splits)
qed (simp_all add: nested_pending_def)

subsection \<open>Properties\<close>

text \<open>
  C5: the write set of a transaction is its net effect. After any successful updates of documents that
  the transaction sees, in any order and interleaved with further reads, the write set has one update
  for every written document and no other, from the document and timestamp of the snapshot to the
  last document written; the generated ids are those of the written documents that the snapshot does
  not have; and for each of them the transaction has recorded the range of the document's key in the
  index by id, so that a concurrent creation of the document is a conflict.
\<close>

theorem write_set_exact:
  assumes "written B w trs h ws"
  shows "set (coalesced_writes w) =
      {\<lparr>du_id = i, du_old_document = B i, du_new_document = new\<rparr> |i new. map_of (rev ws) i = Some new}
    \<and> distinct (map du_id (coalesced_writes w))
    \<and> set (generated_ids w) = {i \<in> fst ` set ws. B i = None}
    \<and> recorded trs h \<and> (\<forall>i \<in> set (generated_ids w). id_range (tablet_id i) (developer_id i) \<in> set h)"
proof -
  note inv = written_inv [OF assms]
  have keys: "k = doc_key (du_id u)" if "bt_get (w_updates w) k = Some u" for k u using inv that by blast
  have get: "bt_get (w_updates w) (doc_key i) =
      map_option (\<lambda>new. \<lparr>du_id = i, du_old_document = B i, du_new_document = new\<rparr>) (map_of (rev ws) i)" for i
    using inv by blast
  have wf: "bt_wf (w_updates w)" using inv by blast
  have "u \<in> set (coalesced_writes w) \<longleftrightarrow> bt_get (w_updates w) (doc_key (du_id u)) = Some u" for u
    using bt_wf_entries [of "w_updates w" "\<lambda>u. doc_key (du_id u)" u, OF wf keys] by (simp add: coalesced_writes_def)
  then have us: "set (coalesced_writes w) =
      {\<lparr>du_id = i, du_old_document = B i, du_new_document = new\<rparr> |i new. map_of (rev ws) i = Some new}"
    unfolding get by force
  have fst: "map fst (w_updates w) = map (doc_key \<circ> du_id) (coalesced_writes w)"
    using keys bt_get_iff [OF wf] by (auto simp: coalesced_writes_def)
  then have "distinct (map doc_key (map du_id (coalesced_writes w)))" using bt_wf_distinct [OF wf] by (simp add: fst)
  then have dist: "distinct (map du_id (coalesced_writes w))" by (simp only: distinct_map)
  have "i \<in> fst ` set ws \<longleftrightarrow> (\<exists>new. map_of (rev ws) i = Some new)" for i
    using map_of_eq_None_iff [of "rev ws" i] by force
  then have gen: "set (generated_ids w) = {i \<in> fst ` set ws. B i = None}"
    unfolding generated_ids_def set_map set_filter us by force
  with us dist inv show ?thesis by auto
qed

definition example_bootstrap :: BootstrapTableIds where
  "example_bootstrap = \<lparr>tables_id = \<lparr>tn_table_number = 1, tn_tablet_id = replicate 16 1\<rparr>,
     bootstrap_index_id = \<lparr>tn_table_number = 2, tn_tablet_id = replicate 16 2\<rparr>\<rparr>"

definition example_limits :: WriteLimits where
  "example_limits = \<lparr>TRANSACTION_MAX_NUM_USER_WRITES = 16000, TRANSACTION_MAX_USER_WRITE_SIZE_BYTES = 2 ^ 24,
     TRANSACTION_MAX_SYSTEM_NUM_WRITES = 40000, TRANSACTION_MAX_SYSTEM_WRITE_SIZE_BYTES = 2 ^ 27\<rparr>"

definition example_new :: ResolvedDocument where
  "example_new = \<lparr>rd_tablet_id = replicate 16 7, rd_document = \<lparr>dd_id = \<lparr>dev_table = 5, dev_internal_id = replicate 16 3\<rparr>,
     dd_creation_time = 0, dd_value = object_empty\<rparr>\<rparr>"

lemma example_write:
  "\<exists>w trs. writes_update example_limits (\<lambda>s. s) None example_bootstrap False transaction_read_set_new writes_new (rd_id example_new)
     None (Some example_new) = (Inr (), w, trs)"
  using writes_update_eq [OF system_reads_new, of "rd_id example_new" "\<lambda>s. s" example_limits None example_bootstrap False writes_new
      None "Some example_new"]
  by (auto simp: rd_id_def example_new_def example_limits_def writes_new_def MAX_SIZE_def check_write_limits_def counted_write_def
      count_write_def merged_update_def object_empty_def)

theorem write_set_exact_witness:
  "\<exists>w trs. writes_update example_limits (\<lambda>s. s) None example_bootstrap False transaction_read_set_new writes_new (rd_id example_new)
     None (Some example_new) = (Inr (), w, trs) \<and> set (generated_ids w) = {rd_id example_new}"
proof -
  obtain w trs where upd: "writes_update example_limits (\<lambda>s. s) None example_bootstrap False transaction_read_set_new writes_new
     (rd_id example_new) None (Some example_new) = (Inr (), w, trs)"
    using example_write by blast
  have vis: "visible (\<lambda>_. None) writes_new (rd_id example_new) = None" by (simp add: visible_def writes_new_def)
  from written_update [OF written_new [OF recorded_new], where B = "\<lambda>_. None" and i = "rd_id example_new", unfolded vis, OF upd]
  have "\<exists>h. written (\<lambda>_. None) w trs h [(rd_id example_new, Some example_new)]" by auto
  then obtain h where h: "written (\<lambda>_. None) w trs h [(rd_id example_new, Some example_new)]" ..
  from write_set_exact [OF h] upd show ?thesis by auto
qed



text \<open>
  C6: a sub-transaction is atomic. When a level of nested writes is begun, any writes through it and
  any sub-transactions of its own that it finished leave it so that rolling it back gives exactly the
  writes before it was begun, and committing it gives the writes it ended with at the level before;
  while it is open, the transaction as a whole cannot be finished. (Beginning one panics only
  when the level is the largest 32-bit number.)
\<close>

theorem subtransaction_atomic:
  assumes "begin_nested n = Inr (n1, token)" and "nested_run n1 m"
  shows "rollback_nested m token = Inr n
    \<and> commit_nested m token = Inr (NestedWrites (nw_parent n) (nw_pending m) (nw_token n))
    \<and> into_flat m = Inl (Bail ''Nested transaction in progress'')"
  using assms nested_run_level [OF assms(2)]
  by (auto split: if_splits simp: begin_nested_def rollback_nested_def commit_nested_def into_flat_def require_not_nested_def Let_def)

theorem subtransaction_atomic_witness:
  "rollback_nested (nested_pending Suc (fst (projr (begin_nested (nested_new (5 :: nat)))))) 1 = Inr (nested_new 5)"
  using subtransaction_atomic [of "nested_new (5 :: nat)" _ 1, OF _ run_pending [OF run_start], of _ Suc]
  by (simp add: begin_nested_def nested_new_def)

end
