(* ===== verification/Snapshot_Manager.thy ===== *)
theory Snapshot_Manager
  imports In_Memory_Indexes Write_Log Transaction_Writes
begin

text \<open>
  Snapshots of the database metadata and their versions (\<^verbatim>\<open>src/crates/database/src/snapshot_manager.rs\<close>).
  A snapshot has the index registry and the indexes in memory; its other parts are type parameters,
  and their updates are arguments in the order of the code: the table, schema and component registries
  with the table summaries, the text indexes and the vector indexes. The versions are a queue, oldest
  first, searched binarily; the length of the transaction window is an argument.
\<close>

subsection \<open>Snapshots\<close>

record ('r, 't, 'v) Snapshot =
  sn_registries :: 'r
  sn_index_registry :: IndexRegistry
  sn_in_memory_indexes :: BackendInMemoryIndexes
  sn_text_indexes :: 't
  sn_vector_indexes :: 'v

record ('r, 't, 'v) SnapshotUpdates =
  upd_registries :: "IndexRegistry \<Rightarrow> ResolvedDocumentId \<Rightarrow> ResolvedDocument option \<Rightarrow> ResolvedDocument option \<Rightarrow> 'r \<Rightarrow> error + 'r"
  upd_codec :: metadata_codec
  upd_text :: "IndexRegistry \<Rightarrow> ResolvedDocument option \<Rightarrow> ResolvedDocument option \<Rightarrow> Timestamp \<Rightarrow> 't \<Rightarrow> error + 't \<times> nat"
  upd_vector :: "IndexRegistry \<Rightarrow> ResolvedDocument option \<Rightarrow> ResolvedDocument option \<Rightarrow> Timestamp \<Rightarrow> 'v \<Rightarrow> error + 'v \<times> nat"

text \<open>The result has the index updates and the sizes of the vector and text index writes.\<close>

definition snapshot_update ::
  "('r, 't, 'v) SnapshotUpdates \<Rightarrow> ('r, 't, 'v) Snapshot \<Rightarrow> ResolvedDocumentId \<Rightarrow> ResolvedDocument option \<Rightarrow> ResolvedDocument option
    \<Rightarrow> Timestamp \<Rightarrow> error + ('r, 't, 'v) Snapshot \<times> DatabaseIndexUpdate list \<times> nat \<times> nat" where
  "snapshot_update upd s i removal insertion commit_ts =
     and_then (upd_registries upd (sn_index_registry s) i removal insertion (sn_registries s)) (\<lambda>registries.
     and_then (registry_update (upd_codec upd) (sn_index_registry s) removal insertion) (\<lambda>r.
     and_then (in_memory_update r commit_ts removal insertion (sn_in_memory_indexes s)) (\<lambda>(mem, index_updates).
     and_then (upd_text upd r removal insertion commit_ts (sn_text_indexes s)) (\<lambda>(texts, text_size).
     and_then (upd_vector upd r removal insertion commit_ts (sn_vector_indexes s)) (\<lambda>(vectors, vector_size).
       Inr (\<lparr>sn_registries = registries, sn_index_registry = r, sn_in_memory_indexes = mem, sn_text_indexes = texts,
              sn_vector_indexes = vectors\<rparr>, index_updates, vector_size, text_size))))))"

subsection \<open>The versions\<close>

record 's SnapshotManager =
  sm_persisted_max_repeatable_ts :: Timestamp
  sm_versions :: "(Timestamp \<times> 's) list"

definition snapshot_manager_new :: "Timestamp \<Rightarrow> 's \<Rightarrow> 's SnapshotManager" where
  "snapshot_manager_new initial_ts initial_snapshot =
     \<lparr>sm_persisted_max_repeatable_ts = initial_ts, sm_versions = [(initial_ts, initial_snapshot)]\<rparr>"

definition sm_latest :: "'s SnapshotManager \<Rightarrow> error + Timestamp \<times> 's" where
  "sm_latest m = (if sm_versions m = [] then Inl (Panic ''snapshot versions empty'') else Inr (last (sm_versions m)))"

definition sm_latest_snapshot :: "'s SnapshotManager \<Rightarrow> error + 's" where
  "sm_latest_snapshot m = and_then (sm_latest m) (\<lambda>(_, s). Inr s)"

definition sm_earliest_ts :: "'s SnapshotManager \<Rightarrow> error + Timestamp" where
  "sm_earliest_ts m = (case sm_versions m of [] \<Rightarrow> Inl (Panic ''snapshot versions empty'') | (ts, _) # _ \<Rightarrow> Inr ts)"

definition sm_latest_ts :: "'s SnapshotManager \<Rightarrow> error + Timestamp" where
  "sm_latest_ts m = (if sm_versions m = [] then Inl (Panic ''snapshot versions empty'') else Inr (fst (last (sm_versions m))))"

definition persisted_max_repeatable_ts :: "'s SnapshotManager \<Rightarrow> error + RepeatableTimestamp" where
  "persisted_max_repeatable_ts m = and_then (sm_latest_ts m) (\<lambda>ts.
     case prior_ts (RepeatableTimestamp ts) (sm_persisted_max_repeatable_ts m) of
       Inl _ \<Rightarrow> Inl (Panic ''persisted_max_repeatable_ts is always bumped after latest_ts and both are monotonic'')
     | Inr r \<Rightarrow> Inr r)"

definition sm_snapshot :: "'s SnapshotManager \<Rightarrow> Timestamp \<Rightarrow> error + 's" where
  "sm_snapshot m ts = and_then (sm_earliest_ts m) (\<lambda>earliest.
     if ts < earliest then Inl OutOfRetention
     else and_then (sm_latest_ts m) (\<lambda>latest.
       if \<not> ts \<le> latest then Inl (Bail ''Timestamp is more recent than latest_ts'')
       else case binary_search (map fst (sm_versions m)) ts 0 (length (sm_versions m)) of
           Inl i \<Rightarrow> Inr (snd (sm_versions m ! i))
         | Inr i \<Rightarrow> if i = 0 then Inl (Panic ''called `Option::unwrap()` on a `None` value'')
                    else Inr (snd (sm_versions m ! (i - 1)))))"

text \<open>Dropping the versions whose successor has left the window.\<close>

fun drop_versions :: "Duration \<Rightarrow> Timestamp \<Rightarrow> (Timestamp \<times> 's) list \<Rightarrow> (Timestamp \<times> 's) list" where
  "drop_versions window ts (v # (successor_ts, s) # vs) =
     (if unat (ts - successor_ts) > window then drop_versions window ts ((successor_ts, s) # vs) else v # (successor_ts, s) # vs)"
| "drop_versions window ts vs = vs"

definition sm_push :: "Duration \<Rightarrow> 's SnapshotManager \<Rightarrow> Timestamp \<Rightarrow> 's \<Rightarrow> error + 's SnapshotManager" where
  "sm_push window m ts snapshot = and_then (sm_latest_ts m) (\<lambda>latest.
     if latest < ts then Inr (m\<lparr>sm_versions := drop_versions window ts (sm_versions m) @ [(ts, snapshot)]\<rparr>)
     else Inl (Panic ''assertion failed: *self.latest_ts() < ts''))"

definition bump_persisted_max_repeatable_ts ::
  "Duration \<Rightarrow> 's SnapshotManager \<Rightarrow> Timestamp \<Rightarrow> error + 's SnapshotManager \<times> bool" where
  "bump_persisted_max_repeatable_ts window m ts =
     (if ts < sm_persisted_max_repeatable_ts m then Inl (Bail ''persisted_max_repeatable_ts went backward'')
      else let m1 = m\<lparr>sm_persisted_max_repeatable_ts := ts\<rparr>
           in and_then (sm_latest m1) (\<lambda>(latest_ts, snapshot).
                if ts > latest_ts then and_then (sm_push window m1 ts snapshot) (\<lambda>m2. Inr (m2, True))
                else Inr (m1, False)))"

text \<open>
  Replacing a part of the latest snapshot that was loaded in the background. The pending snapshots
  are computed again from the packed updates, by an argument as in \<^verbatim>\<open>Write_Log\<close>.
\<close>

definition overwrite_last_snapshot ::
  "('s \<Rightarrow> PackedDocumentUpdate \<Rightarrow> Timestamp \<Rightarrow> error + 's) \<Rightarrow> ('s \<Rightarrow> error + 's) \<Rightarrow> 's SnapshotManager \<Rightarrow> 's PendingWrites
    \<Rightarrow> error + 's SnapshotManager \<times> 's PendingWrites" where
  "overwrite_last_snapshot recompute change m p =
     (if sm_versions m = [] then Inl (Panic ''snapshot versions empty'')
      else and_then (change (snd (last (sm_versions m)))) (\<lambda>s.
        and_then (recompute_pending_snapshots recompute p s) (\<lambda>p'.
          Inr (m\<lparr>sm_versions := butlast (sm_versions m) @ [(fst (last (sm_versions m)), s)]\<rparr>, p'))))"

definition overwrite_last_snapshot_text_and_vector_indexes where
  "overwrite_last_snapshot_text_and_vector_indexes recompute texts vectors =
     overwrite_last_snapshot recompute (\<lambda>s. Inr (s\<lparr>sn_text_indexes := texts, sn_vector_indexes := vectors\<rparr>))"

definition overwrite_last_snapshot_table_summary where
  "overwrite_last_snapshot_table_summary recompute set_summary =
     overwrite_last_snapshot recompute (\<lambda>s. and_then (set_summary (sn_registries s)) (\<lambda>r. Inr (s\<lparr>sn_registries := r\<rparr>)))"

definition overwrite_last_snapshot_in_memory_indexes where
  "overwrite_last_snapshot_in_memory_indexes recompute mem =
     overwrite_last_snapshot recompute (\<lambda>s. Inr (s\<lparr>sn_in_memory_indexes := mem\<rparr>))"

subsection \<open>Searching the versions\<close>

lemma binary_search_exact:
  assumes "sorted_wrt (<) ks" "lo \<le> hi" "hi \<le> length ks"
    and "\<And>j. j < lo \<Longrightarrow> ks ! j < k" "\<And>j. hi \<le> j \<Longrightarrow> j < length ks \<Longrightarrow> k < ks ! j"
  shows "case binary_search ks k lo hi of
      Inl i \<Rightarrow> i < length ks \<and> ks ! i = k
    | Inr i \<Rightarrow> i \<le> length ks \<and> (\<forall>j < i. ks ! j < k) \<and> (\<forall>j. i \<le> j \<longrightarrow> j < length ks \<longrightarrow> k < ks ! j)"
  using assms
proof (induction ks k lo hi rule: binary_search.induct)
  case (1 ks k lo hi)
  define mid where "mid = lo + (hi - lo) div 2"
  have mono: "ks ! i < ks ! j" if "i < j" "j < length ks" for i j
    using "1.prems"(1) that by (simp add: sorted_wrt_iff_nth_less)
  show ?case
  proof (cases "lo < hi")
    case False
    with "1.prems" show ?thesis by (subst binary_search.simps) auto
  next
    case True
    then have mid: "mid < hi" "lo \<le> mid" "mid < length ks" using "1.prems"(3) by (auto simp: mid_def)
    have step: "binary_search ks k lo hi = (if ks ! mid = k then Inl mid
        else if ks ! mid < k then binary_search ks k (mid + 1) hi else binary_search ks k lo mid)"
      using True by (subst binary_search.simps) (simp add: mid_def [symmetric] Let_def)
    consider (eq) "ks ! mid = k" | (less) "ks ! mid < k" | (greater) "k < ks ! mid" by fastforce
    then show ?thesis
    proof cases
      case eq
      then show ?thesis using mid by (simp add: step)
    next
      case less
      have "ks ! j < k" if "j < mid + 1" for j
        using mono [of j mid] that less mid by (cases "j = mid") auto
      then show ?thesis using "1.IH"(1) [OF True mid_def] less mid "1.prems" step by auto
    next
      case greater
      have "k < ks ! j" if "mid \<le> j" "j < length ks" for j
        using mono [of mid j] that greater by (cases "j = mid") auto
      moreover have ne: "ks ! mid \<noteq> k" "\<not> ks ! mid < k" using greater by auto
      ultimately show ?thesis using "1.IH"(2) [OF True mid_def ne] mid "1.prems" by (simp add: step ne)
    qed
  qed
qed

text \<open>The version in force at a timestamp.\<close>

definition in_force :: "(Timestamp \<times> 's) list \<Rightarrow> Timestamp \<Rightarrow> 's" where
  "in_force vs ts = snd (last (filter (\<lambda>v. fst v \<le> ts) vs))"

lemma filter_take:
  assumes "i \<le> length vs" "\<And>j. j < i \<Longrightarrow> P (vs ! j)" "\<And>j. i \<le> j \<Longrightarrow> j < length vs \<Longrightarrow> \<not> P (vs ! j)"
  shows "filter P vs = take i vs"
proof -
  have "filter P (take i vs) = take i vs" "filter P (drop i vs) = []"
    using assms by (auto simp: filter_id_conv filter_empty_conv in_set_conv_nth)
  then show ?thesis by (metis append_Nil2 append_take_drop_id filter_append)
qed

lemma sm_snapshot_eq:
  assumes wf: "bt_wf (sm_versions m)" and ne: "sm_versions m \<noteq> []"
  shows "sm_snapshot m ts = (if ts < fst (hd (sm_versions m)) then Inl OutOfRetention
    else if ts > fst (last (sm_versions m)) then Inl (Bail ''Timestamp is more recent than latest_ts'')
    else Inr (in_force (sm_versions m) ts))"
proof -
  let ?vs = "sm_versions m"
  let ?ks = "map fst ?vs"
  have e: "sm_earliest_ts m = Inr (fst (hd ?vs))" using ne by (auto simp: sm_earliest_ts_def neq_Nil_conv)
  have sorted: "sorted_wrt (<) ?ks" using wf by (simp add: bt_wf_def)
  have mono: "fst (?vs ! i) < fst (?vs ! j)" if "i < j" "j < length ?vs" for i j
    using sorted_wrt_nth_less [OF sorted, of i j] that by simp
  have first: "fst (hd ?vs) = fst (?vs ! 0)" using ne by (simp add: hd_conv_nth)
  show ?thesis
  proof (cases "binary_search ?ks ts 0 (length ?vs)")
    case (Inl i)
    with binary_search_exact [OF sorted, of 0 "length ?vs" ts] have i: "i < length ?vs" "fst (?vs ! i) = ts" by auto
    have "filter (\<lambda>v. fst v \<le> ts) ?vs = take (Suc i) ?vs"
    proof (rule filter_take)
      show "Suc i \<le> length ?vs" using i by simp
      show "fst (?vs ! j) \<le> ts" if "j < Suc i" for j
        using mono [of j i] that i by (cases "j = i") (auto intro: less_imp_le)
      show "\<not> fst (?vs ! j) \<le> ts" if "Suc i \<le> j" "j < length ?vs" for j
        using mono [of i j] that i by auto
    qed
    then have "in_force ?vs ts = snd (?vs ! i)" using i(1) by (simp add: in_force_def take_Suc_conv_app_nth)
    then show ?thesis using Inl ne by (simp add: sm_snapshot_def e sm_latest_ts_def not_le)
  next
    case (Inr i)
    with binary_search_exact [OF sorted, of 0 "length ?vs" ts] have i: "i \<le> length ?vs" "\<And>j. j < i \<Longrightarrow> fst (?vs ! j) < ts"
      "\<And>j. i \<le> j \<Longrightarrow> j < length ?vs \<Longrightarrow> ts < fst (?vs ! j)" by auto
    have "i \<noteq> 0" if "\<not> ts < fst (hd ?vs)" using that i(3) [of 0] ne first by (cases i) auto
    moreover have "filter (\<lambda>v. fst v \<le> ts) ?vs = take i ?vs"
      using i by (intro filter_take) (auto intro: less_imp_le simp: not_le)
    then have "in_force ?vs ts = snd (?vs ! (i - 1))" if "i \<noteq> 0"
      using that i(1) ne by (simp add: in_force_def last_conv_nth min_def)
    ultimately show ?thesis
      using Inr ne by (cases "i = 0") (auto simp: sm_snapshot_def e sm_latest_ts_def not_le)
  qed
qed

subsection \<open>Histories of versions\<close>

text \<open>
  The managers that pushing, bumping and overwriting lead to, with all versions that there were.
\<close>

inductive version_run :: "Duration \<Rightarrow> Timestamp \<Rightarrow> 's SnapshotManager \<Rightarrow> (Timestamp \<times> 's) list \<Rightarrow> bool"
  for window initial where
  version_new: "version_run window initial (snapshot_manager_new initial s) [(initial, s)]"
| version_push: "version_run window initial m V \<Longrightarrow> sm_push window m ts s = Inr m' \<Longrightarrow> version_run window initial m' (V @ [(ts, s)])"
| version_bump: "version_run window initial m V \<Longrightarrow> bump_persisted_max_repeatable_ts window m ts = Inr (m', pushed)
    \<Longrightarrow> version_run window initial m' (if pushed then V @ [(ts, snd (last V))] else V)"
| version_overwrite: "version_run window initial m V \<Longrightarrow> overwrite_last_snapshot recompute change m p = Inr (m', p')
    \<Longrightarrow> version_run window initial m' (butlast V @ [(fst (last V), snd (last (sm_versions m')))])"

definition versions_inv :: "Duration \<Rightarrow> Timestamp \<Rightarrow> 's SnapshotManager \<Rightarrow> (Timestamp \<times> 's) list \<Rightarrow> bool" where
  "versions_inv window initial m V \<longleftrightarrow> bt_wf V \<and> sm_versions m \<noteq> [] \<and> fst (hd V) = initial
     \<and> sm_persisted_max_repeatable_ts m \<le> fst (last V)
     \<and> (\<exists>dropped. V = dropped @ sm_versions m
          \<and> (dropped \<noteq> [] \<longrightarrow> unat (fst (hd (sm_versions m))) + window < unat (fst (last V))))"

lemma versions_invI:
  assumes "bt_wf V" "sm_versions m \<noteq> []" "fst (hd V) = initial" "sm_persisted_max_repeatable_ts m \<le> fst (last V)"
    and "V = dropped @ sm_versions m" "dropped \<noteq> [] \<longrightarrow> unat (fst (hd (sm_versions m))) + window < unat (fst (last V))"
  shows "versions_inv window initial m V"
  using assms unfolding versions_inv_def by blast

lemma versions_invD:
  assumes "versions_inv window initial m V"
  shows "bt_wf V" "sm_versions m \<noteq> []" "V \<noteq> []" "last V = last (sm_versions m)" "sm_latest_ts m = Inr (fst (last V))"
    "sm_latest m = Inr (last V)" "bt_wf (sm_versions m)"
  using assms by (auto simp: versions_inv_def sm_latest_ts_def sm_latest_def bt_wf_append)

lemma drop_versions_correct:
  assumes "bt_wf vs" "vs \<noteq> []" "fst (last vs) < ts"
  shows "\<exists>dropped. vs = dropped @ drop_versions window ts vs \<and> drop_versions window ts vs \<noteq> []
    \<and> (dropped \<noteq> [] \<longrightarrow> unat (fst (hd (drop_versions window ts vs))) + window < unat ts)"
  using assms
proof (induction window ts vs rule: drop_versions.induct)
  case (1 window ts v t s vs)
  have "t < ts" using "1.prems" last_le [of "(t, s) # vs" "(t, s)"] by (auto simp: bt_wf_Cons split: if_splits)
  then have diff: "unat (ts - t) = unat ts - unat t" "unat t < unat ts"
    by (simp_all add: unat_sub word_le_nat_alt word_less_nat_alt)
  show ?case
  proof (cases "unat (ts - t) > window")
    case True
    obtain dropped where d: "(t, s) # vs = dropped @ drop_versions window ts ((t, s) # vs)"
      "drop_versions window ts ((t, s) # vs) \<noteq> []"
      "dropped \<noteq> [] \<longrightarrow> unat (fst (hd (drop_versions window ts ((t, s) # vs)))) + window < unat ts"
      using "1.IH" [OF True] "1.prems" by (auto simp: bt_wf_Cons)
    have "unat (fst (hd (drop_versions window ts ((t, s) # vs)))) + window < unat ts"
    proof (cases "dropped = []")
      case True
      then have "drop_versions window ts ((t, s) # vs) = (t, s) # vs" using d(1) by simp
      then show ?thesis using \<open>unat (ts - t) > window\<close> diff by simp
    qed (use d(3) in blast)
    with True d(1,2) show ?thesis by (intro exI [of _ "v # dropped"]) simp
  qed (intro exI [of _ "[]"], simp)
qed auto

lemma push_inv:
  assumes inv: "versions_inv window initial m V" and push: "sm_push window m ts s = Inr m'"
  shows "versions_inv window initial m' (V @ [(ts, s)])" "fst (last V) < ts"
proof -
  note D = versions_invD [OF inv]
  from push D(5) show ts: "fst (last V) < ts" by (auto simp: sm_push_def split: if_splits)
  then have m': "m' = m\<lparr>sm_versions := drop_versions window ts (sm_versions m) @ [(ts, s)]\<rparr>"
    using push D(5) by (simp add: sm_push_def)
  obtain dropped where d: "V = dropped @ sm_versions m"
    "dropped \<noteq> [] \<longrightarrow> unat (fst (hd (sm_versions m))) + window < unat (fst (last V))"
    using inv by (auto simp: versions_inv_def)
  obtain more where more: "sm_versions m = more @ drop_versions window ts (sm_versions m)" "drop_versions window ts (sm_versions m) \<noteq> []"
    "more \<noteq> [] \<longrightarrow> unat (fst (hd (drop_versions window ts (sm_versions m)))) + window < unat ts"
    using drop_versions_correct [OF D(7,2)] ts D(4) by metis
  have "unat (fst (hd (drop_versions window ts (sm_versions m)))) + window < unat ts" if "dropped @ more \<noteq> []"
  proof (cases "more = []")
    case True
    then have "drop_versions window ts (sm_versions m) = sm_versions m" using more(1) by simp
    moreover have "unat (fst (last V)) < unat ts" using ts by (simp add: word_less_nat_alt)
    ultimately show ?thesis using True that d(2) by simp
  qed (use more(3) in blast)
  moreover have "V @ [(ts, s)] = (dropped @ more) @ sm_versions m'" using d(1) more(1) by (simp add: m')
  moreover have "bt_wf (V @ [(ts, s)])" using D(1) ts by (simp add: bt_wf_snoc)
  moreover have "hd (sm_versions m') = hd (drop_versions window ts (sm_versions m))" using more(2) by (simp add: m')
  moreover have "sm_persisted_max_repeatable_ts m' \<le> ts" using inv ts by (auto simp: m' versions_inv_def)
  moreover have "fst (hd (V @ [(ts, s)])) = initial" using inv D(3) by (simp add: versions_inv_def)
  ultimately show "versions_inv window initial m' (V @ [(ts, s)])"
    by (intro versions_invI [where dropped = "dropped @ more"]) (simp_all add: m')
qed

lemma bump_inv:
  assumes inv: "versions_inv window initial m V" and bump: "bump_persisted_max_repeatable_ts window m ts = Inr (m', pushed)"
  shows "versions_inv window initial m' (if pushed then V @ [(ts, snd (last V))] else V)" "pushed \<longleftrightarrow> fst (last V) < ts"
    "sm_persisted_max_repeatable_ts m' = ts"
proof -
  let ?m1 = "m\<lparr>sm_persisted_max_repeatable_ts := ts\<rparr>"
  note D = versions_invD [OF inv]
  have latest: "sm_latest ?m1 = Inr (last V)" using D(2,4) by (simp add: sm_latest_def)
  obtain t x where last: "last V = (t, x)" by (cases "last V")
  from bump have pushed: "pushed \<longleftrightarrow> fst (last V) < ts"
    and cases: "if pushed then sm_push window ?m1 ts (snd (last V)) = Inr m' else m' = ?m1"
    unfolding bump_persisted_max_repeatable_ts_def Let_def latest last
    by (auto simp: and_then_Inr_iff split: if_splits)
  show "pushed \<longleftrightarrow> fst (last V) < ts" by (rule pushed)
  show "versions_inv window initial m' (if pushed then V @ [(ts, snd (last V))] else V)"
  proof (cases pushed)
    case True
    have "sm_push window m ts (snd (last V)) = Inr (m'\<lparr>sm_persisted_max_repeatable_ts := sm_persisted_max_repeatable_ts m\<rparr>)"
      using cases True by (auto simp: sm_push_def sm_latest_ts_def split: if_splits)
    from push_inv [OF inv this] True cases show ?thesis
      by (auto simp: versions_inv_def sm_push_def sm_latest_ts_def split: if_splits)
  next
    case False
    with pushed cases inv show ?thesis by (simp add: versions_inv_def not_less)
  qed
  show "sm_persisted_max_repeatable_ts m' = ts"
    using cases by (auto simp: sm_push_def sm_latest_ts_def split: if_splits)
qed

lemma map_fst_replace_last: "vs \<noteq> [] \<Longrightarrow> map fst (butlast vs @ [(fst (last vs), s)]) = map fst vs"
  by (cases vs rule: rev_cases) auto

lemma hd_map_fst_eq: "map fst (xs :: ('a \<times> 'b) list) = map fst (ys :: ('a \<times> 'b) list) \<Longrightarrow> fst (hd xs) = fst (hd ys)"
  by (cases xs; cases ys) auto

lemma overwrite_inv:
  assumes inv: "versions_inv window initial m V" and over: "overwrite_last_snapshot recompute change m p = Inr (m', p')"
  shows "versions_inv window initial m' (butlast V @ [(fst (last V), snd (last (sm_versions m')))])"
proof -
  note D = versions_invD [OF inv]
  obtain s where m': "m' = m\<lparr>sm_versions := butlast (sm_versions m) @ [(fst (last (sm_versions m)), s)]\<rparr>"
    using over by (auto simp: overwrite_last_snapshot_def and_then_Inr_iff split: if_splits)
  let ?W = "butlast V @ [(fst (last V), s)]"
  obtain dropped where d: "V = dropped @ sm_versions m"
    "dropped \<noteq> [] \<longrightarrow> unat (fst (hd (sm_versions m))) + window < unat (fst (last V))"
    using inv by (auto simp: versions_inv_def)
  have W: "?W = dropped @ sm_versions m'" using d(1) D(2,4) by (simp add: m' butlast_append)
  have keys: "map fst ?W = map fst V"
    using D(3) by (rule map_fst_replace_last)
  have keys': "map fst (sm_versions m') = map fst (sm_versions m)"
    using map_fst_replace_last [OF D(2)] by (simp add: m')
  have heads: "fst (hd ?W) = fst (hd V)" "fst (hd (sm_versions m')) = fst (hd (sm_versions m))"
    by (rule hd_map_fst_eq [OF keys], rule hd_map_fst_eq [OF keys'])
  have "bt_wf ?W" using D(1) keys by (simp add: bt_wf_def)
  then have "versions_inv window initial m' ?W"
    using W heads d(2) inv by (intro versions_invI [where dropped = dropped]) (auto simp: m' versions_inv_def)
  then show ?thesis by (simp add: m')
qed

lemma version_run_inv: "version_run window initial m V \<Longrightarrow> versions_inv window initial m V"
proof (induction rule: version_run.induct)
  case (version_new s)
  then show ?case by (simp add: versions_inv_def snapshot_manager_new_def bt_wf_Cons)
next
  case (version_push m V ts s m')
  show ?case by (rule push_inv(1) [OF version_push.IH version_push.hyps(2)])
next
  case (version_bump m V ts m' pushed)
  show ?case by (rule bump_inv(1) [OF version_bump.IH version_bump.hyps(2)])
next
  case (version_overwrite m V recompute change p m' p')
  show ?case by (rule overwrite_inv [OF version_overwrite.IH version_overwrite.hyps(2)])
qed

lemma in_force_suffix:
  assumes "vs \<noteq> []" "fst (hd vs) \<le> ts"
  shows "in_force (dropped @ vs) ts = in_force vs ts"
proof -
  have "filter (\<lambda>v. fst v \<le> ts) vs \<noteq> []" using assms by (cases vs) auto
  then show ?thesis by (simp add: in_force_def)
qed

subsection \<open>Properties\<close>

text \<open>
  C4: a read at a timestamp gets the version in force at it. After any sequence of pushed versions,
  bumps of the repeatable timestamp and replacements of the latest snapshot, asking for the snapshot
  at a timestamp never panics; a timestamp after the latest version is an error; any other one gives
  the last version at or before it among all versions there ever were, or is out of retention; and
  it is not out of retention when it is at or after the first version and at most the transaction
  window before the latest version.
  The persisted repeatable timestamp is always one that may be read.
\<close>

theorem snapshot_reads_exact:
  assumes "version_run window initial m V"
  shows "(fst (last V) < ts \<longrightarrow> initial \<le> ts \<longrightarrow> sm_snapshot m ts = Inl (Bail ''Timestamp is more recent than latest_ts''))
    \<and> (ts \<le> fst (last V) \<longrightarrow> sm_snapshot m ts \<in> {Inl OutOfRetention, Inr (in_force V ts)})
    \<and> (initial \<le> ts \<and> ts \<le> fst (last V) \<and> unat (fst (last V)) \<le> unat ts + window \<longrightarrow> sm_snapshot m ts = Inr (in_force V ts))
    \<and> (\<exists>r. persisted_max_repeatable_ts m = Inr r \<and> repeatable_ts r \<le> fst (last V))"
proof -
  have inv: "versions_inv window initial m V" by (rule version_run_inv [OF assms])
  note D = versions_invD [OF inv]
  obtain dropped where d: "V = dropped @ sm_versions m"
    "dropped \<noteq> [] \<longrightarrow> unat (fst (hd (sm_versions m))) + window < unat (fst (last V))"
    using inv by (auto simp: versions_inv_def)
  note eq = sm_snapshot_eq [OF D(7,2), folded D(4)]
  have force: "in_force (sm_versions m) ts = in_force V ts" if "\<not> ts < fst (hd (sm_versions m))"
    unfolding d(1) using in_force_suffix [OF D(2)] that by (simp add: not_less)
  have "hd (sm_versions m) \<in> set V" using D(2) d(1) by simp
  then have head: "fst (hd (sm_versions m)) \<le> fst (last V)" using last_le [OF D(1)] by blast
  have "\<not> ts < fst (hd (sm_versions m))" if "initial \<le> ts" "unat (fst (last V)) \<le> unat ts + window"
  proof (cases "dropped = []")
    case True
    then show ?thesis using that(1) d(1) inv by (simp add: versions_inv_def not_less)
  next
    case False
    then show ?thesis using that(2) d(2) by (simp add: word_less_nat_alt)
  qed
  moreover have "\<exists>r. persisted_max_repeatable_ts m = Inr r \<and> repeatable_ts r \<le> fst (last V)"
    using inv D(5) by (simp add: persisted_max_repeatable_ts_def prior_ts_def versions_inv_def)
  ultimately show ?thesis using eq force head by (auto simp: not_less)
qed

theorem snapshot_reads_exact_witness:
  "\<exists>m. sm_push 10 (snapshot_manager_new 5 ''a'') 12 ''b'' = Inr m \<and> sm_snapshot m 7 = Inr ''a'' \<and> sm_snapshot m 12 = Inr ''b''"
proof -
  obtain m where push: "sm_push 10 (snapshot_manager_new 5 ''a'') 12 ''b'' = Inr m"
    by (auto simp: sm_push_def sm_latest_ts_def snapshot_manager_new_def)
  have "version_run 10 5 m ([(5, ''a'')] @ [(12, ''b'')])" by (rule version_push [OF version_new push])
  from snapshot_reads_exact [OF this, of 7] snapshot_reads_exact [OF this, of 12] push show ?thesis
    by (simp add: in_force_def)
qed

end
