(* ===== verification/Spec2Isabelle.thy ===== *)
theory Spec2Isabelle
  imports Interval_Set Registry_View Packed_Value Write_Log Search_Subscriptions Snapshot_Cache Snapshot_Manager
begin

text \<open>
  A verification library for the transaction core of the Convex backend (\<^verbatim>\<open>src/crates\<close>).

  \<^bold>\<open>The program.\<close> Convex is a reactive database. A transaction reads at a timestamp from a snapshot,
  records what it read as ranges of index keys, collects its writes, and is committed if no commit
  since its timestamp wrote into those ranges. The same test drives subscriptions: a query result
  is kept until a commit overlaps what it read. Correctness therefore rests on a chain: values have
  an order (\<^verbatim>\<open>value\<close>), documents have index keys whose bytes have this order (\<^verbatim>\<open>common\<close>), reads are
  intervals of such bytes (\<^verbatim>\<open>common/src/interval\<close>), the index registry says which keys a document
  has (\<^verbatim>\<open>indexing\<close>), and the write log tests the keys of commits against the reads (\<^verbatim>\<open>database\<close>).
  The theories follow this chain from the bottom up.

  \<^bold>\<open>Conventions.\<close> \<^verbatim>\<open>Convex_Prelude\<close> has the shared vocabulary. Bytes are 8-bit words and byte strings
  are lists of them. A fallible function returns \<open>error + 'a\<close>; a panic of the source (an \<^verbatim>\<open>unwrap\<close>, an
  \<^verbatim>\<open>assert\<close>, an index out of range, a checked overflow) is the error \<open>Panic\<close>, so that the absence of panics is a theorem
  and not an assumption. A function that fails after it has changed its state returns both. A
  \<^verbatim>\<open>BTreeMap\<close> is its sorted list of entries (the locale \<open>ordered_map\<close> has the laws, \<open>bt\<close> is its
  interpretation); a persistent map of the crate \<^verbatim>\<open>imbl\<close> is the same. Machine integers are words
  where they can wrap around (timestamps, checksums, integers in sort keys). Documented code
  outside the repository is an argument: SHA-256, FlexBuffers, the tokenizer of text search, the printing and
  parsing of internal ids, the heap size of an object, the clock. Values of knobs are records of
  arguments, so that the theorems hold for every setting.

  \<^bold>\<open>Intervals of keys.\<close> \<^verbatim>\<open>Interval_Keys\<close> (\<^verbatim>\<open>interval/key.rs\<close>, \<^verbatim>\<open>bounds.rs\<close>, \<^verbatim>\<open>mod.rs\<close>): keys, half-open
  intervals and their bounds; prefix intervals, emptiness, inclusion and disjointness decided by
  comparing bounds, and splitting at a cursor, each proved against the set of keys of an interval.
  \<^verbatim>\<open>Interval_Set\<close> (\<^verbatim>\<open>interval_set.rs\<close>): disjoint, non-adjacent intervals in a map; adding with merging,
  membership, subtraction, splitting into components inside and outside, and the protobuf form. The
  locale \<open>key_set\<close> is the contract that the read sets and the cache of a snapshot use.

  \<^bold>\<open>Values and their order.\<close> \<^verbatim>\<open>Field_Names\<close> (\<^verbatim>\<open>identifier.rs\<close>, \<^verbatim>\<open>field_name.rs\<close>, \<^verbatim>\<open>field_path.rs\<close>): which
  names are valid, and field paths with parsing and printing. \<^verbatim>\<open>Convex_Value\<close> (\<^verbatim>\<open>lib.rs\<close>, \<^verbatim>\<open>array.rs\<close>,
  \<^verbatim>\<open>object.rs\<close>, \<^verbatim>\<open>size.rs\<close>): values, whose constructors keep size and nesting beside the contents and
  check the limits; the invariant \<open>wf_value\<close> says the kept numbers are right. \<^verbatim>\<open>Sort_Key\<close> (\<^verbatim>\<open>sorting.rs\<close>):
  the encoding into bytes and the direct comparison. \<^verbatim>\<open>Sort_Key_Order\<close>: both give the same order, by
  the contract \<open>order_code\<close> (comparing two encodings followed by anything), its extension
  \<open>tagged_code\<close>, and interpretations for byte strings, values and optional values.
  \<^verbatim>\<open>Sort_Key_Decode\<close>: the decoder inverts the encoder. It reads through a \<open>BytePeeker\<close>, which may hold one
  byte taken from the reader; that byte is lost when the peeker is dropped, and the theorem says when.
  The decoder is compared with a reader of flat lists. Its recursion has a bound, twice the length of
  the input and one more; every value read consumes a byte, and the answer is proved to be
  independent of the bound from there on. Floating point numbers are their 64 bits, ordered as
  \<^verbatim>\<open>f64::total_cmp\<close> orders them.

  \<^bold>\<open>Ids, timestamps, names and keys.\<close> \<^verbatim>\<open>Base32\<close> and \<^verbatim>\<open>Document_Id\<close> (\<^verbatim>\<open>base32.rs\<close>, \<^verbatim>\<open>id_v6.rs\<close>): the string form
  of document ids, with variable-length integers and the checksum; strings and ids are one to one.
  \<^verbatim>\<open>Timestamps\<close> (\<^verbatim>\<open>timestamp.rs\<close>): 64-bit timestamps and their checked arithmetic. \<^verbatim>\<open>Index_Names\<close>
  (\<^verbatim>\<open>types/index.rs\<close>): index names and their order. \<^verbatim>\<open>Document_Keys\<close> (\<^verbatim>\<open>document.rs\<close>, \<^verbatim>\<open>index.rs\<close>):
  documents, their index keys and the bytes of those, from the unpacked document and from the
  contents of the packed one (\<open>PackedDocument\<close>, with which all later theories work). \<^verbatim>\<open>Packed_Value\<close>
  (\<^verbatim>\<open>packed_value/src/lib.rs\<close>, \<^verbatim>\<open>walk.rs\<close>): packing into a buffer, lazy opening, paths, unpacking, and the
  index key written from opened values; all of it agrees with the contents, for every builder and
  reader of FlexBuffers such that the reader shows what the builder was given.

  \<^bold>\<open>Reads.\<close> \<^verbatim>\<open>Search_Reads\<close> and \<^verbatim>\<open>Search_Subscriptions\<close> (\<^verbatim>\<open>search/src/query.rs\<close>): what a text search has read,
  the tries that match its terms, and the table of subscribed searches. \<^verbatim>\<open>Reads\<close> (\<^verbatim>\<open>database/src/reads.rs\<close>):
  recording, limits, merging and the overlap tests. The relation \<open>recorded\<close> is the history of a
  read set, and \<open>represents\<close> says what the read set keeps of it.

  \<^bold>\<open>Indexes.\<close> \<^verbatim>\<open>Index_Config\<close> and \<^verbatim>\<open>Index_Serde\<close> (\<^verbatim>\<open>bootstrap_model/index\<close>): the metadata of database, text
  and vector indexes, and its conversion to and from the serialized structs, composed from the locale
  \<open>codec\<close> (the step from these structs to documents is generated by serde and not covered). \<^verbatim>\<open>Index_Registry\<close>
  (\<^verbatim>\<open>index_registry.rs\<close>): the registry and its operations. \<^verbatim>\<open>Registry_View\<close>: the registry refines the set
  of documents of the index table (\<open>registry_of\<close>), and the keys it computes for a document are as
  good as the document for the overlap test. \<^verbatim>\<open>In_Memory_Indexes\<close> (\<^verbatim>\<open>backend_in_memory_indexes.rs\<close>): the
  indexes kept in memory follow the writes. \<^verbatim>\<open>Snapshot_Cache\<close> (the same file): the cache of what a
  transaction has read and the batched range queries; \<open>cache_view\<close> and \<open>snapshot_view\<close> say that cache
  and memory present the documents, and the queries keep them.

  \<^bold>\<open>Transactions and commits.\<close> \<^verbatim>\<open>Transaction_Writes\<close> (\<^verbatim>\<open>writes.rs\<close>): the write set, its limits, the reads
  that a write records, and sub-transactions; \<open>written\<close> is the history of a write set and
  \<open>write_attempts\<close> the history with the writes that were refused. \<^verbatim>\<open>Write_Log\<close>
  (\<^verbatim>\<open>write_log.rs\<close>): the log of commits with staleness tests, token refresh, waiters and retention, and
  the pending writes; \<open>log_run\<close> is its history and \<open>log_inv\<close> its invariant. \<^verbatim>\<open>Snapshot_Manager\<close>
  (\<^verbatim>\<open>snapshot_manager.rs\<close>): the window of versions of the metadata, reading at a timestamp, and the update
  of a snapshot by a write; \<open>version_run\<close> and \<open>versions_inv\<close> are history and invariant.

  \<^bold>\<open>Bounds.\<close> Apart from the decoder of sort keys no definition has fuel: the loops of the source are
  structural recursions over the list they consume, and those that are not (the binary search, the
  loop over waiters, the blocks of base 32, the reads through a peeker, the walks over opened values)
  have termination proofs.

  \<^bold>\<open>What modelling showed.\<close> Three theorems state defects: the empty field name is accepted and breaks
  the order of sort keys (\<^verbatim>\<open>Sort_Key_Order\<close>), merging the reads of two searches of an index can lose a
  conflict (\<^verbatim>\<open>Reads\<close>), and a pending index hides the enabled index of the same name from the test on
  index keys (\<^verbatim>\<open>Registry_View\<close>). The positive theorems have hypotheses that exclude exactly these.

  \<^bold>\<open>Not modelled.\<close> The rest of the system around this core: the tasks that drive it (the committer's
  loop over its channel, the subscription worker, index backfill and retention workers), the storage
  engines behind the persistence interface, the execution of functions in V8 and Node, query
  planning, the vector and text search engines, the HTTP and sync servers, the administration
  models, and the clients. They are I/O, or code around third-party engines, and meet the modelled
  part at the arguments named above. Metrics, tracing, heap-size accounting, \<^verbatim>\<open>Display\<close> and \<^verbatim>\<open>Debug\<close> are
  left out everywhere, and so are mutexes, which the modelled operations hold for their whole run.
\<close>

end
